(* ===== verification/Prelude.thy ===== *)
theory Prelude
  imports Main "HOL-Library.Word" "HOL-Library.Multiset" "HOL-Library.Monad_Syntax"
begin

text \<open>
  The vocabulary every component shares: the machine integers of
  \<^verbatim>\<open>ccan/short_types\<close>, byte strings, the byte orders of \<^verbatim>\<open>ccan/endian\<close>,
  \<^verbatim>\<open>memcpy\<close> and \<^verbatim>\<open>memcmp\<close>, and the generic lemmas on lists and words the
  component proofs use.

  A failed \<^verbatim>\<open>assert\<close> or \<^verbatim>\<open>abort()\<close> of the C code is \<open>None\<close> of an
  \<open>option\<close> result throughout; an error the code returns is a value.
\<close>

unbundle bit_operations_syntax

section \<open>Collections\<close>

named_theorems endian_simps "encoding and decoding of fixed-width integers"
named_theorems flag_simps "evaluation of the HTLC state table"
named_theorems channel_frame "fields of a channel an operation leaves alone"

section \<open>Machine integers and byte strings\<close>

type_synonym u8 = "8 word"
type_synonym u16 = "16 word"
type_synonym u32 = "32 word"
type_synonym u64 = "64 word"

text \<open>\<open>s64\<close> values are kept as 64-bit words too and read with \<open>sint\<close>.\<close>

type_synonym s64 = "64 word"
type_synonym bytes = "u8 list"

subsection \<open>Byte order\<close>

text \<open>
  \<open>le_bytes n w\<close> are the \<open>n\<close> low bytes of \<open>w\<close>, least significant first: what
  \<^verbatim>\<open>cpu_to_le16/32/64\<close> leave in memory. \<open>be_bytes\<close> is the other order.
\<close>

primrec le_bytes :: "nat \<Rightarrow> 'a::len word \<Rightarrow> bytes" where
  "le_bytes 0 w = []"
| "le_bytes (Suc n) w = ucast w # le_bytes n (drop_bit 8 w)"

primrec le_val :: "bytes \<Rightarrow> 'a::len word" where
  "le_val [] = 0"
| "le_val (b # bs) = ucast b OR push_bit 8 (le_val bs)"

definition be_bytes :: "nat \<Rightarrow> 'a::len word \<Rightarrow> bytes" where
  "be_bytes n w = rev (le_bytes n w)"

definition be_val :: "bytes \<Rightarrow> 'a::len word" where
  "be_val bs = le_val (rev bs)"

definition cpu_to_le16 :: "u16 \<Rightarrow> bytes" where "cpu_to_le16 w = le_bytes 2 w"
definition cpu_to_le32 :: "u32 \<Rightarrow> bytes" where "cpu_to_le32 w = le_bytes 4 w"
definition cpu_to_le64 :: "u64 \<Rightarrow> bytes" where "cpu_to_le64 w = le_bytes 8 w"
definition cpu_to_be16 :: "u16 \<Rightarrow> bytes" where "cpu_to_be16 w = be_bytes 2 w"
definition cpu_to_be32 :: "u32 \<Rightarrow> bytes" where "cpu_to_be32 w = be_bytes 4 w"
definition cpu_to_be64 :: "u64 \<Rightarrow> bytes" where "cpu_to_be64 w = be_bytes 8 w"
definition le16_to_cpu :: "bytes \<Rightarrow> u16" where "le16_to_cpu bs = le_val bs"
definition le32_to_cpu :: "bytes \<Rightarrow> u32" where "le32_to_cpu bs = le_val bs"
definition le64_to_cpu :: "bytes \<Rightarrow> u64" where "le64_to_cpu bs = le_val bs"
definition be16_to_cpu :: "bytes \<Rightarrow> u16" where "be16_to_cpu bs = be_val bs"
definition be32_to_cpu :: "bytes \<Rightarrow> u32" where "be32_to_cpu bs = be_val bs"
definition be64_to_cpu :: "bytes \<Rightarrow> u64" where "be64_to_cpu bs = be_val bs"

lemmas endian_defs =
  cpu_to_le16_def cpu_to_le32_def cpu_to_le64_def cpu_to_be16_def cpu_to_be32_def cpu_to_be64_def
  le16_to_cpu_def le32_to_cpu_def le64_to_cpu_def be16_to_cpu_def be32_to_cpu_def be64_to_cpu_def

lemma length_le_bytes [simp]: "length (le_bytes n w) = n"
  by (induction n arbitrary: w) auto

lemma length_be_bytes [simp]: "length (be_bytes n w) = n"
  by (simp add: be_bytes_def)

lemma bit_le_val:
  "bit (le_val bs :: 'a::len word) i \<longleftrightarrow>
     i < LENGTH('a) \<and> i div 8 < length bs \<and> bit (bs ! (i div 8)) (i mod 8)"
proof (induction bs arbitrary: i)
  case Nil
  show ?case by simp
next
  case (Cons b bs)
  show ?case
  proof (cases "i < 8")
    case True
    then show ?thesis
      by (auto simp: bit_or_iff bit_push_bit_iff bit_ucast_iff)
  next
    case False
    then obtain j where j: "i = j + 8" by (metis add.commute le_add_diff_inverse not_less)
    have "\<not> bit b (j + 8)" using bit_imp_le_length [of b "j + 8"] by auto
    moreover have "(j + 8) div 8 = Suc (j div 8)" by simp
    ultimately show ?thesis
      using Cons.IH [of j] by (auto simp: j bit_or_iff bit_push_bit_iff bit_ucast_iff)
  qed
qed

lemma nth_le_bytes: "k < n \<Longrightarrow> le_bytes n w ! k = ucast (drop_bit (8 * k) w)"
proof (induction n arbitrary: w k)
  case 0
  then show ?case by simp
next
  case (Suc n)
  then show ?case
    by (cases k) (simp_all add: drop_bit_drop_bit add.commute)
qed

lemma le_val_le_bytes: "le_val (le_bytes n w) = (take_bit (8 * n) w :: 'a::len word)"
proof (rule bit_word_eqI)
  fix i assume i: "i < LENGTH('a)"
  have "bit w (8 * (i div 8) + i mod 8) = bit w i" by simp
  then show "bit (le_val (le_bytes n w) :: 'a word) i = bit (take_bit (8 * n) w) i"
    using i by (auto simp: bit_le_val nth_le_bytes bit_take_bit_iff bit_ucast_iff bit_drop_bit_eq
        less_mult_imp_div_less mult.commute)
qed

lemma le_bytes_le_val:
  assumes "length bs = n" and "8 * n \<le> LENGTH('a)"
  shows "le_bytes n (le_val bs :: 'a::len word) = bs"
proof (rule nth_equalityI)
  show "length (le_bytes n (le_val bs :: 'a word)) = length bs" using assms by simp
next
  fix k assume "k < length (le_bytes n (le_val bs :: 'a word))"
  then have k: "k < n" by simp
  show "le_bytes n (le_val bs :: 'a word) ! k = bs ! k"
  proof (rule bit_word_eqI)
    fix i assume "i < LENGTH(8)"
    then have i: "i < 8" by simp
    have "8 * k + i < LENGTH('a)" using assms k i by linarith
    then show "bit (le_bytes n (le_val bs :: 'a word) ! k) i = bit (bs ! k) i"
      using k i assms by (simp add: nth_le_bytes bit_ucast_iff bit_drop_bit_eq bit_le_val)
  qed
qed

lemma take_bit_word_full [simp]: "LENGTH('a) \<le> n \<Longrightarrow> take_bit n (w :: 'a::len word) = w"
  by (simp add: take_bit_word_eq_self)

lemma be_val_be_bytes: "be_val (be_bytes n w) = (take_bit (8 * n) w :: 'a::len word)"
  by (simp add: be_val_def be_bytes_def le_val_le_bytes)

lemma be_bytes_be_val:
  "length bs = n \<Longrightarrow> 8 * n \<le> LENGTH('a) \<Longrightarrow> be_bytes n (be_val bs :: 'a::len word) = bs"
  by (simp add: be_val_def be_bytes_def le_bytes_le_val)

lemma endian_roundtrip [endian_simps, simp]:
  "le16_to_cpu (cpu_to_le16 a) = a" "le32_to_cpu (cpu_to_le32 b) = b" "le64_to_cpu (cpu_to_le64 c) = c"
  "be16_to_cpu (cpu_to_be16 a) = a" "be32_to_cpu (cpu_to_be32 b) = b" "be64_to_cpu (cpu_to_be64 c) = c"
  by (simp_all add: endian_defs le_val_le_bytes be_val_be_bytes)

lemma endian_length [endian_simps, simp]:
  "length (cpu_to_le16 a) = 2" "length (cpu_to_le32 b) = 4" "length (cpu_to_le64 c) = 8"
  "length (cpu_to_be16 a) = 2" "length (cpu_to_be32 b) = 4" "length (cpu_to_be64 c) = 8"
  by (simp_all add: endian_defs)

lemma endian_inverse [endian_simps]:
  "length bs = 2 \<Longrightarrow> cpu_to_le16 (le16_to_cpu bs) = bs"
  "length bs = 4 \<Longrightarrow> cpu_to_le32 (le32_to_cpu bs) = bs"
  "length bs = 8 \<Longrightarrow> cpu_to_le64 (le64_to_cpu bs) = bs"
  "length bs = 2 \<Longrightarrow> cpu_to_be16 (be16_to_cpu bs) = bs"
  "length bs = 4 \<Longrightarrow> cpu_to_be32 (be32_to_cpu bs) = bs"
  "length bs = 8 \<Longrightarrow> cpu_to_be64 (be64_to_cpu bs) = bs"
  by (simp_all add: endian_defs le_bytes_le_val be_bytes_be_val)

lemma unat_minus_one_word [simp]: "unat (- 1 :: 'a::len word) = 2 ^ LENGTH('a) - 1"
  by (simp add: unsigned_minus_1_eq_mask mask_eq_exp_minus_1)

section \<open>Memory\<close>

text \<open>\<open>memcpy_at buf off src\<close>: the buffer after \<^verbatim>\<open>memcpy(buf + off, src, len)\<close>.\<close>

definition memcpy_at :: "'a list \<Rightarrow> nat \<Rightarrow> 'a list \<Rightarrow> 'a list" where
  "memcpy_at buf off src = take off buf @ src @ drop (off + length src) buf"

lemma length_memcpy_at: "off + length src \<le> length buf \<Longrightarrow> length (memcpy_at buf off src) = length buf"
  by (simp add: memcpy_at_def)

lemma take_memcpy_at:
  "off \<le> length buf \<Longrightarrow> take (off + length src) (memcpy_at buf off src) = take off buf @ src"
  by (simp add: memcpy_at_def)

text \<open>
  \<^verbatim>\<open>memcmp\<close> over two arrays of one length; only the sign of its result is specified, and
  the code only looks at the sign.
\<close>

fun memcmp :: "bytes \<Rightarrow> bytes \<Rightarrow> int" where
  "memcmp (a # as) (b # bs) = (if a < b then -1 else if b < a then 1 else memcmp as bs)"
| "memcmp _ _ = 0"

lemma memcmp_refl [simp]: "memcmp xs xs = 0"
  by (induction xs) auto

lemma memcmp_eq_0: "length xs = length ys \<Longrightarrow> memcmp xs ys = 0 \<longleftrightarrow> xs = ys"
  by (induction xs ys rule: memcmp.induct) auto

lemma memcmp_antisym: "memcmp xs ys < 0 \<longleftrightarrow> memcmp ys xs > 0"
  by (induction xs ys rule: memcmp.induct) auto

lemma memcmp_trans:
  "length xs = length ys \<Longrightarrow> length ys = length zs \<Longrightarrow> memcmp xs ys < 0 \<Longrightarrow> memcmp ys zs < 0 \<Longrightarrow>
    memcmp xs zs < 0"
proof (induction xs ys arbitrary: zs rule: memcmp.induct)
  case (1 a as b bs)
  then obtain c cs where zs: "zs = c # cs" by (cases zs) auto
  with 1 show ?case by (auto split: if_splits)
qed auto

section \<open>Lists\<close>

text \<open>Swapping two entries of an array.\<close>

definition swap :: "'a list \<Rightarrow> nat \<Rightarrow> nat \<Rightarrow> 'a list" where
  "swap xs i j = xs[i := xs ! j, j := xs ! i]"

lemma length_swap [simp]: "length (swap xs i j) = length xs"
  by (simp add: swap_def)

lemma mset_swap_nth: "i < length xs \<Longrightarrow> j < length xs \<Longrightarrow> mset (swap xs i j) = mset xs"
  by (simp add: swap_def mset_swap)

lemma nth_swap:
  "i < length xs \<Longrightarrow> j < length xs \<Longrightarrow> k < length xs \<Longrightarrow>
    swap xs i j ! k = (if k = i then xs ! j else if k = j then xs ! i else xs ! k)"
  by (auto simp: swap_def nth_list_update)

lemma swap_same [simp]: "swap xs i i = xs"
  by (simp add: swap_def)

lemma swap_map: "i < length xs \<Longrightarrow> j < length xs \<Longrightarrow> swap (map f xs) i j = map f (swap xs i j)"
  by (simp add: swap_def map_update)

lemma swap_zip:
  "length xs = length ys \<Longrightarrow> i < length xs \<Longrightarrow> j < length xs \<Longrightarrow>
    swap (zip xs ys) i j = zip (swap xs i j) (swap ys i j)"
  by (rule nth_equalityI) (auto simp: nth_swap)

lemma swap_replicate: "i < n \<Longrightarrow> j < n \<Longrightarrow> swap (replicate n x) i j = replicate n x"
  by (rule nth_equalityI) (auto simp: nth_swap)

lemma sum_list_mset: "mset xs = mset ys \<Longrightarrow> sum_list (map f xs) = sum_list (map (f :: _ \<Rightarrow> nat) ys)"
  by (simp only: sum_mset_sum_list [symmetric] mset_map)

text \<open>Reading a list in blocks of a fixed size.\<close>

function chunks :: "nat \<Rightarrow> 'a list \<Rightarrow> 'a list list" where
  "chunks n xs = (if n = 0 \<or> length xs < n then [] else take n xs # chunks n (drop n xs))"
  by pat_completeness auto
termination
  by (relation "measure (\<lambda>(n, xs). length xs)") auto

declare chunks.simps [simp del]

lemma chunks_short [simp]: "length xs < n \<Longrightarrow> chunks n xs = []"
  by (simp add: chunks.simps)

lemma chunks_app: "0 < n \<Longrightarrow> length xs = n \<Longrightarrow> chunks n (xs @ ys) = xs # chunks n ys"
  by (simp add: chunks.simps [of n "xs @ ys"])

lemma chunks_append:
  "0 < n \<Longrightarrow> n dvd length xs \<Longrightarrow> chunks n (xs @ ys) = chunks n xs @ chunks n ys"
proof (induction n xs rule: chunks.induct)
  case (1 n xs)
  show ?case
  proof (cases "n = 0 \<or> length xs < n")
    case True
    with 1 have "xs = []" by (auto elim: dvdE)
    then show ?thesis using 1 by (auto simp: chunks.simps [of n "[]"])
  next
    case False
    then have "n dvd length (drop n xs)" using 1 by (simp add: dvd_diff_nat)
    with 1 False have IH: "chunks n (drop n xs @ ys) = chunks n (drop n xs) @ chunks n ys" by simp
    have "chunks n (xs @ ys) = take n xs # chunks n (drop n xs @ ys)"
      using False by (simp add: chunks.simps [of n "xs @ ys"])
    with False IH show ?thesis by (simp add: chunks.simps [of n xs])
  qed
qed

end
