(* ===== verification/BlockHash.thy ===== *)
theory BlockHash
  imports Prelude
begin

text \<open>
  The buffering code that \<^verbatim>\<open>ccan/crypto/sha256/sha256.c\<close> and
  \<^verbatim>\<open>ccan/crypto/ripemd160/ripemd160.c\<close> share word for word (their static function
  \<^verbatim>\<open>add\<close>), over the compression function \<open>tr\<close>. The build without OpenSSL on a machine
  with \<^verbatim>\<open>HAVE_UNALIGNED_ACCESS\<close> is the one modelled.

  \<open>block_rep\<close> says which message a context stands for; \<open>block_add_rep\<close> shows that adding
  data to a context appends it to that message, wherever the block boundaries fall.
\<close>

section \<open>The buffered context\<close>

text \<open>\<^verbatim>\<open>struct sha256_ctx\<close> and \<^verbatim>\<open>struct ripemd160_ctx\<close>: chaining state, block buffer, byte count.\<close>

record hash_ctx =
  hc_s :: "u32 list"
  hc_buf :: bytes
  hc_bytes :: u64

text \<open>Finishing a context poisons its byte count; using it again fails an assertion.\<close>

definition invalidate_ctx :: "hash_ctx \<Rightarrow> hash_ctx" where
  "invalidate_ctx ctx = ctx\<lparr>hc_bytes := - 1\<rparr>"

definition check_ctx :: "hash_ctx \<Rightarrow> bool" where
  "check_ctx ctx \<longleftrightarrow> hc_bytes ctx \<noteq> - 1"

text \<open>The \<^verbatim>\<open>while (len >= 64)\<close> loop: full chunks go to \<open>Transform\<close> straight from the source.\<close>

function block_add_chunks :: "(u32 list \<Rightarrow> bytes \<Rightarrow> u32 list) \<Rightarrow> hash_ctx \<Rightarrow> bytes \<Rightarrow> hash_ctx \<times> bytes" where
  "block_add_chunks tr ctx data =
     (if 64 \<le> length data
      then block_add_chunks tr
             (ctx\<lparr>hc_s := tr (hc_s ctx) (take 64 data),
                  hc_bytes := hc_bytes ctx + 64\<rparr>)
             (drop 64 data)
      else (ctx, data))"
  by pat_completeness auto
termination
  by (relation "measure (\<lambda>(tr, ctx, data). length data)") auto

declare block_add_chunks.simps [simp del]

definition block_add :: "(u32 list \<Rightarrow> bytes \<Rightarrow> u32 list) \<Rightarrow> hash_ctx \<Rightarrow> bytes \<Rightarrow> hash_ctx" where
  "block_add tr ctx data =
     (let bufsize = unat (hc_bytes ctx) mod 64;
          (ctx, data, bufsize) =
            (if 64 \<le> bufsize + length data
             then let buf = memcpy_at (hc_buf ctx) bufsize (take (64 - bufsize) data)
                  in (ctx\<lparr>hc_buf := buf,
                          hc_bytes := hc_bytes ctx + of_nat (64 - bufsize),
                          hc_s := tr (hc_s ctx) buf\<rparr>,
                      drop (64 - bufsize) data, 0)
             else (ctx, data, bufsize));
          (ctx, data) = block_add_chunks tr ctx data
      in if data \<noteq> []
         then ctx\<lparr>hc_buf := memcpy_at (hc_buf ctx) bufsize data,
                  hc_bytes := hc_bytes ctx + of_nat (length data)\<rparr>
         else ctx)"

section \<open>What a context stands for\<close>

text \<open>The chaining value after all complete blocks of a message.\<close>

definition block_fold :: "(u32 list \<Rightarrow> bytes \<Rightarrow> u32 list) \<Rightarrow> u32 list \<Rightarrow> bytes \<Rightarrow> u32 list" where
  "block_fold tr s0 m = foldl tr s0 (chunks 64 m)"

definition block_rep :: "(u32 list \<Rightarrow> bytes \<Rightarrow> u32 list) \<Rightarrow> u32 list \<Rightarrow> hash_ctx \<Rightarrow> bytes \<Rightarrow> bool" where
  "block_rep tr s0 ctx m \<longleftrightarrow>
     length (hc_buf ctx) = 64 \<and> hc_bytes ctx = of_nat (length m) \<and>
     hc_s ctx = block_fold tr s0 m \<and>
     take (length m mod 64) (hc_buf ctx) = drop (length m - length m mod 64) m"

text \<open>A context at a block boundary stands for its blocks, whatever the buffer holds.\<close>

definition block_aligned :: "(u32 list \<Rightarrow> bytes \<Rightarrow> u32 list) \<Rightarrow> u32 list \<Rightarrow> hash_ctx \<Rightarrow> bytes \<Rightarrow> bool" where
  "block_aligned tr s0 ctx m \<longleftrightarrow> 64 dvd length m \<and> length (hc_buf ctx) = 64 \<and>
     hc_bytes ctx = of_nat (length m) \<and> hc_s ctx = block_fold tr s0 m"

lemma unat_of_nat_mod64 [simp]: "unat (of_nat n :: u64) mod 64 = n mod 64"
  by (simp add: unat_of_nat mod_mod_cancel)

lemma chunks_snoc:
  assumes "0 < n" "n dvd length xs" "length ys = n"
  shows "chunks n (xs @ ys) = chunks n xs @ [ys]"
  using assms chunks_append [of n xs ys] chunks_app [of n ys "[]"] by simp

lemma chunks_tail:
  assumes "0 < n" shows "chunks n m = chunks n (take (length m - length m mod n) m)"
proof -
  let ?k = "length m - length m mod n"
  have "n dvd ?k" by (simp add: dvd_minus_mod)
  then have "chunks n (take ?k m @ drop ?k m) = chunks n (take ?k m) @ chunks n (drop ?k m)"
    using assms by (intro chunks_append) auto
  moreover have "chunks n (drop ?k m) = []" using assms by (intro chunks_short) simp
  ultimately show ?thesis by simp
qed

section \<open>The interface of a compression function\<close>

text \<open>
  What the buffering relies on: the initial state and every transformed state have the
  length of the chaining value.
\<close>

locale compression =
  fixes tr :: "u32 list \<Rightarrow> bytes \<Rightarrow> u32 list" and s0 :: "u32 list" and n :: nat
  assumes length_s0: "length s0 = n"
    and length_tr: "length (tr s c) = n"
begin

lemma block_fold_snoc:
  assumes "64 dvd length m" and "length c = 64"
  shows "block_fold tr s0 (m @ c) = tr (block_fold tr s0 m) c"
  using assms by (simp add: block_fold_def chunks_snoc)

lemma block_fold_tail:
  "64 dvd length m \<Longrightarrow> length r < 64 \<Longrightarrow> block_fold tr s0 (m @ r) = block_fold tr s0 m"
  by (simp add: block_fold_def chunks_append)

lemma block_fold_take: "block_fold tr s0 (take (length m - length m mod 64) m) = block_fold tr s0 m"
  unfolding block_fold_def by (subst chunks_tail [of 64 m]) simp_all

lemma length_block_fold [simp]: "length (block_fold tr s0 m) = n"
  by (cases "chunks 64 m" rule: rev_cases) (simp_all add: block_fold_def length_s0 length_tr)

lemma rep_init: "block_rep tr s0 \<lparr>hc_s = s0, hc_buf = replicate 64 0, hc_bytes = 0\<rparr> []"
  by (simp add: block_rep_def block_fold_def)

lemma block_add_chunks_aligned:
  assumes "block_aligned tr s0 ctx m"
  shows "\<exists>ctx' d1 d2. block_add_chunks tr ctx data = (ctx', d2) \<and> data = d1 @ d2 \<and> length d2 < 64 \<and>
    block_aligned tr s0 ctx' (m @ d1)"
  using assms
proof (induction "length data" arbitrary: ctx data m rule: less_induct)
  case less
  show ?case
  proof (cases "64 \<le> length data")
    case True
    let ?ctx = "ctx\<lparr>hc_s := tr (hc_s ctx) (take 64 data), hc_bytes := hc_bytes ctx + 64\<rparr>"
    have "block_aligned tr s0 ?ctx (m @ take 64 data)"
      using less.prems True by (auto simp: block_aligned_def block_fold_snoc add.commute)
    moreover have "length (drop 64 data) < length data" using True by simp
    ultimately obtain ctx' d1 d2 where *:
      "block_add_chunks tr ?ctx (drop 64 data) = (ctx', d2)" "drop 64 data = d1 @ d2" "length d2 < 64"
      "block_aligned tr s0 ctx' ((m @ take 64 data) @ d1)" using less.hyps by blast
    then have "data = (take 64 data @ d1) @ d2" by (metis append.assoc append_take_drop_id)
    with * True show ?thesis by (subst block_add_chunks.simps) (metis append.assoc)
  next
    case False
    with less.prems show ?thesis by (subst block_add_chunks.simps) auto
  qed
qed

lemma block_rep_tail:
  assumes "block_aligned tr s0 ctx m" and "length d < 64" and "d \<noteq> []"
  shows "block_rep tr s0 (ctx\<lparr>hc_buf := memcpy_at (hc_buf ctx) 0 d,
    hc_bytes := hc_bytes ctx + of_nat (length d)\<rparr>) (m @ d)"
proof -
  have "(length m + length d) mod 64 = length d"
    using assms by (auto simp: block_aligned_def mod_add_left_eq [symmetric])
  with assms show ?thesis
    by (auto simp: block_rep_def block_aligned_def block_fold_tail memcpy_at_def)
qed

lemma rep_aligned: "block_aligned tr s0 ctx m \<Longrightarrow> block_rep tr s0 ctx m"
  by (auto simp: block_rep_def block_aligned_def)

lemma block_rep_finish:
  assumes "block_aligned tr s0 ctx m" and "block_add_chunks tr ctx d = (ctx', r)"
  shows "block_rep tr s0 (if r \<noteq> [] then ctx'\<lparr>hc_buf := memcpy_at (hc_buf ctx') 0 r,
    hc_bytes := hc_bytes ctx' + of_nat (length r)\<rparr> else ctx') (m @ d)"
proof -
  from block_add_chunks_aligned [OF assms(1), of d] assms(2)
  obtain d1 where d: "d = d1 @ r" "length r < 64" and al: "block_aligned tr s0 ctx' (m @ d1)" by auto
  from block_rep_tail [OF al d(2)] rep_aligned [OF al] d(1) show ?thesis by auto
qed

text \<open>Adding data to a context appends it to what the context stands for.\<close>

lemma block_add_rep:
  assumes rep: "block_rep tr s0 ctx m"
  shows "block_rep tr s0 (block_add tr ctx d) (m @ d)"
proof (cases "64 \<le> length m mod 64 + length d")
  case False
  define b where "b = length m mod 64"
  have sz: "unat (hc_bytes ctx) mod 64 = b" using rep by (simp add: block_rep_def b_def)
  have nochunk: "block_add_chunks tr ctx d = (ctx, d)" using False by (subst block_add_chunks.simps) simp
  show ?thesis
  proof (cases "d = []")
    case True
    with rep False nochunk show ?thesis by (simp add: block_add_def sz b_def Let_def)
  next
    case d: False
    have mods: "(length m + length d) mod 64 = b + length d"
      using False by (simp add: b_def mod_add_left_eq [symmetric, of "length m"])
    have bl: "b \<le> length m" by (simp add: b_def)
    have "m @ d = take (length m - b) m @ (drop (length m - b) m @ d)" by simp
    moreover have "64 dvd length (take (length m - b) m)" by (simp add: b_def dvd_minus_mod)
    moreover have "length (drop (length m - b) m @ d) < 64" using False bl by (simp add: b_def)
    ultimately have "block_fold tr s0 (m @ d) = block_fold tr s0 (take (length m - b) m)"
      by (metis block_fold_tail)
    then have blocks: "block_fold tr s0 (m @ d) = block_fold tr s0 m"
      by (simp add: b_def block_fold_take)
    have buf: "length (hc_buf ctx) = 64" "take b (hc_buf ctx) = drop (length m - b) m"
      using rep by (auto simp: block_rep_def b_def)
    have "block_add tr ctx d = ctx\<lparr>hc_buf := memcpy_at (hc_buf ctx) b d,
        hc_bytes := hc_bytes ctx + of_nat (length d)\<rparr>"
      using False d by (simp add: block_add_def sz nochunk b_def Let_def)
    moreover have "take (b + length d) (memcpy_at (hc_buf ctx) b d) = drop (length m - b) (m @ d)"
      using False buf bl by (subst take_memcpy_at) (auto simp: b_def)
    moreover have "length (memcpy_at (hc_buf ctx) b d) = 64"
      using False buf by (subst length_memcpy_at) (auto simp: b_def)
    ultimately show ?thesis
      using rep bl by (simp add: block_rep_def blocks mods)
  qed
next
  case True
  define b where "b = length m mod 64"
  define buf where "buf = memcpy_at (hc_buf ctx) b (take (64 - b) d)"
  define ctx1 where "ctx1 = ctx\<lparr>hc_buf := buf, hc_bytes := hc_bytes ctx + of_nat (64 - b),
    hc_s := tr (hc_s ctx) buf\<rparr>"
  have sz: "unat (hc_bytes ctx) mod 64 = b" using rep by (simp add: block_rep_def b_def)
  have b: "b < 64" "b \<le> length m" by (simp_all add: b_def)
  have tk: "length (take (64 - b) d) = 64 - b" using True by (simp add: b_def)
  have lbuf: "length (hc_buf ctx) = 64" "take b (hc_buf ctx) = drop (length m - b) m"
    using rep by (auto simp: block_rep_def b_def)
  have bufeq: "buf = drop (length m - b) m @ take (64 - b) d"
    using lbuf b True by (simp add: buf_def memcpy_at_def tk b_def)
  have len: "length (m @ take (64 - b) d) = length m - b + 64" using b tk by simp
  have mm: "m @ take (64 - b) d = take (length m - b) m @ buf" by (simp add: bufeq)
  have dv: "64 dvd length (take (length m - b) m)" by (simp add: b_def dvd_minus_mod)
  have "block_fold tr s0 (m @ take (64 - b) d) = tr (block_fold tr s0 (take (length m - b) m)) buf"
    unfolding mm using dv b tk by (intro block_fold_snoc) (auto simp: bufeq)
  moreover have "block_fold tr s0 (take (length m - b) m) = block_fold tr s0 m"
    by (simp add: b_def block_fold_take)
  moreover have "64 dvd length (m @ take (64 - b) d)" unfolding len using dv by simp
  ultimately have al: "block_aligned tr s0 ctx1 (m @ take (64 - b) d)"
    using rep b tk by (auto simp: block_aligned_def ctx1_def block_rep_def bufeq)
  obtain ctx' r where ch: "block_add_chunks tr ctx1 (drop (64 - b) d) = (ctx', r)" by fastforce
  have "block_add tr ctx d = (if r \<noteq> [] then ctx'\<lparr>hc_buf := memcpy_at (hc_buf ctx') 0 r,
      hc_bytes := hc_bytes ctx' + of_nat (length r)\<rparr> else ctx')"
    using True ch by (simp add: block_add_def sz b_def [symmetric] ctx1_def buf_def Let_def)
  with block_rep_finish [OF al ch] show ?thesis by (simp add: append.assoc)
qed

lemma check_rep:
  assumes rep: "block_rep tr s0 ctx m" and len: "length m < 2 ^ 64 - 1"
  shows "check_ctx ctx"
proof -
  have "(of_nat (length m) :: u64) \<noteq> - 1"
  proof
    assume "(of_nat (length m) :: u64) = - 1"
    then have "unat (of_nat (length m) :: u64) = unat (- 1 :: u64)" by (rule arg_cong)
    with len show False by (simp add: unat_of_nat)
  qed
  then show ?thesis using rep unfolding check_ctx_def block_rep_def by metis
qed

lemma state_rep: "block_rep tr s0 ctx m \<Longrightarrow> hc_s ctx = block_fold tr s0 m"
  by (simp add: block_rep_def)

lemma size_rep: "block_rep tr s0 ctx m \<Longrightarrow> unat (hc_bytes ctx) mod 64 = length m mod 64"
  by (simp add: block_rep_def)

end

end
