(* ===== verification/Sha256.thy ===== *)
theory Sha256
  imports BlockHash
begin

text \<open>
  \<^verbatim>\<open>ccan/crypto/sha256/sha256.c\<close> and \<^verbatim>\<open>bitcoin/shadouble.c\<close>: the compression function, the
  buffered context (\<^verbatim>\<open>sha256_init\<close>, \<^verbatim>\<open>sha256_update\<close>, \<^verbatim>\<open>sha256_done\<close>), the one-shot
  \<^verbatim>\<open>sha256\<close> and bitcoin's double hash.

  The buffered code computes the hash of the padded message (\<open>sha256_ref\<close>), however the
  message was cut into pieces.
\<close>

section \<open>The compression function\<close>

definition Ch :: "u32 \<Rightarrow> u32 \<Rightarrow> u32 \<Rightarrow> u32" where
  "Ch x y z = z XOR (x AND (y XOR z))"

definition Maj :: "u32 \<Rightarrow> u32 \<Rightarrow> u32 \<Rightarrow> u32" where
  "Maj x y z = (x AND y) OR (z AND (x OR y))"

definition Sigma0 :: "u32 \<Rightarrow> u32" where
  "Sigma0 x = (drop_bit 2 x OR push_bit 30 x) XOR (drop_bit 13 x OR push_bit 19 x)
     XOR (drop_bit 22 x OR push_bit 10 x)"

definition Sigma1 :: "u32 \<Rightarrow> u32" where
  "Sigma1 x = (drop_bit 6 x OR push_bit 26 x) XOR (drop_bit 11 x OR push_bit 21 x)
     XOR (drop_bit 25 x OR push_bit 7 x)"

definition sigma0 :: "u32 \<Rightarrow> u32" where
  "sigma0 x = (drop_bit 7 x OR push_bit 25 x) XOR (drop_bit 18 x OR push_bit 14 x) XOR drop_bit 3 x"

definition sigma1 :: "u32 \<Rightarrow> u32" where
  "sigma1 x = (drop_bit 17 x OR push_bit 15 x) XOR (drop_bit 19 x OR push_bit 13 x) XOR drop_bit 10 x"

text \<open>One round: the new values of \<open>d\<close> and \<open>h\<close>, the two arguments passed by address.\<close>

definition Round :: "u32 \<Rightarrow> u32 \<Rightarrow> u32 \<Rightarrow> u32 \<Rightarrow> u32 \<Rightarrow> u32 \<Rightarrow> u32 \<Rightarrow> u32 \<Rightarrow> u32 \<Rightarrow> u32 \<Rightarrow> u32 \<times> u32" where
  "Round a b c d e f g h k w =
     (let t1 = h + Sigma1 e + Ch e f g + k + w;
          t2 = Sigma0 a + Maj a b c
      in (d + t1, t1 + t2))"

text \<open>\<open>chunk32 chunk i\<close> is \<^verbatim>\<open>be32_to_cpu(chunk[i])\<close> of a 64-byte block.\<close>

definition chunk32 :: "bytes \<Rightarrow> nat \<Rightarrow> u32" where
  "chunk32 chunk i = be32_to_cpu (take 4 (drop (4 * i) chunk))"

type_synonym sha256_vars = "u32 \<times> u32 \<times> u32 \<times> u32 \<times> u32 \<times> u32 \<times> u32 \<times> u32"

definition Transform_rounds :: "sha256_vars \<Rightarrow> bytes \<Rightarrow> sha256_vars" where
  "Transform_rounds s chunk =
     (let (a, b, c, d, e, f, g, h) = s;
        w0 = chunk32 chunk 0;
        (d, h) = Round a b c d e f g h 0x428a2f98 w0;
        w1 = chunk32 chunk 1;
        (c, g) = Round h a b c d e f g 0x71374491 w1;
        w2 = chunk32 chunk 2;
        (b, f) = Round g h a b c d e f 0xb5c0fbcf w2;
        w3 = chunk32 chunk 3;
        (a, e) = Round f g h a b c d e 0xe9b5dba5 w3;
        w4 = chunk32 chunk 4;
        (h, d) = Round e f g h a b c d 0x3956c25b w4;
        w5 = chunk32 chunk 5;
        (g, c) = Round d e f g h a b c 0x59f111f1 w5;
        w6 = chunk32 chunk 6;
        (f, b) = Round c d e f g h a b 0x923f82a4 w6;
        w7 = chunk32 chunk 7;
        (e, a) = Round b c d e f g h a 0xab1c5ed5 w7;
        w8 = chunk32 chunk 8;
        (d, h) = Round a b c d e f g h 0xd807aa98 w8;
        w9 = chunk32 chunk 9;
        (c, g) = Round h a b c d e f g 0x12835b01 w9;
        w10 = chunk32 chunk 10;
        (b, f) = Round g h a b c d e f 0x243185be w10;
        w11 = chunk32 chunk 11;
        (a, e) = Round f g h a b c d e 0x550c7dc3 w11;
        w12 = chunk32 chunk 12;
        (h, d) = Round e f g h a b c d 0x72be5d74 w12;
        w13 = chunk32 chunk 13;
        (g, c) = Round d e f g h a b c 0x80deb1fe w13;
        w14 = chunk32 chunk 14;
        (f, b) = Round c d e f g h a b 0x9bdc06a7 w14;
        w15 = chunk32 chunk 15;
        (e, a) = Round b c d e f g h a 0xc19bf174 w15;
        w0 = w0 + (sigma1 w14 + w9 + sigma0 w1);
        (d, h) = Round a b c d e f g h 0xe49b69c1 w0;
        w1 = w1 + (sigma1 w15 + w10 + sigma0 w2);
        (c, g) = Round h a b c d e f g 0xefbe4786 w1;
        w2 = w2 + (sigma1 w0 + w11 + sigma0 w3);
        (b, f) = Round g h a b c d e f 0x0fc19dc6 w2;
        w3 = w3 + (sigma1 w1 + w12 + sigma0 w4);
        (a, e) = Round f g h a b c d e 0x240ca1cc w3;
        w4 = w4 + (sigma1 w2 + w13 + sigma0 w5);
        (h, d) = Round e f g h a b c d 0x2de92c6f w4;
        w5 = w5 + (sigma1 w3 + w14 + sigma0 w6);
        (g, c) = Round d e f g h a b c 0x4a7484aa w5;
        w6 = w6 + (sigma1 w4 + w15 + sigma0 w7);
        (f, b) = Round c d e f g h a b 0x5cb0a9dc w6;
        w7 = w7 + (sigma1 w5 + w0 + sigma0 w8);
        (e, a) = Round b c d e f g h a 0x76f988da w7;
        w8 = w8 + (sigma1 w6 + w1 + sigma0 w9);
        (d, h) = Round a b c d e f g h 0x983e5152 w8;
        w9 = w9 + (sigma1 w7 + w2 + sigma0 w10);
        (c, g) = Round h a b c d e f g 0xa831c66d w9;
        w10 = w10 + (sigma1 w8 + w3 + sigma0 w11);
        (b, f) = Round g h a b c d e f 0xb00327c8 w10;
        w11 = w11 + (sigma1 w9 + w4 + sigma0 w12);
        (a, e) = Round f g h a b c d e 0xbf597fc7 w11;
        w12 = w12 + (sigma1 w10 + w5 + sigma0 w13);
        (h, d) = Round e f g h a b c d 0xc6e00bf3 w12;
        w13 = w13 + (sigma1 w11 + w6 + sigma0 w14);
        (g, c) = Round d e f g h a b c 0xd5a79147 w13;
        w14 = w14 + (sigma1 w12 + w7 + sigma0 w15);
        (f, b) = Round c d e f g h a b 0x06ca6351 w14;
        w15 = w15 + (sigma1 w13 + w8 + sigma0 w0);
        (e, a) = Round b c d e f g h a 0x14292967 w15;
        w0 = w0 + (sigma1 w14 + w9 + sigma0 w1);
        (d, h) = Round a b c d e f g h 0x27b70a85 w0;
        w1 = w1 + (sigma1 w15 + w10 + sigma0 w2);
        (c, g) = Round h a b c d e f g 0x2e1b2138 w1;
        w2 = w2 + (sigma1 w0 + w11 + sigma0 w3);
        (b, f) = Round g h a b c d e f 0x4d2c6dfc w2;
        w3 = w3 + (sigma1 w1 + w12 + sigma0 w4);
        (a, e) = Round f g h a b c d e 0x53380d13 w3;
        w4 = w4 + (sigma1 w2 + w13 + sigma0 w5);
        (h, d) = Round e f g h a b c d 0x650a7354 w4;
        w5 = w5 + (sigma1 w3 + w14 + sigma0 w6);
        (g, c) = Round d e f g h a b c 0x766a0abb w5;
        w6 = w6 + (sigma1 w4 + w15 + sigma0 w7);
        (f, b) = Round c d e f g h a b 0x81c2c92e w6;
        w7 = w7 + (sigma1 w5 + w0 + sigma0 w8);
        (e, a) = Round b c d e f g h a 0x92722c85 w7;
        w8 = w8 + (sigma1 w6 + w1 + sigma0 w9);
        (d, h) = Round a b c d e f g h 0xa2bfe8a1 w8;
        w9 = w9 + (sigma1 w7 + w2 + sigma0 w10);
        (c, g) = Round h a b c d e f g 0xa81a664b w9;
        w10 = w10 + (sigma1 w8 + w3 + sigma0 w11);
        (b, f) = Round g h a b c d e f 0xc24b8b70 w10;
        w11 = w11 + (sigma1 w9 + w4 + sigma0 w12);
        (a, e) = Round f g h a b c d e 0xc76c51a3 w11;
        w12 = w12 + (sigma1 w10 + w5 + sigma0 w13);
        (h, d) = Round e f g h a b c d 0xd192e819 w12;
        w13 = w13 + (sigma1 w11 + w6 + sigma0 w14);
        (g, c) = Round d e f g h a b c 0xd6990624 w13;
        w14 = w14 + (sigma1 w12 + w7 + sigma0 w15);
        (f, b) = Round c d e f g h a b 0xf40e3585 w14;
        w15 = w15 + (sigma1 w13 + w8 + sigma0 w0);
        (e, a) = Round b c d e f g h a 0x106aa070 w15;
        w0 = w0 + (sigma1 w14 + w9 + sigma0 w1);
        (d, h) = Round a b c d e f g h 0x19a4c116 w0;
        w1 = w1 + (sigma1 w15 + w10 + sigma0 w2);
        (c, g) = Round h a b c d e f g 0x1e376c08 w1;
        w2 = w2 + (sigma1 w0 + w11 + sigma0 w3);
        (b, f) = Round g h a b c d e f 0x2748774c w2;
        w3 = w3 + (sigma1 w1 + w12 + sigma0 w4);
        (a, e) = Round f g h a b c d e 0x34b0bcb5 w3;
        w4 = w4 + (sigma1 w2 + w13 + sigma0 w5);
        (h, d) = Round e f g h a b c d 0x391c0cb3 w4;
        w5 = w5 + (sigma1 w3 + w14 + sigma0 w6);
        (g, c) = Round d e f g h a b c 0x4ed8aa4a w5;
        w6 = w6 + (sigma1 w4 + w15 + sigma0 w7);
        (f, b) = Round c d e f g h a b 0x5b9cca4f w6;
        w7 = w7 + (sigma1 w5 + w0 + sigma0 w8);
        (e, a) = Round b c d e f g h a 0x682e6ff3 w7;
        w8 = w8 + (sigma1 w6 + w1 + sigma0 w9);
        (d, h) = Round a b c d e f g h 0x748f82ee w8;
        w9 = w9 + (sigma1 w7 + w2 + sigma0 w10);
        (c, g) = Round h a b c d e f g 0x78a5636f w9;
        w10 = w10 + (sigma1 w8 + w3 + sigma0 w11);
        (b, f) = Round g h a b c d e f 0x84c87814 w10;
        w11 = w11 + (sigma1 w9 + w4 + sigma0 w12);
        (a, e) = Round f g h a b c d e 0x8cc70208 w11;
        w12 = w12 + (sigma1 w10 + w5 + sigma0 w13);
        (h, d) = Round e f g h a b c d 0x90befffa w12;
        w13 = w13 + (sigma1 w11 + w6 + sigma0 w14);
        (g, c) = Round d e f g h a b c 0xa4506ceb w13;
        (f, b) = Round c d e f g h a b 0xbef9a3f7 (w14 + sigma1 w12 + w7 + sigma0 w15);
        (e, a) = Round b c d e f g h a 0xc67178f2 (w15 + sigma1 w13 + w8 + sigma0 w0)
      in (a, b, c, d, e, f, g, h))"

definition sha256_Transform :: "u32 list \<Rightarrow> bytes \<Rightarrow> u32 list" where
  "sha256_Transform s chunk =
     (let (a, b, c, d, e, f, g, h) =
        Transform_rounds (s ! 0, s ! 1, s ! 2, s ! 3, s ! 4, s ! 5, s ! 6, s ! 7) chunk
      in [s ! 0 + a, s ! 1 + b, s ! 2 + c, s ! 3 + d, s ! 4 + e, s ! 5 + f, s ! 6 + g, s ! 7 + h])"

lemma length_sha256_Transform [simp]: "length (sha256_Transform s chunk) = 8"
  by (simp add: sha256_Transform_def split: prod.split)

section \<open>The hash\<close>

definition SHA256_INIT :: hash_ctx where
  "SHA256_INIT = \<lparr>hc_s = [0x6a09e667, 0xbb67ae85, 0x3c6ef372, 0xa54ff53a,
      0x510e527f, 0x9b05688c, 0x1f83d9ab, 0x5be0cd19],
    hc_buf = replicate 64 0, hc_bytes = 0\<rparr>"

definition sha256_add :: "hash_ctx \<Rightarrow> bytes \<Rightarrow> hash_ctx" where
  "sha256_add = block_add sha256_Transform"

definition sha256_init :: hash_ctx where
  "sha256_init = SHA256_INIT"

definition sha256_update :: "hash_ctx \<Rightarrow> bytes \<Rightarrow> hash_ctx option" where
  "sha256_update ctx p = (if check_ctx ctx then Some (sha256_add ctx p) else None)"

text \<open>\<^verbatim>\<open>pad[64] = {0x80}\<close>, of which at most 64 bytes are added.\<close>

definition sha256_pad :: bytes where
  "sha256_pad = 0x80 # replicate 63 0"

definition sha256_done :: "hash_ctx \<Rightarrow> hash_ctx \<times> bytes" where
  "sha256_done ctx =
     (let sizedesc = cpu_to_be64 (push_bit 3 (hc_bytes ctx));
          ctx = sha256_add ctx (take (1 + ((128 - 8 - (unat (hc_bytes ctx) mod 64) - 1) mod 64)) sha256_pad);
          ctx = sha256_add ctx sizedesc
      in (invalidate_ctx ctx, concat (map cpu_to_be32 (hc_s ctx))))"

text \<open>The one-shot hash; a fresh context always passes the check.\<close>

definition sha256 :: "bytes \<Rightarrow> bytes" where
  "sha256 p = (case sha256_update sha256_init p of
       None \<Rightarrow> []
     | Some ctx \<Rightarrow> snd (sha256_done ctx))"

definition sha256_le32 :: "hash_ctx \<Rightarrow> u32 \<Rightarrow> hash_ctx option" where
  "sha256_le32 ctx v = sha256_update ctx (cpu_to_le32 v)"

definition sha256_double :: "bytes \<Rightarrow> bytes" where
  "sha256_double p = sha256 (sha256 p)"

definition sha256_double_done :: "hash_ctx \<Rightarrow> bytes" where
  "sha256_double_done ctx = sha256 (snd (sha256_done ctx))"

section \<open>Reference definition\<close>

text \<open>
  The hash of a whole message, block by block: pad with \<open>0x80\<close>, zero bytes up to eight
  short of a block, and the bit length.
\<close>

definition sha256_padding :: "bytes \<Rightarrow> bytes" where
  "sha256_padding m = [0x80] @ replicate ((119 - length m mod 64) mod 64) 0
     @ cpu_to_be64 (of_nat (8 * length m))"

definition sha256_ref :: "bytes \<Rightarrow> bytes" where
  "sha256_ref m = concat (map cpu_to_be32
     (block_fold sha256_Transform (hc_s SHA256_INIT) (m @ sha256_padding m)))"

interpretation sha: compression sha256_Transform "hc_s SHA256_INIT" 8
  by unfold_locales (simp_all add: SHA256_INIT_def)

abbreviation sha256_rep :: "hash_ctx \<Rightarrow> bytes \<Rightarrow> bool" where
  "sha256_rep \<equiv> block_rep sha256_Transform (hc_s SHA256_INIT)"

lemma sha256_rep_init: "sha256_rep SHA256_INIT []"
  using sha.rep_init by (simp add: SHA256_INIT_def)

lemma sha256_add_rep: "sha256_rep ctx m \<Longrightarrow> sha256_rep (sha256_add ctx d) (m @ d)"
  unfolding sha256_add_def by (rule sha.block_add_rep)

lemma sha256_update_rep:
  "sha256_rep ctx m \<Longrightarrow> length m < 2 ^ 64 - 1 \<Longrightarrow>
    \<exists>ctx'. sha256_update ctx p = Some ctx' \<and> sha256_rep ctx' (m @ p)"
  using sha.check_rep [of ctx m] sha256_add_rep by (auto simp: sha256_update_def)

text \<open>Finishing a context gives the reference hash of what it stands for.\<close>

lemma sha256_done_rep:
  assumes rep: "sha256_rep ctx m"
  shows "snd (sha256_done ctx) = sha256_ref m"
proof -
  let ?n = "1 + ((128 - 8 - (length m mod 64) - 1) mod 64)"
  let ?sz = "cpu_to_be64 (push_bit 3 (hc_bytes ctx))"
  have n: "take ?n sha256_pad = [0x80] @ replicate ((119 - length m mod 64) mod 64) 0"
    by (simp add: sha256_pad_def min_def)
  have "push_bit 3 (hc_bytes ctx) = of_nat (8 * length m)"
    using rep by (simp add: block_rep_def push_bit_eq_mult)
  with n have "sha256_padding m = take ?n sha256_pad @ ?sz" by (simp add: sha256_padding_def)
  moreover have "hc_s (sha256_add (sha256_add ctx (take ?n sha256_pad)) ?sz)
      = block_fold sha256_Transform (hc_s SHA256_INIT) ((m @ take ?n sha256_pad) @ ?sz)"
    by (rule sha.state_rep, intro sha256_add_rep rep)
  moreover note sha.size_rep [OF rep]
  ultimately show ?thesis
    by (simp only: sha256_done_def sha256_ref_def Let_def snd_conv append.assoc)
qed

lemma sha256_eq_ref: "sha256 m = sha256_ref m"
  using sha256_update_rep [OF sha256_rep_init, of m]
  by (auto simp: sha256_def sha256_init_def sha256_done_rep)

lemma length_concat_cpu_to_be32: "length (concat (map cpu_to_be32 ws)) = 4 * length ws"
  by (induction ws) auto

lemma length_sha256 [simp]: "length (sha256 m) = 32"
  by (simp add: sha256_eq_ref sha256_ref_def length_concat_cpu_to_be32)

lemma length_sha256_double [simp]: "length (sha256_double m) = 32"
  by (simp add: sha256_double_def)

lemma sha256_done_sha256: "sha256_rep ctx m \<Longrightarrow> snd (sha256_done ctx) = sha256 m"
  by (simp add: sha256_done_rep sha256_eq_ref)

lemma sha256_double_done_rep: "sha256_rep ctx m \<Longrightarrow> sha256_double_done ctx = sha256_double m"
  by (simp add: sha256_double_done_def sha256_double_def sha256_done_sha256)

section \<open>Feeding a message piece by piece\<close>

text \<open>A sequence of \<^verbatim>\<open>sha256_update\<close> calls.\<close>

primrec sha256_updates :: "hash_ctx \<Rightarrow> bytes list \<Rightarrow> hash_ctx option" where
  "sha256_updates ctx [] = Some ctx"
| "sha256_updates ctx (p # ps) = (case sha256_update ctx p of
     None \<Rightarrow> None | Some ctx' \<Rightarrow> sha256_updates ctx' ps)"

lemma sha256_updates_rep:
  "sha256_rep ctx m \<Longrightarrow> length m + length (concat ps) < 2 ^ 64 - 1 \<Longrightarrow>
    \<exists>ctx'. sha256_updates ctx ps = Some ctx' \<and> sha256_rep ctx' (m @ concat ps)"
proof (induction ps arbitrary: ctx m)
  case Nil
  then show ?case by simp
next
  case (Cons p ps)
  from Cons.prems obtain ctx' where c: "sha256_update ctx p = Some ctx'" "sha256_rep ctx' (m @ p)"
    using sha256_update_rep [of ctx m p] by auto
  with Cons.IH [OF c(2)] Cons.prems show ?case by simp
qed

text \<open>
  C29: hashing a message piece by piece through the buffered context gives SHA-256 of the whole
  message, however it is cut: the fold of the compression function over the padded message.
\<close>

theorem sha256_incremental:
  assumes "length (concat ps) < 2 ^ 64 - 1"
  shows "\<exists>ctx. sha256_updates sha256_init ps = Some ctx \<and> snd (sha256_done ctx) = sha256_ref (concat ps)"
  using sha256_updates_rep [OF sha256_rep_init, of ps] assms
  by (auto simp: sha256_init_def sha256_done_rep)

theorem sha256_incremental_witness:
  "\<exists>ctx. sha256_updates sha256_init [[97], [], [98, 99]] = Some ctx \<and>
    snd (sha256_done ctx) = sha256_ref [97, 98, 99]"
  using sha256_incremental [of "[[97], [], [98, 99]]"] by simp

end
