(* ===== verification/PullPush.thy ===== *)
theory PullPush
  imports Sha256
begin

text \<open>
  \<^verbatim>\<open>bitcoin/varint.c\<close> and \<^verbatim>\<open>bitcoin/pullpush.c\<close>: variable-length integers, and the calls that
  write to a sink and read from a cursor.

  The C code writes through a callback \<^verbatim>\<open>push(data, len, pushp)\<close>: here a function
  \<open>push :: bytes \<Rightarrow> 's \<Rightarrow> 's\<close> on the state behind \<^verbatim>\<open>pushp\<close>. The locale \<open>push_sink\<close> is what every
  callback promises: the state after a push stands for the bytes so far followed by the new
  ones. The three callbacks of the code (a growing array, a byte count, a SHA-256 context)
  are interpretations.

  A cursor \<^verbatim>\<open>(const u8 *cursor, size_t max)\<close> is the list of the remaining bytes, \<open>None\<close>
  once a read has failed (the code sets the pointer to NULL and \<^verbatim>\<open>max\<close> to 0). Reading
  operations return \<open>None\<close> where \<^verbatim>\<open>assert(p)\<close> fails.
\<close>

section \<open>Variable-length integers\<close>

definition varint_put :: "u64 \<Rightarrow> bytes" where
  "varint_put v =
     (if v < 0xfd then [ucast v]
      else if v \<le> 0xffff then [0xfd, ucast v, ucast (drop_bit 8 v)]
      else if v \<le> 0xffffffff then
        [0xfe, ucast v, ucast (drop_bit 8 v), ucast (drop_bit 16 v), ucast (drop_bit 24 v)]
      else
        [0xff, ucast v, ucast (drop_bit 8 v), ucast (drop_bit 16 v), ucast (drop_bit 24 v),
         ucast (drop_bit 32 v), ucast (drop_bit 40 v), ucast (drop_bit 48 v), ucast (drop_bit 56 v)])"

text \<open>The bytes used and the value; \<open>None\<close> is the return value 0.\<close>

definition varint_get :: "bytes \<Rightarrow> (nat \<times> u64) option" where
  "varint_get p =
     (if length p < 1 then None
      else if p ! 0 = 0xfd then
        if length p < 3 then None
        else Some (3, push_bit 8 (ucast (p ! 2)) + ucast (p ! 1))
      else if p ! 0 = 0xfe then
        if length p < 5 then None
        else Some (5, push_bit 24 (ucast (p ! 4)) + push_bit 16 (ucast (p ! 3)) +
                      push_bit 8 (ucast (p ! 2)) + ucast (p ! 1))
      else if p ! 0 = 0xff then
        if length p < 9 then None
        else Some (9, push_bit 56 (ucast (p ! 8)) + push_bit 48 (ucast (p ! 7)) +
                      push_bit 40 (ucast (p ! 6)) + push_bit 32 (ucast (p ! 5)) +
                      push_bit 24 (ucast (p ! 4)) + push_bit 16 (ucast (p ! 3)) +
                      push_bit 8 (ucast (p ! 2)) + ucast (p ! 1))
      else Some (1, ucast (p ! 0)))"

section \<open>Writing\<close>

definition push_varint :: "(bytes \<Rightarrow> 's \<Rightarrow> 's) \<Rightarrow> u64 \<Rightarrow> 's \<Rightarrow> 's" where
  "push_varint push v s = push (varint_put v) s"

definition push_le32 :: "(bytes \<Rightarrow> 's \<Rightarrow> 's) \<Rightarrow> u32 \<Rightarrow> 's \<Rightarrow> 's" where
  "push_le32 push v s = push (cpu_to_le32 v) s"

definition push_le64 :: "(bytes \<Rightarrow> 's \<Rightarrow> 's) \<Rightarrow> u64 \<Rightarrow> 's \<Rightarrow> 's" where
  "push_le64 push v s = push (cpu_to_le64 v) s"

definition push_varint_blob :: "(bytes \<Rightarrow> 's \<Rightarrow> 's) \<Rightarrow> bytes \<Rightarrow> 's \<Rightarrow> 's" where
  "push_varint_blob push blob s = push blob (push_varint push (of_nat (length blob)) s)"

text \<open>\<^verbatim>\<open>push\<close>, and the same code as \<^verbatim>\<open>push_linearize\<close> of \<^verbatim>\<open>bitcoin/tx.c\<close>: append to an array.\<close>

definition push_array :: "bytes \<Rightarrow> bytes \<Rightarrow> bytes" where
  "push_array data arr = arr @ data"

section \<open>Reading\<close>

type_synonym cursor = "bytes option"

definition cursor_bytes :: "cursor \<Rightarrow> bytes" where
  "cursor_bytes c = (case c of None \<Rightarrow> [] | Some p \<Rightarrow> p)"

text \<open>\<^verbatim>\<open>max\<close> of a cursor.\<close>

definition cursor_max :: "cursor \<Rightarrow> nat" where
  "cursor_max c = length (cursor_bytes c)"

text \<open>
  The result holds the bytes read, \<open>None\<close> for the return value NULL, and the new cursor.
  A read of no bytes from a failed cursor passes the length test and fails the assertion.
\<close>

definition pull :: "cursor \<Rightarrow> nat \<Rightarrow> (bytes option \<times> cursor) option" where
  "pull c n =
     (if cursor_max c < n then Some (None, None)
      else case c of None \<Rightarrow> None | Some p \<Rightarrow> Some (Some (take n p), Some (drop n p)))"

text \<open>What the \<^verbatim>\<open>copy\<close> argument holds afterwards: zeros after a failed read.\<close>

definition copied :: "nat \<Rightarrow> bytes option \<Rightarrow> bytes" where
  "copied n r = (case r of None \<Rightarrow> replicate n 0 | Some b \<Rightarrow> b)"

definition pull_varint :: "cursor \<Rightarrow> (u64 \<times> cursor) option" where
  "pull_varint c =
     (case varint_get (cursor_bytes c) of
        None \<Rightarrow> Some (0, None)
      | Some (len, ret) \<Rightarrow> do { (_, c) \<leftarrow> pull c len; Some (ret, c) })"

definition pull_le32 :: "cursor \<Rightarrow> (u32 \<times> cursor) option" where
  "pull_le32 c =
     do { (r, c) \<leftarrow> pull c 4; Some (case r of None \<Rightarrow> 0 | Some b \<Rightarrow> le32_to_cpu b, c) }"

definition pull_le64 :: "cursor \<Rightarrow> (u64 \<times> cursor) option" where
  "pull_le64 c =
     do { (r, c) \<leftarrow> pull c 8; Some (case r of None \<Rightarrow> 0 | Some b \<Rightarrow> le64_to_cpu b, c) }"

section \<open>Round trips\<close>

lemma unat_of_nat_u64: "n < 2 ^ 64 \<Longrightarrow> unat (of_nat n :: u64) = n"
  by (simp add: unat_of_nat)

lemma le_val_Cons_plus:
  "(le_val (b # bs) :: u64) = ucast b + push_bit 8 (le_val bs)"
proof -
  have "(ucast b :: u64) AND push_bit 8 (le_val bs) = 0"
    by (rule bit_word_eqI) (auto simp: bit_and_iff bit_push_bit_iff bit_ucast_iff dest: bit_imp_le_length)
  then show ?thesis by (simp add: disjunctive_add_eq_or)
qed

lemma push_bit_add_word: "push_bit n (a + b) = push_bit n a + (push_bit n b :: 'a::len word)"
  by (simp add: push_bit_eq_mult distrib_right)

lemma varint_get_le_val:
  "varint_get (0xfd # b1 # b2 # r) = Some (3, le_val [b1, b2])"
  "varint_get (0xfe # b1 # b2 # b3 # b4 # r) = Some (5, le_val [b1, b2, b3, b4])"
  "varint_get (0xff # b1 # b2 # b3 # b4 # b5 # b6 # b7 # b8 # r) =
     Some (9, le_val [b1, b2, b3, b4, b5, b6, b7, b8])"
  unfolding le_val_Cons_plus varint_get_def
  by (simp_all add: push_bit_add_word push_bit_push_bit algebra_simps)

lemma varint_put_le_bytes:
  "varint_put v = (if v < 0xfd then [ucast v] else if v \<le> 0xffff then 0xfd # le_bytes 2 v
     else if v \<le> 0xffffffff then 0xfe # le_bytes 4 v else 0xff # le_bytes 8 v)"
  by (simp add: varint_put_def numeral_eq_Suc drop_bit_drop_bit)

lemma length_varint_put:
  "length (varint_put v) =
     (if v < 0xfd then 1 else if v \<le> 0xffff then 3 else if v \<le> 0xffffffff then 5 else 9)"
  by (simp add: varint_put_def)

lemma length_varint_put_pos [simp]: "0 < length (varint_put v)" "length (varint_put v) \<le> 9"
  by (simp_all add: length_varint_put)

lemma take_bit_self_bounds:
  "v \<le> 0xffff \<Longrightarrow> take_bit 16 v = (v :: u64)" "v \<le> 0xffffffff \<Longrightarrow> take_bit 32 v = (v :: u64)"
  by (simp_all add: word_unat_eq_iff unsigned_take_bit_eq word_le_nat_alt take_bit_nat_eq_self)

lemma varint_get_put [simp]: "varint_get (varint_put v @ r) = Some (length (varint_put v), v)"
proof -
  consider "v < 0xfd" | "\<not> v < 0xfd" "v \<le> 0xffff" | "\<not> v < 0xfd" "\<not> v \<le> 0xffff" "v \<le> 0xffffffff"
    | "\<not> v < 0xfd" "\<not> v \<le> 0xffff" "\<not> v \<le> 0xffffffff" by blast
  then show ?thesis
  proof cases
    case 1
    then have u: "unat v < 253" by (simp add: word_less_nat_alt)
    then have "unat (ucast v :: u8) = unat v" by (simp add: unsigned_ucast_eq unsigned_take_bit_eq take_bit_nat_eq_self)
    then have "ucast v \<noteq> (0xfd :: u8)" "ucast v \<noteq> (0xfe :: u8)" "ucast v \<noteq> (0xff :: u8)"
      "(ucast (ucast v :: u8) :: u64) = v" using u
      by (auto simp: word_unat_eq_iff unsigned_ucast_eq unsigned_take_bit_eq take_bit_nat_eq_self)
    with 1 show ?thesis by (simp add: varint_get_def varint_put_def)
  next
    case 2
    then have "take_bit 16 v = v" using take_bit_self_bounds by simp
    then have "le_val (le_bytes 2 v) = v" by (simp add: le_val_le_bytes)
    with 2 show ?thesis by (simp add: varint_put_le_bytes varint_get_le_val numeral_eq_Suc del: le_val.simps)
  next
    case 3
    then have "take_bit 32 v = v" using take_bit_self_bounds by simp
    then have "le_val (le_bytes 4 v) = v" by (simp add: le_val_le_bytes)
    with 3 show ?thesis by (simp add: varint_put_le_bytes varint_get_le_val numeral_eq_Suc del: le_val.simps)
  next
    case 4
    have "le_val (le_bytes 8 v) = v" by (simp add: le_val_le_bytes)
    with 4 show ?thesis by (simp add: varint_put_le_bytes varint_get_le_val numeral_eq_Suc del: le_val.simps)
  qed
qed

lemma pull_app [simp]: "length d = n \<Longrightarrow> pull (Some (d @ r)) n = Some (Some d, Some r)"
  by (simp add: pull_def cursor_max_def cursor_bytes_def)

lemma pull_0 [simp]: "pull (Some p) 0 = Some (Some [], Some p)"
  by (simp add: pull_def cursor_max_def)

lemma pull_varint_app [simp]: "pull_varint (Some (varint_put v @ r)) = Some (v, Some r)"
  by (simp add: pull_varint_def cursor_bytes_def)

lemma pull_le32_app [simp]: "pull_le32 (Some (cpu_to_le32 v @ r)) = Some (v, Some r)"
  by (simp add: pull_le32_def)

lemma pull_le64_app [simp]: "pull_le64 (Some (cpu_to_le64 v @ r)) = Some (v, Some r)"
  by (simp add: pull_le64_def)

text \<open>Once a cursor has failed, every read of at least one byte keeps it failed.\<close>

lemma pull_None: "0 < n \<Longrightarrow> pull None n = Some (None, None)"
  by (simp add: pull_def cursor_max_def cursor_bytes_def)

lemma pull_None_0: "pull None 0 = None"
  by (simp add: pull_def cursor_max_def cursor_bytes_def)

section \<open>The interface of a sink\<close>

text \<open>The bytes a length-prefixed blob is written as.\<close>

definition varint_blob :: "bytes \<Rightarrow> bytes" where
  "varint_blob blob = varint_put (of_nat (length blob)) @ blob"

lemma length_varint_blob: "length (varint_blob b) \<le> length b + 9" "length b \<le> length (varint_blob b)"
  by (simp_all add: varint_blob_def)

lemma length_varint_blob_pos: "1 \<le> length (varint_blob b)"
  using length_varint_put [of "of_nat (length b)"] by (simp add: varint_blob_def split: if_splits)

text \<open>\<open>rep s m\<close>: the sink state \<open>s\<close> stands for the bytes \<open>m\<close> pushed so far.\<close>

locale push_sink =
  fixes push :: "bytes \<Rightarrow> 's \<Rightarrow> 's" and rep :: "'s \<Rightarrow> bytes \<Rightarrow> bool"
  assumes rep_push: "rep s m \<Longrightarrow> rep (push d s) (m @ d)"
begin

lemma rep_varint: "rep s m \<Longrightarrow> rep (push_varint push v s) (m @ varint_put v)"
  by (simp add: push_varint_def rep_push)

lemma rep_le32: "rep s m \<Longrightarrow> rep (push_le32 push v s) (m @ cpu_to_le32 v)"
  by (simp add: push_le32_def rep_push)

lemma rep_le64: "rep s m \<Longrightarrow> rep (push_le64 push w s) (m @ cpu_to_le64 w)"
  by (simp add: push_le64_def rep_push)

lemma rep_varint_blob: "rep s m \<Longrightarrow> rep (push_varint_blob push b s) (m @ varint_blob b)"
  using rep_push [OF rep_varint, of s m b] by (simp add: push_varint_blob_def varint_blob_def)

lemma rep_fold:
  assumes "\<And>x s m. rep s m \<Longrightarrow> rep (f x s) (m @ g x)"
  shows "rep s m \<Longrightarrow> rep (fold f xs s) (m @ concat (map g xs))"
proof (induction xs arbitrary: s m)
  case Nil
  then show ?case by simp
next
  case (Cons x xs)
  from Cons.IH [OF assms [OF Cons.prems, of x]] show ?case by simp
qed

lemmas rep_pushes = rep_push rep_varint rep_le32 rep_le64 rep_varint_blob

end

interpretation array_sink: push_sink push_array "(=)"
  by unfold_locales (simp add: push_array_def)

end
