(* ===== verification/Ripemd160.thy ===== *)
theory Ripemd160
  imports BlockHash
begin

text \<open>
  \<^verbatim>\<open>ccan/crypto/ripemd160/ripemd160.c\<close>: the two lines of five rounds, the buffered context
  (shared with \<^verbatim>\<open>sha256\<close> through \<open>block_add\<close>) and the one-shot hash, with the proof that the
  buffered code computes the hash of the padded message.
\<close>

section \<open>The compression function\<close>

definition f1 :: "u32 \<Rightarrow> u32 \<Rightarrow> u32 \<Rightarrow> u32" where "f1 x y z = x XOR y XOR z"
definition f2 :: "u32 \<Rightarrow> u32 \<Rightarrow> u32 \<Rightarrow> u32" where "f2 x y z = (x AND y) OR (NOT x AND z)"
definition f3 :: "u32 \<Rightarrow> u32 \<Rightarrow> u32 \<Rightarrow> u32" where "f3 x y z = (x OR NOT y) XOR z"
definition f4 :: "u32 \<Rightarrow> u32 \<Rightarrow> u32 \<Rightarrow> u32" where "f4 x y z = (x AND z) OR (y AND NOT z)"
definition f5 :: "u32 \<Rightarrow> u32 \<Rightarrow> u32 \<Rightarrow> u32" where "f5 x y z = x XOR (y OR NOT z)"

definition rol :: "u32 \<Rightarrow> nat \<Rightarrow> u32" where
  "rol x i = push_bit i x OR drop_bit (32 - i) x"

text \<open>One round: the new values of \<open>a\<close> and \<open>c\<close>, the two arguments passed by address.\<close>

definition rRound :: "u32 \<Rightarrow> u32 \<Rightarrow> u32 \<Rightarrow> u32 \<Rightarrow> u32 \<Rightarrow> u32 \<Rightarrow> nat \<Rightarrow> u32 \<times> u32" where
  "rRound a c e f x k r = (rol (a + f + x + k) r + e, rol c 10)"

definition R11 :: "u32 \<Rightarrow> u32 \<Rightarrow> u32 \<Rightarrow> u32 \<Rightarrow> u32 \<Rightarrow> u32 \<Rightarrow> nat \<Rightarrow> u32 \<times> u32" where
  "R11 a b c d e x r = rRound a c e (f1 b c d) x 0 r"

definition R21 :: "u32 \<Rightarrow> u32 \<Rightarrow> u32 \<Rightarrow> u32 \<Rightarrow> u32 \<Rightarrow> u32 \<Rightarrow> nat \<Rightarrow> u32 \<times> u32" where
  "R21 a b c d e x r = rRound a c e (f2 b c d) x 0x5A827999 r"

definition R31 :: "u32 \<Rightarrow> u32 \<Rightarrow> u32 \<Rightarrow> u32 \<Rightarrow> u32 \<Rightarrow> u32 \<Rightarrow> nat \<Rightarrow> u32 \<times> u32" where
  "R31 a b c d e x r = rRound a c e (f3 b c d) x 0x6ED9EBA1 r"

definition R41 :: "u32 \<Rightarrow> u32 \<Rightarrow> u32 \<Rightarrow> u32 \<Rightarrow> u32 \<Rightarrow> u32 \<Rightarrow> nat \<Rightarrow> u32 \<times> u32" where
  "R41 a b c d e x r = rRound a c e (f4 b c d) x 0x8F1BBCDC r"

definition R51 :: "u32 \<Rightarrow> u32 \<Rightarrow> u32 \<Rightarrow> u32 \<Rightarrow> u32 \<Rightarrow> u32 \<Rightarrow> nat \<Rightarrow> u32 \<times> u32" where
  "R51 a b c d e x r = rRound a c e (f5 b c d) x 0xA953FD4E r"

definition R12 :: "u32 \<Rightarrow> u32 \<Rightarrow> u32 \<Rightarrow> u32 \<Rightarrow> u32 \<Rightarrow> u32 \<Rightarrow> nat \<Rightarrow> u32 \<times> u32" where
  "R12 a b c d e x r = rRound a c e (f5 b c d) x 0x50A28BE6 r"

definition R22 :: "u32 \<Rightarrow> u32 \<Rightarrow> u32 \<Rightarrow> u32 \<Rightarrow> u32 \<Rightarrow> u32 \<Rightarrow> nat \<Rightarrow> u32 \<times> u32" where
  "R22 a b c d e x r = rRound a c e (f4 b c d) x 0x5C4DD124 r"

definition R32 :: "u32 \<Rightarrow> u32 \<Rightarrow> u32 \<Rightarrow> u32 \<Rightarrow> u32 \<Rightarrow> u32 \<Rightarrow> nat \<Rightarrow> u32 \<times> u32" where
  "R32 a b c d e x r = rRound a c e (f3 b c d) x 0x6D703EF3 r"

definition R42 :: "u32 \<Rightarrow> u32 \<Rightarrow> u32 \<Rightarrow> u32 \<Rightarrow> u32 \<Rightarrow> u32 \<Rightarrow> nat \<Rightarrow> u32 \<times> u32" where
  "R42 a b c d e x r = rRound a c e (f2 b c d) x 0x7A6D76E9 r"

definition R52 :: "u32 \<Rightarrow> u32 \<Rightarrow> u32 \<Rightarrow> u32 \<Rightarrow> u32 \<Rightarrow> u32 \<Rightarrow> nat \<Rightarrow> u32 \<times> u32" where
  "R52 a b c d e x r = rRound a c e (f1 b c d) x 0 r"

text \<open>\<open>rchunk32 chunk i\<close> is \<^verbatim>\<open>le32_to_cpu(chunk[i])\<close> of a 64-byte block.\<close>

definition rchunk32 :: "bytes \<Rightarrow> nat \<Rightarrow> u32" where
  "rchunk32 chunk i = le32_to_cpu (take 4 (drop (4 * i) chunk))"

type_synonym ripemd160_vars = "(u32 \<times> u32 \<times> u32 \<times> u32 \<times> u32) \<times> (u32 \<times> u32 \<times> u32 \<times> u32 \<times> u32)"

definition rTransform_rounds :: "u32 \<times> u32 \<times> u32 \<times> u32 \<times> u32 \<Rightarrow> bytes \<Rightarrow> ripemd160_vars" where
  "rTransform_rounds s chunk =
     (let (a1, b1, c1, d1, e1) = s;
          (a2, b2, c2, d2, e2) = (a1, b1, c1, d1, e1);
          w0 = rchunk32 chunk 0;
          w1 = rchunk32 chunk 1;
          w2 = rchunk32 chunk 2;
          w3 = rchunk32 chunk 3;
          w4 = rchunk32 chunk 4;
          w5 = rchunk32 chunk 5;
          w6 = rchunk32 chunk 6;
          w7 = rchunk32 chunk 7;
          w8 = rchunk32 chunk 8;
          w9 = rchunk32 chunk 9;
          w10 = rchunk32 chunk 10;
          w11 = rchunk32 chunk 11;
          w12 = rchunk32 chunk 12;
          w13 = rchunk32 chunk 13;
          w14 = rchunk32 chunk 14;
          w15 = rchunk32 chunk 15;
        (a1, c1) = R11 a1 b1 c1 d1 e1 w0 11;
        (a2, c2) = R12 a2 b2 c2 d2 e2 w5 8;
        (e1, b1) = R11 e1 a1 b1 c1 d1 w1 14;
        (e2, b2) = R12 e2 a2 b2 c2 d2 w14 9;
        (d1, a1) = R11 d1 e1 a1 b1 c1 w2 15;
        (d2, a2) = R12 d2 e2 a2 b2 c2 w7 9;
        (c1, e1) = R11 c1 d1 e1 a1 b1 w3 12;
        (c2, e2) = R12 c2 d2 e2 a2 b2 w0 11;
        (b1, d1) = R11 b1 c1 d1 e1 a1 w4 5;
        (b2, d2) = R12 b2 c2 d2 e2 a2 w9 13;
        (a1, c1) = R11 a1 b1 c1 d1 e1 w5 8;
        (a2, c2) = R12 a2 b2 c2 d2 e2 w2 15;
        (e1, b1) = R11 e1 a1 b1 c1 d1 w6 7;
        (e2, b2) = R12 e2 a2 b2 c2 d2 w11 15;
        (d1, a1) = R11 d1 e1 a1 b1 c1 w7 9;
        (d2, a2) = R12 d2 e2 a2 b2 c2 w4 5;
        (c1, e1) = R11 c1 d1 e1 a1 b1 w8 11;
        (c2, e2) = R12 c2 d2 e2 a2 b2 w13 7;
        (b1, d1) = R11 b1 c1 d1 e1 a1 w9 13;
        (b2, d2) = R12 b2 c2 d2 e2 a2 w6 7;
        (a1, c1) = R11 a1 b1 c1 d1 e1 w10 14;
        (a2, c2) = R12 a2 b2 c2 d2 e2 w15 8;
        (e1, b1) = R11 e1 a1 b1 c1 d1 w11 15;
        (e2, b2) = R12 e2 a2 b2 c2 d2 w8 11;
        (d1, a1) = R11 d1 e1 a1 b1 c1 w12 6;
        (d2, a2) = R12 d2 e2 a2 b2 c2 w1 14;
        (c1, e1) = R11 c1 d1 e1 a1 b1 w13 7;
        (c2, e2) = R12 c2 d2 e2 a2 b2 w10 14;
        (b1, d1) = R11 b1 c1 d1 e1 a1 w14 9;
        (b2, d2) = R12 b2 c2 d2 e2 a2 w3 12;
        (a1, c1) = R11 a1 b1 c1 d1 e1 w15 8;
        (a2, c2) = R12 a2 b2 c2 d2 e2 w12 6;
        (e1, b1) = R21 e1 a1 b1 c1 d1 w7 7;
        (e2, b2) = R22 e2 a2 b2 c2 d2 w6 9;
        (d1, a1) = R21 d1 e1 a1 b1 c1 w4 6;
        (d2, a2) = R22 d2 e2 a2 b2 c2 w11 13;
        (c1, e1) = R21 c1 d1 e1 a1 b1 w13 8;
        (c2, e2) = R22 c2 d2 e2 a2 b2 w3 15;
        (b1, d1) = R21 b1 c1 d1 e1 a1 w1 13;
        (b2, d2) = R22 b2 c2 d2 e2 a2 w7 7;
        (a1, c1) = R21 a1 b1 c1 d1 e1 w10 11;
        (a2, c2) = R22 a2 b2 c2 d2 e2 w0 12;
        (e1, b1) = R21 e1 a1 b1 c1 d1 w6 9;
        (e2, b2) = R22 e2 a2 b2 c2 d2 w13 8;
        (d1, a1) = R21 d1 e1 a1 b1 c1 w15 7;
        (d2, a2) = R22 d2 e2 a2 b2 c2 w5 9;
        (c1, e1) = R21 c1 d1 e1 a1 b1 w3 15;
        (c2, e2) = R22 c2 d2 e2 a2 b2 w10 11;
        (b1, d1) = R21 b1 c1 d1 e1 a1 w12 7;
        (b2, d2) = R22 b2 c2 d2 e2 a2 w14 7;
        (a1, c1) = R21 a1 b1 c1 d1 e1 w0 12;
        (a2, c2) = R22 a2 b2 c2 d2 e2 w15 7;
        (e1, b1) = R21 e1 a1 b1 c1 d1 w9 15;
        (e2, b2) = R22 e2 a2 b2 c2 d2 w8 12;
        (d1, a1) = R21 d1 e1 a1 b1 c1 w5 9;
        (d2, a2) = R22 d2 e2 a2 b2 c2 w12 7;
        (c1, e1) = R21 c1 d1 e1 a1 b1 w2 11;
        (c2, e2) = R22 c2 d2 e2 a2 b2 w4 6;
        (b1, d1) = R21 b1 c1 d1 e1 a1 w14 7;
        (b2, d2) = R22 b2 c2 d2 e2 a2 w9 15;
        (a1, c1) = R21 a1 b1 c1 d1 e1 w11 13;
        (a2, c2) = R22 a2 b2 c2 d2 e2 w1 13;
        (e1, b1) = R21 e1 a1 b1 c1 d1 w8 12;
        (e2, b2) = R22 e2 a2 b2 c2 d2 w2 11;
        (d1, a1) = R31 d1 e1 a1 b1 c1 w3 11;
        (d2, a2) = R32 d2 e2 a2 b2 c2 w15 9;
        (c1, e1) = R31 c1 d1 e1 a1 b1 w10 13;
        (c2, e2) = R32 c2 d2 e2 a2 b2 w5 7;
        (b1, d1) = R31 b1 c1 d1 e1 a1 w14 6;
        (b2, d2) = R32 b2 c2 d2 e2 a2 w1 15;
        (a1, c1) = R31 a1 b1 c1 d1 e1 w4 7;
        (a2, c2) = R32 a2 b2 c2 d2 e2 w3 11;
        (e1, b1) = R31 e1 a1 b1 c1 d1 w9 14;
        (e2, b2) = R32 e2 a2 b2 c2 d2 w7 8;
        (d1, a1) = R31 d1 e1 a1 b1 c1 w15 9;
        (d2, a2) = R32 d2 e2 a2 b2 c2 w14 6;
        (c1, e1) = R31 c1 d1 e1 a1 b1 w8 13;
        (c2, e2) = R32 c2 d2 e2 a2 b2 w6 6;
        (b1, d1) = R31 b1 c1 d1 e1 a1 w1 15;
        (b2, d2) = R32 b2 c2 d2 e2 a2 w9 14;
        (a1, c1) = R31 a1 b1 c1 d1 e1 w2 14;
        (a2, c2) = R32 a2 b2 c2 d2 e2 w11 12;
        (e1, b1) = R31 e1 a1 b1 c1 d1 w7 8;
        (e2, b2) = R32 e2 a2 b2 c2 d2 w8 13;
        (d1, a1) = R31 d1 e1 a1 b1 c1 w0 13;
        (d2, a2) = R32 d2 e2 a2 b2 c2 w12 5;
        (c1, e1) = R31 c1 d1 e1 a1 b1 w6 6;
        (c2, e2) = R32 c2 d2 e2 a2 b2 w2 14;
        (b1, d1) = R31 b1 c1 d1 e1 a1 w13 5;
        (b2, d2) = R32 b2 c2 d2 e2 a2 w10 13;
        (a1, c1) = R31 a1 b1 c1 d1 e1 w11 12;
        (a2, c2) = R32 a2 b2 c2 d2 e2 w0 13;
        (e1, b1) = R31 e1 a1 b1 c1 d1 w5 7;
        (e2, b2) = R32 e2 a2 b2 c2 d2 w4 7;
        (d1, a1) = R31 d1 e1 a1 b1 c1 w12 5;
        (d2, a2) = R32 d2 e2 a2 b2 c2 w13 5;
        (c1, e1) = R41 c1 d1 e1 a1 b1 w1 11;
        (c2, e2) = R42 c2 d2 e2 a2 b2 w8 15;
        (b1, d1) = R41 b1 c1 d1 e1 a1 w9 12;
        (b2, d2) = R42 b2 c2 d2 e2 a2 w6 5;
        (a1, c1) = R41 a1 b1 c1 d1 e1 w11 14;
        (a2, c2) = R42 a2 b2 c2 d2 e2 w4 8;
        (e1, b1) = R41 e1 a1 b1 c1 d1 w10 15;
        (e2, b2) = R42 e2 a2 b2 c2 d2 w1 11;
        (d1, a1) = R41 d1 e1 a1 b1 c1 w0 14;
        (d2, a2) = R42 d2 e2 a2 b2 c2 w3 14;
        (c1, e1) = R41 c1 d1 e1 a1 b1 w8 15;
        (c2, e2) = R42 c2 d2 e2 a2 b2 w11 14;
        (b1, d1) = R41 b1 c1 d1 e1 a1 w12 9;
        (b2, d2) = R42 b2 c2 d2 e2 a2 w15 6;
        (a1, c1) = R41 a1 b1 c1 d1 e1 w4 8;
        (a2, c2) = R42 a2 b2 c2 d2 e2 w0 14;
        (e1, b1) = R41 e1 a1 b1 c1 d1 w13 9;
        (e2, b2) = R42 e2 a2 b2 c2 d2 w5 6;
        (d1, a1) = R41 d1 e1 a1 b1 c1 w3 14;
        (d2, a2) = R42 d2 e2 a2 b2 c2 w12 9;
        (c1, e1) = R41 c1 d1 e1 a1 b1 w7 5;
        (c2, e2) = R42 c2 d2 e2 a2 b2 w2 12;
        (b1, d1) = R41 b1 c1 d1 e1 a1 w15 6;
        (b2, d2) = R42 b2 c2 d2 e2 a2 w13 9;
        (a1, c1) = R41 a1 b1 c1 d1 e1 w14 8;
        (a2, c2) = R42 a2 b2 c2 d2 e2 w9 12;
        (e1, b1) = R41 e1 a1 b1 c1 d1 w5 6;
        (e2, b2) = R42 e2 a2 b2 c2 d2 w7 5;
        (d1, a1) = R41 d1 e1 a1 b1 c1 w6 5;
        (d2, a2) = R42 d2 e2 a2 b2 c2 w10 15;
        (c1, e1) = R41 c1 d1 e1 a1 b1 w2 12;
        (c2, e2) = R42 c2 d2 e2 a2 b2 w14 8;
        (b1, d1) = R51 b1 c1 d1 e1 a1 w4 9;
        (b2, d2) = R52 b2 c2 d2 e2 a2 w12 8;
        (a1, c1) = R51 a1 b1 c1 d1 e1 w0 15;
        (a2, c2) = R52 a2 b2 c2 d2 e2 w15 5;
        (e1, b1) = R51 e1 a1 b1 c1 d1 w5 5;
        (e2, b2) = R52 e2 a2 b2 c2 d2 w10 12;
        (d1, a1) = R51 d1 e1 a1 b1 c1 w9 11;
        (d2, a2) = R52 d2 e2 a2 b2 c2 w4 9;
        (c1, e1) = R51 c1 d1 e1 a1 b1 w7 6;
        (c2, e2) = R52 c2 d2 e2 a2 b2 w1 12;
        (b1, d1) = R51 b1 c1 d1 e1 a1 w12 8;
        (b2, d2) = R52 b2 c2 d2 e2 a2 w5 5;
        (a1, c1) = R51 a1 b1 c1 d1 e1 w2 13;
        (a2, c2) = R52 a2 b2 c2 d2 e2 w8 14;
        (e1, b1) = R51 e1 a1 b1 c1 d1 w10 12;
        (e2, b2) = R52 e2 a2 b2 c2 d2 w7 6;
        (d1, a1) = R51 d1 e1 a1 b1 c1 w14 5;
        (d2, a2) = R52 d2 e2 a2 b2 c2 w6 8;
        (c1, e1) = R51 c1 d1 e1 a1 b1 w1 12;
        (c2, e2) = R52 c2 d2 e2 a2 b2 w2 13;
        (b1, d1) = R51 b1 c1 d1 e1 a1 w3 13;
        (b2, d2) = R52 b2 c2 d2 e2 a2 w13 6;
        (a1, c1) = R51 a1 b1 c1 d1 e1 w8 14;
        (a2, c2) = R52 a2 b2 c2 d2 e2 w14 5;
        (e1, b1) = R51 e1 a1 b1 c1 d1 w11 11;
        (e2, b2) = R52 e2 a2 b2 c2 d2 w0 15;
        (d1, a1) = R51 d1 e1 a1 b1 c1 w6 8;
        (d2, a2) = R52 d2 e2 a2 b2 c2 w3 13;
        (c1, e1) = R51 c1 d1 e1 a1 b1 w15 5;
        (c2, e2) = R52 c2 d2 e2 a2 b2 w9 11;
        (b1, d1) = R51 b1 c1 d1 e1 a1 w13 6;
        (b2, d2) = R52 b2 c2 d2 e2 a2 w11 11
      in ((a1, b1, c1, d1, e1), (a2, b2, c2, d2, e2)))"

definition ripemd160_Transform :: "u32 list \<Rightarrow> bytes \<Rightarrow> u32 list" where
  "ripemd160_Transform s chunk =
     (let ((a1, b1, c1, d1, e1), (a2, b2, c2, d2, e2)) =
        rTransform_rounds (s ! 0, s ! 1, s ! 2, s ! 3, s ! 4) chunk;
        t = s ! 0
      in [s ! 1 + c1 + d2, s ! 2 + d1 + e2, s ! 3 + e1 + a2, s ! 4 + a1 + b2, t + b1 + c2])"

lemma length_ripemd160_Transform [simp]: "length (ripemd160_Transform s chunk) = 5"
  by (simp add: ripemd160_Transform_def split: prod.split)

section \<open>The hash\<close>

definition RIPEMD160_INIT :: hash_ctx where
  "RIPEMD160_INIT = \<lparr>hc_s = [0x67452301, 0xEFCDAB89, 0x98BADCFE, 0x10325476, 0xC3D2E1F0],
    hc_buf = replicate 64 0, hc_bytes = 0\<rparr>"

definition ripemd160_add :: "hash_ctx \<Rightarrow> bytes \<Rightarrow> hash_ctx" where
  "ripemd160_add = block_add ripemd160_Transform"

definition ripemd160_init :: hash_ctx where
  "ripemd160_init = RIPEMD160_INIT"

definition ripemd160_update :: "hash_ctx \<Rightarrow> bytes \<Rightarrow> hash_ctx option" where
  "ripemd160_update ctx p = (if check_ctx ctx then Some (ripemd160_add ctx p) else None)"

definition ripemd160_done :: "hash_ctx \<Rightarrow> hash_ctx \<times> bytes" where
  "ripemd160_done ctx =
     (let sizedesc = cpu_to_le64 (push_bit 3 (hc_bytes ctx));
          pad = 0x80 # replicate 63 0;
          ctx = ripemd160_add ctx (take (1 + ((119 - (unat (hc_bytes ctx) mod 64)) mod 64)) pad);
          ctx = ripemd160_add ctx sizedesc
      in (invalidate_ctx ctx, concat (map cpu_to_le32 (hc_s ctx))))"

definition ripemd160 :: "bytes \<Rightarrow> bytes" where
  "ripemd160 p = (case ripemd160_update ripemd160_init p of
       None \<Rightarrow> []
     | Some ctx \<Rightarrow> snd (ripemd160_done ctx))"

section \<open>Reference definition\<close>

definition ripemd160_padding :: "bytes \<Rightarrow> bytes" where
  "ripemd160_padding m = [0x80] @ replicate ((119 - length m mod 64) mod 64) 0
     @ cpu_to_le64 (of_nat (8 * length m))"

definition ripemd160_ref :: "bytes \<Rightarrow> bytes" where
  "ripemd160_ref m = concat (map cpu_to_le32
     (block_fold ripemd160_Transform (hc_s RIPEMD160_INIT) (m @ ripemd160_padding m)))"

interpretation rip: compression ripemd160_Transform "hc_s RIPEMD160_INIT" 5
  by unfold_locales (simp_all add: RIPEMD160_INIT_def)

abbreviation ripemd160_rep :: "hash_ctx \<Rightarrow> bytes \<Rightarrow> bool" where
  "ripemd160_rep \<equiv> block_rep ripemd160_Transform (hc_s RIPEMD160_INIT)"

lemma ripemd160_rep_init: "ripemd160_rep RIPEMD160_INIT []"
  using rip.rep_init by (simp add: RIPEMD160_INIT_def)

lemma ripemd160_add_rep: "ripemd160_rep ctx m \<Longrightarrow> ripemd160_rep (ripemd160_add ctx d) (m @ d)"
  unfolding ripemd160_add_def by (rule rip.block_add_rep)

lemma ripemd160_update_rep:
  "ripemd160_rep ctx m \<Longrightarrow> length m < 2 ^ 64 - 1 \<Longrightarrow>
    \<exists>ctx'. ripemd160_update ctx p = Some ctx' \<and> ripemd160_rep ctx' (m @ p)"
  using rip.check_rep [of ctx m] ripemd160_add_rep by (auto simp: ripemd160_update_def)

lemma ripemd160_done_rep:
  assumes rep: "ripemd160_rep ctx m"
  shows "snd (ripemd160_done ctx) = ripemd160_ref m"
proof -
  let ?n = "1 + ((119 - (length m mod 64)) mod 64)"
  let ?pad = "0x80 # replicate 63 (0 :: u8)"
  let ?sz = "cpu_to_le64 (push_bit 3 (hc_bytes ctx))"
  have n: "take ?n ?pad = [0x80] @ replicate ((119 - length m mod 64) mod 64) 0"
    by (simp add: min_def)
  have "push_bit 3 (hc_bytes ctx) = of_nat (8 * length m)"
    using rep by (simp add: block_rep_def push_bit_eq_mult)
  with n have "ripemd160_padding m = take ?n ?pad @ ?sz" by (simp add: ripemd160_padding_def)
  moreover have "hc_s (ripemd160_add (ripemd160_add ctx (take ?n ?pad)) ?sz)
      = block_fold ripemd160_Transform (hc_s RIPEMD160_INIT) ((m @ take ?n ?pad) @ ?sz)"
    by (rule rip.state_rep, intro ripemd160_add_rep rep)
  moreover note rip.size_rep [OF rep]
  ultimately show ?thesis
    by (simp only: ripemd160_done_def ripemd160_ref_def Let_def snd_conv append.assoc)
qed

lemma ripemd160_eq_ref: "ripemd160 m = ripemd160_ref m"
  using ripemd160_update_rep [OF ripemd160_rep_init, of m]
  by (auto simp: ripemd160_def ripemd160_init_def ripemd160_done_rep)

lemma length_concat_cpu_to_le32: "length (concat (map cpu_to_le32 ws)) = 4 * length ws"
  by (induction ws) auto

lemma length_ripemd160 [simp]: "length (ripemd160 m) = 20"
  by (simp add: ripemd160_eq_ref ripemd160_ref_def length_concat_cpu_to_le32)

end
