(* ===== verification/Keys.thy ===== *)
theory Keys
  imports Sha256 Ripemd160
begin

text \<open>
  \<^verbatim>\<open>bitcoin/pubkey.c\<close>, \<^verbatim>\<open>bitcoin/signature.c\<close>, \<^verbatim>\<open>common/key_derive.c\<close> and \<^verbatim>\<open>common/keyset.c\<close>:
  keys, their DER form and hash, signatures, and the derivation of the keys of one commitment
  transaction.

  The curve arithmetic is libsecp256k1's, which is not part of this repository: the record
  \<open>secp\<close> holds the library calls the code makes, and every definition that makes one takes it
  as its argument \<open>S\<close>. What the library's documentation says of them is stated as named
  predicates (\<open>secp_der33\<close>, \<open>secp_tweak_laws\<close>).
\<close>

section \<open>The curve library\<close>

text \<open>Secrets and tweaks are 32-byte strings; \<open>None\<close> is the library's failure return.\<close>

record ('pk, 'sg) secp =
  ec_pubkey_serialize :: "'pk \<Rightarrow> bytes"
  ec_pubkey_parse :: "bytes \<Rightarrow> 'pk option"
  ec_pubkey_create :: "bytes \<Rightarrow> 'pk option"
  ec_pubkey_tweak_add :: "'pk \<Rightarrow> bytes \<Rightarrow> 'pk option"
  ec_pubkey_tweak_mul :: "'pk \<Rightarrow> bytes \<Rightarrow> 'pk option"
  ec_pubkey_combine :: "'pk \<Rightarrow> 'pk \<Rightarrow> 'pk option"
  ec_privkey_tweak_add :: "bytes \<Rightarrow> bytes \<Rightarrow> bytes option"
  ec_privkey_tweak_mul :: "bytes \<Rightarrow> bytes \<Rightarrow> bytes option"
  ecdsa_signature_serialize_der :: "'sg \<Rightarrow> bytes"
  ecdsa_sign :: "bytes \<Rightarrow> bytes \<Rightarrow> 'sg option"
  ecdsa_verify :: "'sg \<Rightarrow> bytes \<Rightarrow> 'pk \<Rightarrow> bool"

text \<open>The compressed serialization always succeeds and has 33 bytes.\<close>

definition secp_der33 :: "('pk, 'sg) secp \<Rightarrow> bool" where
  "secp_der33 S \<longleftrightarrow> (\<forall>k. length (ec_pubkey_serialize S k) = 33)"

text \<open>Serialization and parsing are inverse.\<close>

definition secp_parse_law :: "('pk, 'sg) secp \<Rightarrow> bool" where
  "secp_parse_law S \<longleftrightarrow> (\<forall>k. ec_pubkey_parse S (ec_pubkey_serialize S k) = Some k)"

text \<open>
  Tweaking a public key is tweaking its secret: \<open>P + t G\<close> and \<open>t P\<close>, and the sum of two points
  is the point of the sum of their secrets.
\<close>

definition secp_tweak_laws :: "('pk, 'sg) secp \<Rightarrow> bool" where
  "secp_tweak_laws S \<longleftrightarrow>
     (\<forall>x P t y. ec_pubkey_create S x = Some P \<and> ec_privkey_tweak_add S x t = Some y \<longrightarrow>
        ec_pubkey_tweak_add S P t = ec_pubkey_create S y) \<and>
     (\<forall>x P t y. ec_pubkey_create S x = Some P \<and> ec_privkey_tweak_mul S x t = Some y \<longrightarrow>
        ec_pubkey_tweak_mul S P t = ec_pubkey_create S y \<and> ec_pubkey_create S y \<noteq> None) \<and>
     (\<forall>x P y Q z. ec_pubkey_create S x = Some P \<and> ec_pubkey_create S y = Some Q \<and>
        ec_privkey_tweak_add S x y = Some z \<longrightarrow> ec_pubkey_combine S P Q = ec_pubkey_create S z)"

lemma secp_tweak_add:
  "secp_tweak_laws S \<Longrightarrow> ec_pubkey_create S x = Some P \<Longrightarrow> ec_privkey_tweak_add S x t = Some y \<Longrightarrow>
    ec_pubkey_tweak_add S P t = ec_pubkey_create S y"
  unfolding secp_tweak_laws_def by blast

lemma secp_tweak_mul:
  "secp_tweak_laws S \<Longrightarrow> ec_pubkey_create S x = Some P \<Longrightarrow> ec_privkey_tweak_mul S x t = Some y \<Longrightarrow>
    \<exists>Q. ec_pubkey_tweak_mul S P t = Some Q \<and> ec_pubkey_create S y = Some Q"
  unfolding secp_tweak_laws_def by (metis option.exhaust)

lemma secp_combine:
  "secp_tweak_laws S \<Longrightarrow> ec_pubkey_create S x = Some P \<Longrightarrow> ec_pubkey_create S y = Some Q \<Longrightarrow>
    ec_privkey_tweak_add S x y = Some z \<Longrightarrow> ec_pubkey_combine S P Q = ec_pubkey_create S z"
  unfolding secp_tweak_laws_def by blast

section \<open>Public keys\<close>

definition PUBKEY_DER_LEN :: nat where "PUBKEY_DER_LEN = 33"

text \<open>\<^verbatim>\<open>pubkey_to_der\<close> aborts when the library fails, which \<open>secp_der33\<close> excludes.\<close>

definition pubkey_to_der :: "('pk, 'sg) secp \<Rightarrow> 'pk \<Rightarrow> bytes" where
  "pubkey_to_der S key = ec_pubkey_serialize S key"

definition pubkey_from_der :: "('pk, 'sg) secp \<Rightarrow> bytes \<Rightarrow> 'pk option" where
  "pubkey_from_der S der = (if length der \<noteq> PUBKEY_DER_LEN then None else ec_pubkey_parse S der)"

definition pubkey_from_secret :: "('pk, 'sg) secp \<Rightarrow> bytes \<Rightarrow> 'pk option" where
  "pubkey_from_secret S secret = ec_pubkey_create S secret"

definition pubkey_from_privkey :: "('pk, 'sg) secp \<Rightarrow> bytes \<Rightarrow> 'pk option" where
  "pubkey_from_privkey S privkey = pubkey_from_secret S privkey"

definition pubkey_cmp :: "('pk, 'sg) secp \<Rightarrow> 'pk \<Rightarrow> 'pk \<Rightarrow> int" where
  "pubkey_cmp S a b = memcmp (pubkey_to_der S a) (pubkey_to_der S b)"

definition pubkey_to_hash160 :: "('pk, 'sg) secp \<Rightarrow> 'pk \<Rightarrow> bytes" where
  "pubkey_to_hash160 S pk = ripemd160 (sha256 (pubkey_to_der S pk))"

lemma length_pubkey_to_der [simp]: "secp_der33 S \<Longrightarrow> length (pubkey_to_der S k) = 33"
  by (simp add: secp_der33_def pubkey_to_der_def)

lemma length_pubkey_to_hash160 [simp]: "length (pubkey_to_hash160 S k) = 20"
  by (simp add: pubkey_to_hash160_def)

lemma pubkey_der_roundtrip:
  "secp_der33 S \<Longrightarrow> secp_parse_law S \<Longrightarrow> pubkey_from_der S (pubkey_to_der S k) = Some k"
  by (simp add: pubkey_from_der_def PUBKEY_DER_LEN_def secp_parse_law_def) (simp add: pubkey_to_der_def)

section \<open>Signatures\<close>

text \<open>
  \<^verbatim>\<open>IsValidSignatureEncoding\<close>: \<open>0x30 len 0x02 lenR R 0x02 lenS S\<close> and one sighash byte. Every
  index is inside the array once the length tests before it have passed. \<open>sig_enc_R\<close> and
  \<open>sig_enc_S\<close> are the tests on either integer.
\<close>

definition sig_enc_R :: "bytes \<Rightarrow> nat \<Rightarrow> bool" where
  "sig_enc_R sg lenR \<longleftrightarrow>
     sg ! 2 = 0x02 \<and> lenR \<noteq> 0 \<and> sg ! 4 AND 0x80 = 0 \<and>
     \<not> (lenR > 1 \<and> sg ! 4 = 0x00 \<and> sg ! 5 AND 0x80 = 0)"

definition sig_enc_S :: "bytes \<Rightarrow> nat \<Rightarrow> nat \<Rightarrow> bool" where
  "sig_enc_S sg lenR lenS \<longleftrightarrow>
     sg ! (lenR + 4) = 0x02 \<and> lenS \<noteq> 0 \<and> sg ! (lenR + 6) AND 0x80 = 0 \<and>
     \<not> (lenS > 1 \<and> sg ! (lenR + 6) = 0x00 \<and> sg ! (lenR + 7) AND 0x80 = 0)"

definition IsValidSignatureEncoding :: "bytes \<Rightarrow> bool" where
  "IsValidSignatureEncoding sg =
     (let len = length sg in
      if len < 9 then False
      else if len > 73 then False
      else if sg ! 0 \<noteq> 0x30 then False
      else if unat (sg ! 1) \<noteq> len - 3 then False
      else let lenR = unat (sg ! 3) in
        if 5 + lenR \<ge> len then False
        else let lenS = unat (sg ! (5 + lenR)) in
          if lenR + lenS + 7 \<noteq> len then False
          else sig_enc_R sg lenR \<and> sig_enc_S sg lenR lenS)"

text \<open>
  \<^verbatim>\<open>signature_to_der\<close> gives the library's DER form; it asserts that the form, with one more
  byte for the sighash type, is a valid encoding.
\<close>

definition signature_to_der :: "('pk, 'sg) secp \<Rightarrow> 'sg \<Rightarrow> bytes option" where
  "signature_to_der S sg =
     (let der = ecdsa_signature_serialize_der S sg
      in if IsValidSignatureEncoding (der @ [0]) then Some der else None)"

definition sign_hash :: "('pk, 'sg) secp \<Rightarrow> bytes \<Rightarrow> bytes \<Rightarrow> 'sg option" where
  "sign_hash S privkey h = ecdsa_sign S h privkey"

definition check_signed_hash :: "('pk, 'sg) secp \<Rightarrow> bytes \<Rightarrow> 'sg \<Rightarrow> 'pk \<Rightarrow> bool" where
  "check_signed_hash S h sg key = ecdsa_verify S sg h key"

text \<open>The encoding a signature \<open>(R, S)\<close> has, as a reference for the checker.\<close>

definition der_int_ok :: "bytes \<Rightarrow> bool" where
  "der_int_ok r \<longleftrightarrow> r \<noteq> [] \<and> r ! 0 AND 0x80 = 0 \<and> \<not> (length r > 1 \<and> r ! 0 = 0 \<and> r ! 1 AND 0x80 = 0)"

definition der_sig :: "bytes \<Rightarrow> bytes \<Rightarrow> u8 \<Rightarrow> bytes" where
  "der_sig r s sighash = [0x30, of_nat (length r + length s + 4), 0x02, of_nat (length r)] @ r @
     [0x02, of_nat (length s)] @ s @ [sighash]"

lemma unat_of_nat8: "n < 256 \<Longrightarrow> unat (of_nat n :: u8) = n"
  by (simp add: unat_of_nat)

lemma valid_encoding_complete:
  assumes ok: "der_int_ok r" "der_int_ok s" and len: "length r + length s \<le> 66"
  shows "IsValidSignatureEncoding (der_sig r s sighash)"
proof -
  have r: "r \<noteq> []" and s: "s \<noteq> []" using ok by (auto simp: der_int_ok_def)
  have ln: "length (der_sig r s sighash) = length r + length s + 7" by (simp add: der_sig_def)
  have r4: "der_sig r s sighash ! (4 + k) = r ! k" if "k < length r" for k
    using that by (simp add: der_sig_def nth_append)
  have sk: "der_sig r s sighash ! (length r + 6 + k) = s ! k" if "k < length s" for k
    using that by (simp add: der_sig_def nth_append)
  have hd4: "der_sig r s sighash ! 0 = 0x30" "der_sig r s sighash ! 2 = 0x02"
    "der_sig r s sighash ! 1 = of_nat (length r + length s + 4)" "der_sig r s sighash ! 3 = of_nat (length r)"
    "der_sig r s sighash ! (length r + 4) = 0x02" "der_sig r s sighash ! (length r + 5) = of_nat (length s)"
    by (simp_all add: der_sig_def nth_append)
  have "sig_enc_R (der_sig r s sighash) (length r)"
    using ok(1) r r4 [of 0] r4 [of 1] hd4 by (auto simp: sig_enc_R_def der_int_ok_def)
  moreover have "sig_enc_S (der_sig r s sighash) (length r) (length s)"
    using ok(2) s sk [of 0] sk [of 1] hd4 by (auto simp: sig_enc_S_def der_int_ok_def add.commute [of 7])
  moreover have "length r + length s + 7 \<ge> 9" using r s by (cases r; cases s) auto
  ultimately show ?thesis
    using hd4 ln len by (simp add: IsValidSignatureEncoding_def Let_def unat_of_nat8 add.commute [of 5] del: of_nat_add)
qed

lemma valid_encoding_sound:
  assumes "IsValidSignatureEncoding sg"
  shows "\<exists>r s sighash. sg = der_sig r s sighash \<and> der_int_ok r \<and> der_int_ok s \<and> length r + length s \<le> 66"
proof -
  define n where "n = unat (sg ! 3)"
  define k where "k = unat (sg ! (5 + n))"
  from assms have len: "length sg = n + k + 7" "9 \<le> length sg" "length sg \<le> 73"
    and b: "sg ! 0 = 0x30" "unat (sg ! 1) = length sg - 3" "sig_enc_R sg n" "sig_enc_S sg n k"
    by (auto simp: IsValidSignatureEncoding_def Let_def n_def k_def split: if_splits)
  define r where "r = take n (drop 4 sg)"
  define s where "s = take k (drop (n + 6) sg)"
  have lr: "length r = n" and ls: "length s = k" using len by (auto simp: r_def s_def)
  have rk: "r ! i = sg ! (4 + i)" if "i < n" for i using that len by (simp add: r_def)
  have sk: "s ! i = sg ! (n + 6 + i)" if "i < k" for i using that len by (simp add: s_def)
  have "length r + length s + 4 = unat (sg ! 1)" using b(2) len lr ls by simp
  then have sg1: "sg ! 1 = of_nat (length r + length s + 4)" by (simp only:) simp
  have sg3: "sg ! 3 = of_nat (length r)" and sg5: "sg ! (5 + n) = of_nat (length s)"
    by (simp_all add: lr ls n_def k_def)
  have "sg = der_sig r s (sg ! (n + k + 6))"
  proof (rule nth_equalityI)
    show "length sg = length (der_sig r s (sg ! (n + k + 6)))" using len lr ls by (simp add: der_sig_def)
  next
    fix i assume "i < length sg"
    then consider "i < 4" | "4 \<le> i" "i < 4 + n" | "i = 4 + n" | "i = 5 + n"
      | "n + 6 \<le> i" "i < n + 6 + k" | "i = n + k + 6" using len by linarith
    then show "sg ! i = der_sig r s (sg ! (n + k + 6)) ! i"
    proof cases
      case 1
      then have "i = 0 \<or> i = 1 \<or> i = 2 \<or> i = 3" by linarith
      then show ?thesis using b sg1 sg3 by (auto simp: der_sig_def sig_enc_R_def)
    next
      case 2
      then obtain j where "i = 4 + j" "j < n" by (metis add_less_cancel_left le_Suc_ex)
      then show ?thesis using lr rk [of j] by (simp add: der_sig_def nth_append)
    next
      case 3
      then show ?thesis using lr b by (simp add: der_sig_def nth_append sig_enc_S_def add.commute)
    next
      case 4
      then show ?thesis using lr sg5 by (simp add: der_sig_def nth_append)
    next
      case 5
      then obtain j where "i = n + 6 + j" "j < k" by (metis add_less_cancel_left le_Suc_ex)
      then show ?thesis using lr ls sk [of j] by (simp add: der_sig_def nth_append)
    next
      case 6
      then show ?thesis using lr ls by (simp add: der_sig_def nth_append)
    qed
  qed
  moreover have "der_int_ok r"
    using b(3) lr rk [of 0] rk [of 1] by (auto simp: der_int_ok_def sig_enc_R_def)
  moreover have "der_int_ok s"
    using b(4) ls sk [of 0] sk [of 1] by (auto simp: der_int_ok_def sig_enc_S_def add.commute [of 7])
  ultimately show ?thesis using len lr ls by (intro exI [of _ r] exI [of _ s] exI) auto
qed

section \<open>Key derivation\<close>

definition derive_simple_key :: "('pk, 'sg) secp \<Rightarrow> 'pk \<Rightarrow> 'pk \<Rightarrow> 'pk option" where
  "derive_simple_key S basepoint per_commitment_point =
     (let sha = sha256 (pubkey_to_der S per_commitment_point @ pubkey_to_der S basepoint)
      in ec_pubkey_tweak_add S basepoint sha)"

definition derive_simple_privkey :: "('pk, 'sg) secp \<Rightarrow> bytes \<Rightarrow> 'pk \<Rightarrow> 'pk \<Rightarrow> bytes option" where
  "derive_simple_privkey S base_secret basepoint per_commitment_point =
     (let sha = sha256 (pubkey_to_der S per_commitment_point @ pubkey_to_der S basepoint)
      in ec_privkey_tweak_add S base_secret sha)"

definition derive_revocation_key :: "('pk, 'sg) secp \<Rightarrow> 'pk \<Rightarrow> 'pk \<Rightarrow> 'pk option" where
  "derive_revocation_key S basepoint per_commitment_point =
     (let sha = sha256 (pubkey_to_der S basepoint @ pubkey_to_der S per_commitment_point)
      in case ec_pubkey_tweak_mul S basepoint sha of
           None \<Rightarrow> None
         | Some add0 \<Rightarrow>
             (let sha = sha256 (pubkey_to_der S per_commitment_point @ pubkey_to_der S basepoint)
              in case ec_pubkey_tweak_mul S per_commitment_point sha of
                   None \<Rightarrow> None
                 | Some add1 \<Rightarrow> ec_pubkey_combine S add0 add1))"

definition derive_revocation_privkey ::
    "('pk, 'sg) secp \<Rightarrow> bytes \<Rightarrow> bytes \<Rightarrow> 'pk \<Rightarrow> 'pk \<Rightarrow> bytes option" where
  "derive_revocation_privkey S base_secret per_commitment_secret basepoint per_commitment_point =
     (let sha = sha256 (pubkey_to_der S basepoint @ pubkey_to_der S per_commitment_point)
      in case ec_privkey_tweak_mul S base_secret sha of
           None \<Rightarrow> None
         | Some key \<Rightarrow>
             (let sha = sha256 (pubkey_to_der S per_commitment_point @ pubkey_to_der S basepoint)
              in case ec_privkey_tweak_mul S per_commitment_secret sha of
                   None \<Rightarrow> None
                 | Some part2 \<Rightarrow> ec_privkey_tweak_add S key part2))"

record 'pk basepoints =
  bp_revocation :: 'pk
  bp_payment :: 'pk
  bp_htlc :: 'pk
  bp_delayed_payment :: 'pk

record 'pk keyset =
  self_revocation_key :: 'pk
  self_htlc_key :: 'pk
  other_htlc_key :: 'pk
  self_delayed_payment_key :: 'pk
  self_payment_key :: 'pk
  other_payment_key :: 'pk

definition derive_keyset ::
    "('pk, 'sg) secp \<Rightarrow> 'pk \<Rightarrow> 'pk basepoints \<Rightarrow> 'pk basepoints \<Rightarrow> 'pk keyset option" where
  "derive_keyset S per_commitment_point self oth =
     do {
       self_payment \<leftarrow> derive_simple_key S (bp_payment self) per_commitment_point;
       other_payment \<leftarrow> derive_simple_key S (bp_payment oth) per_commitment_point;
       self_htlc \<leftarrow> derive_simple_key S (bp_htlc self) per_commitment_point;
       other_htlc \<leftarrow> derive_simple_key S (bp_htlc oth) per_commitment_point;
       self_delayed \<leftarrow> derive_simple_key S (bp_delayed_payment self) per_commitment_point;
       self_revocation \<leftarrow> derive_revocation_key S (bp_revocation oth) per_commitment_point;
       Some \<lparr>self_revocation_key = self_revocation, self_htlc_key = self_htlc,
             other_htlc_key = other_htlc, self_delayed_payment_key = self_delayed,
             self_payment_key = self_payment, other_payment_key = other_payment\<rparr>
     }"

text \<open>The secret derived for a key is the secret of the derived key.\<close>

lemma derive_simple_match:
  assumes "secp_tweak_laws S" and "pubkey_from_secret S base_secret = Some basepoint"
    and "derive_simple_privkey S base_secret basepoint point = Some key"
  shows "derive_simple_key S basepoint point = pubkey_from_privkey S key"
  using assms
  by (auto simp: derive_simple_key_def derive_simple_privkey_def pubkey_from_privkey_def
      pubkey_from_secret_def Let_def intro: secp_tweak_add)

section \<open>A small instance of the curve library\<close>

text \<open>
  A model of the library's laws on one-byte secrets and points: addition and multiplication of
  bytes, a key serialized as its byte after a 32-byte prefix.
\<close>

definition byte0 :: "bytes \<Rightarrow> u8" where
  "byte0 x = (case x of [] \<Rightarrow> 0 | b # _ \<Rightarrow> b)"

definition byte_secp :: "(u8, u8) secp" where
  "byte_secp = \<lparr>
     ec_pubkey_serialize = (\<lambda>k. replicate 32 2 @ [k]),
     ec_pubkey_parse = (\<lambda>d. if length d = 33 then Some (last d) else None),
     ec_pubkey_create = (\<lambda>x. Some (byte0 x)),
     ec_pubkey_tweak_add = (\<lambda>P t. Some (P + byte0 t)),
     ec_pubkey_tweak_mul = (\<lambda>P t. Some (P * byte0 t)),
     ec_pubkey_combine = (\<lambda>P Q. Some (P + Q)),
     ec_privkey_tweak_add = (\<lambda>x t. Some [byte0 x + byte0 t]),
     ec_privkey_tweak_mul = (\<lambda>x t. Some [byte0 x * byte0 t]),
     ecdsa_signature_serialize_der = (\<lambda>sg. [0x30, 6, 2, 1, 1, 2, 1, sg]),
     ecdsa_sign = (\<lambda>h x. Some (byte0 h + byte0 x)),
     ecdsa_verify = (\<lambda>sg h P. sg = byte0 h + P)\<rparr>"

lemma byte_secp_laws [simp]:
  "secp_tweak_laws byte_secp" "secp_der33 byte_secp" "secp_parse_law byte_secp"
  by (simp_all add: secp_tweak_laws_def secp_der33_def secp_parse_law_def byte_secp_def byte0_def)

lemma byte_secp_simps [simp]:
  "ec_pubkey_create byte_secp x = Some (byte0 x)"
  "ec_privkey_tweak_mul byte_secp x t = Some [byte0 x * byte0 t]"
  "ec_privkey_tweak_add byte_secp x t = Some [byte0 x + byte0 t]"
  by (simp_all add: byte_secp_def)

section \<open>Properties\<close>

text \<open>
  C32: the checker of signature encodings accepts exactly the strict DER encodings of a pair of
  positive integers, without superfluous padding, followed by the hash type byte.
\<close>

theorem signature_encoding_exact:
  "IsValidSignatureEncoding sg \<longleftrightarrow>
    (\<exists>r s sighash. sg = der_sig r s sighash \<and> der_int_ok r \<and> der_int_ok s \<and> length r + length s \<le> 66)"
  using valid_encoding_sound valid_encoding_complete by blast

text \<open>
  C31: the revocation key both peers derive from the public basepoint and per-commitment point is
  the public key of the secret that the holder of both secrets derives: a revealed
  per-commitment secret gives its receiver the key of the revoked commitment's outputs.
\<close>

theorem revocation_key_match:
  assumes laws: "secp_tweak_laws S"
    and base: "pubkey_from_secret S base_secret = Some basepoint"
    and pcs: "pubkey_from_secret S per_commitment_secret = Some point"
    and key: "derive_revocation_privkey S base_secret per_commitment_secret basepoint point = Some key"
  shows "derive_revocation_key S basepoint point = pubkey_from_privkey S key"
proof -
  let ?h1 = "sha256 (pubkey_to_der S basepoint @ pubkey_to_der S point)"
  let ?h2 = "sha256 (pubkey_to_der S point @ pubkey_to_der S basepoint)"
  from key obtain k p2 where k: "ec_privkey_tweak_mul S base_secret ?h1 = Some k"
    "ec_privkey_tweak_mul S per_commitment_secret ?h2 = Some p2" "ec_privkey_tweak_add S k p2 = Some key"
    by (auto simp: derive_revocation_privkey_def Let_def split: option.splits)
  obtain A where A: "ec_pubkey_tweak_mul S basepoint ?h1 = Some A" "ec_pubkey_create S k = Some A"
    using secp_tweak_mul [OF laws _ k(1)] base by (auto simp: pubkey_from_secret_def)
  obtain B where B: "ec_pubkey_tweak_mul S point ?h2 = Some B" "ec_pubkey_create S p2 = Some B"
    using secp_tweak_mul [OF laws _ k(2)] pcs by (auto simp: pubkey_from_secret_def)
  have "ec_pubkey_combine S A B = ec_pubkey_create S key"
    by (rule secp_combine [OF laws A(2) B(2) k(3)])
  with A B show ?thesis
    by (simp add: derive_revocation_key_def pubkey_from_privkey_def pubkey_from_secret_def Let_def)
qed

theorem revocation_key_match_witness:
  "\<exists>key. derive_revocation_privkey byte_secp [3] [5] 3 5 = Some key \<and>
     derive_revocation_key byte_secp 3 5 = pubkey_from_privkey byte_secp key"
proof -
  have "pubkey_from_secret byte_secp [3] = Some 3" "pubkey_from_secret byte_secp [5] = Some 5"
    by (simp_all add: pubkey_from_secret_def byte0_def)
  moreover obtain key where k: "derive_revocation_privkey byte_secp [3] [5] 3 5 = Some key"
    by (simp add: derive_revocation_privkey_def Let_def)
  ultimately show ?thesis using revocation_key_match [of byte_secp "[3]" 3 "[5]" 5 key] by simp
qed

end
