(* ===== verification/Locktime.thy ===== *)
theory Locktime
  imports Prelude
begin

text \<open>
  \<^verbatim>\<open>bitcoin/locktime.c\<close>: absolute (BIP 65) and relative (BIP 68) lock times. A
  \<^verbatim>\<open>struct abs_locktime\<close> or \<^verbatim>\<open>struct rel_locktime\<close> is its one \<^verbatim>\<open>u32\<close> member. The
  conversions that assert the kind of lock time return \<open>None\<close> on the other kind.
\<close>

definition SECONDS_POINT :: u32 where "SECONDS_POINT = 500000000"
definition BIP68_SECONDS_FLAG :: u32 where "BIP68_SECONDS_FLAG = push_bit 22 1"
definition BIP68_LOCKTIME_MASK :: u32 where "BIP68_LOCKTIME_MASK = 0x0000FFFF"
definition BIP68_SECONDS_SHIFT :: nat where "BIP68_SECONDS_SHIFT = 9"

text \<open>\<^verbatim>\<open>*locktime\<close> is written before the test: both results are returned.\<close>

definition abs_blocks_to_locktime :: "u32 \<Rightarrow> bool \<times> u32" where
  "abs_blocks_to_locktime blocks = (if SECONDS_POINT \<le> blocks then (False, blocks) else (True, blocks))"

definition abs_is_seconds :: "u32 \<Rightarrow> bool" where
  "abs_is_seconds locktime \<longleftrightarrow> SECONDS_POINT \<le> locktime"

definition rel_locktime_is_seconds :: "u32 \<Rightarrow> bool" where
  "rel_locktime_is_seconds rel \<longleftrightarrow> rel AND BIP68_SECONDS_FLAG \<noteq> 0"

definition rel_locktime_to_seconds :: "u32 \<Rightarrow> u32 option" where
  "rel_locktime_to_seconds rel =
     (if rel_locktime_is_seconds rel
      then Some (push_bit BIP68_SECONDS_SHIFT (rel AND BIP68_LOCKTIME_MASK)) else None)"

definition rel_locktime_to_blocks :: "u32 \<Rightarrow> u32 option" where
  "rel_locktime_to_blocks rel =
     (if rel_locktime_is_seconds rel then None else Some (rel AND BIP68_LOCKTIME_MASK))"

definition blocks_to_abs_locktime :: "u32 \<Rightarrow> bool \<times> u32" where
  "blocks_to_abs_locktime blocks = abs_blocks_to_locktime blocks"

definition abs_locktime_is_seconds :: "u32 \<Rightarrow> bool" where
  "abs_locktime_is_seconds lt = abs_is_seconds lt"

definition abs_locktime_to_seconds :: "u32 \<Rightarrow> u32 option" where
  "abs_locktime_to_seconds lt = (if abs_locktime_is_seconds lt then Some lt else None)"

definition abs_locktime_to_blocks :: "u32 \<Rightarrow> u32 option" where
  "abs_locktime_to_blocks lt = (if abs_locktime_is_seconds lt then None else Some lt)"

lemmas locktime_defs = abs_blocks_to_locktime_def abs_is_seconds_def blocks_to_abs_locktime_def
  abs_locktime_is_seconds_def abs_locktime_to_seconds_def abs_locktime_to_blocks_def
  rel_locktime_is_seconds_def rel_locktime_to_seconds_def rel_locktime_to_blocks_def

text \<open>A block count that was accepted reads back as the same block count.\<close>

lemma abs_locktime_roundtrip:
  "blocks_to_abs_locktime blocks = (True, lt) \<Longrightarrow> abs_locktime_to_blocks lt = Some blocks"
  by (auto simp: locktime_defs split: if_splits)

lemma abs_locktime_kinds:
  "(abs_locktime_to_blocks lt = None) \<noteq> (abs_locktime_to_seconds lt = None)"
  by (simp add: locktime_defs)

end
