(* ===== verification/Script.thy ===== *)
theory Script
  imports Keys Locktime
begin

text \<open>
  \<^verbatim>\<open>bitcoin/script.c\<close>: the scripts and witnesses of the protocol. A script that the C code
  grows through \<^verbatim>\<open>u8 **scriptp\<close> is threaded through the calls as a byte list; a
  \<^verbatim>\<open>u8 **\<close> witness is the list of its stack items. Operations that serialize a signature
  return \<open>None\<close> where \<^verbatim>\<open>signature_to_der\<close> fails its assertion.
\<close>

section \<open>Opcodes\<close>

definition OP_0 :: u8 where "OP_0 = 0x00"
definition OP_PUSHDATA1 :: u8 where "OP_PUSHDATA1 = 0x4C"
definition OP_PUSHDATA2 :: u8 where "OP_PUSHDATA2 = 0x4D"
definition OP_PUSHDATA4 :: u8 where "OP_PUSHDATA4 = 0x4E"
definition OP_IF :: u8 where "OP_IF = 0x63"
definition OP_NOTIF :: u8 where "OP_NOTIF = 0x64"
definition OP_ELSE :: u8 where "OP_ELSE = 0x67"
definition OP_ENDIF :: u8 where "OP_ENDIF = 0x68"
definition OP_RETURN :: u8 where "OP_RETURN = 0x6a"
definition OP_DROP :: u8 where "OP_DROP = 0x75"
definition OP_DUP :: u8 where "OP_DUP = 0x76"
definition OP_SWAP :: u8 where "OP_SWAP = 0x7c"
definition OP_EQUAL :: u8 where "OP_EQUAL = 0x87"
definition OP_EQUALVERIFY :: u8 where "OP_EQUALVERIFY = 0x88"
definition OP_SIZE :: u8 where "OP_SIZE = 0x82"
definition OP_CHECKSIG :: u8 where "OP_CHECKSIG = 0xAC"
definition OP_CHECKMULTISIG :: u8 where "OP_CHECKMULTISIG = 0xAE"
definition OP_HASH160 :: u8 where "OP_HASH160 = 0xA9"
definition OP_CHECKSEQUENCEVERIFY :: u8 where "OP_CHECKSEQUENCEVERIFY = 0xB2"
definition OP_CHECKLOCKTIMEVERIFY :: u8 where "OP_CHECKLOCKTIMEVERIFY = 0xB1"
definition SIGHASH_ALL :: u8 where "SIGHASH_ALL = 1"

lemmas op_defs = OP_0_def OP_PUSHDATA1_def OP_PUSHDATA2_def OP_PUSHDATA4_def OP_IF_def OP_NOTIF_def
  OP_ELSE_def OP_ENDIF_def OP_RETURN_def OP_DROP_def OP_DUP_def OP_SWAP_def OP_EQUAL_def
  OP_EQUALVERIFY_def OP_SIZE_def OP_CHECKSIG_def OP_CHECKMULTISIG_def OP_HASH160_def
  OP_CHECKSEQUENCEVERIFY_def OP_CHECKLOCKTIMEVERIFY_def

section \<open>Building scripts\<close>

definition hash160 :: "bytes \<Rightarrow> bytes" where
  "hash160 mem = ripemd160 (sha256 mem)"

definition add :: "bytes \<Rightarrow> bytes \<Rightarrow> bytes" where
  "add script mem = script @ mem"

definition add_op :: "bytes \<Rightarrow> u8 \<Rightarrow> bytes" where
  "add_op script op = add script [op]"

definition add_push_bytes :: "bytes \<Rightarrow> bytes \<Rightarrow> bytes" where
  "add_push_bytes script mem =
     (let len = length mem;
          script =
            (if len < 76 then add_op script (of_nat len)
             else if len < 256 then add (add_op script OP_PUSHDATA1) [of_nat len]
             else if len < 65536 then add (add_op script OP_PUSHDATA2) (cpu_to_le16 (of_nat len))
             else add (add_op script OP_PUSHDATA4) (cpu_to_le32 (of_nat len)))
      in add script mem)"

definition add_number :: "bytes \<Rightarrow> u32 \<Rightarrow> bytes" where
  "add_number script num =
     (if num = 0 then add_op script 0
      else if num \<le> 16 then add_op script (0x50 + ucast num)
      else let n = cpu_to_le64 (ucast num) in
        if num \<le> 0x0000007F then add_push_bytes script (take 1 n)
        else if num \<le> 0x00007FFF then add_push_bytes script (take 2 n)
        else if num \<le> 0x007FFFFF then add_push_bytes script (take 3 n)
        else if num \<le> 0x7FFFFFFF then add_push_bytes script (take 4 n)
        else add_push_bytes script (take 5 n))"

definition add_push_key :: "('pk, 'sg) secp \<Rightarrow> bytes \<Rightarrow> 'pk \<Rightarrow> bytes" where
  "add_push_key S script key = add_push_bytes script (pubkey_to_der S key)"

definition add_push_sig :: "('pk, 'sg) secp \<Rightarrow> bytes \<Rightarrow> 'sg \<Rightarrow> bytes option" where
  "add_push_sig S script sg =
     (case signature_to_der S sg of
        None \<Rightarrow> None
      | Some der \<Rightarrow> Some (add_push_bytes script (der @ [SIGHASH_ALL])))"

definition stack_key :: "('pk, 'sg) secp \<Rightarrow> 'pk \<Rightarrow> bytes" where
  "stack_key S key = pubkey_to_der S key"

definition stack_sig :: "('pk, 'sg) secp \<Rightarrow> 'sg \<Rightarrow> bytes option" where
  "stack_sig S sg =
     (case signature_to_der S sg of None \<Rightarrow> None | Some der \<Rightarrow> Some (der @ [SIGHASH_ALL]))"

definition stack_preimage :: "bytes \<Rightarrow> bytes" where
  "stack_preimage preimage = preimage"

text \<open>\<^verbatim>\<open>stack_number\<close> asserts that the number fits a byte.\<close>

definition stack_number :: "u32 \<Rightarrow> bytes option" where
  "stack_number num =
     (if num = 0 then Some []
      else let val = ucast num :: u8 in if (ucast val :: u32) = num then Some [val] else None)"

section \<open>Output scripts and their spends\<close>

definition bitcoin_redeem_2of2 :: "('pk, 'sg) secp \<Rightarrow> 'pk \<Rightarrow> 'pk \<Rightarrow> bytes" where
  "bitcoin_redeem_2of2 S key1 key2 =
     (let script = add_number [] 2;
          script =
            (if pubkey_cmp S key1 key2 < 0
             then let script = add_push_key S script key1 in add_push_key S script key2
             else let script = add_push_key S script key2 in add_push_key S script key1);
          script = add_number script 2
      in add_op script OP_CHECKMULTISIG)"

definition scriptpubkey_p2sh_hash :: "bytes \<Rightarrow> bytes" where
  "scriptpubkey_p2sh_hash redeemhash =
     (let script = add_op [] OP_HASH160;
          script = add_push_bytes script redeemhash
      in add_op script OP_EQUAL)"

definition scriptpubkey_p2sh :: "bytes \<Rightarrow> bytes" where
  "scriptpubkey_p2sh redeemscript = scriptpubkey_p2sh_hash (hash160 redeemscript)"

definition scriptpubkey_p2pkh :: "bytes \<Rightarrow> bytes" where
  "scriptpubkey_p2pkh addr =
     (let script = add_op [] OP_DUP;
          script = add_op script OP_HASH160;
          script = add_push_bytes script addr;
          script = add_op script OP_EQUALVERIFY
      in add_op script OP_CHECKSIG)"

definition scriptpubkey_opreturn :: bytes where
  "scriptpubkey_opreturn = add_op [] OP_RETURN"

definition bitcoin_redeem_p2pkh :: "('pk, 'sg) secp \<Rightarrow> 'pk \<Rightarrow> 'sg \<Rightarrow> bytes option" where
  "bitcoin_redeem_p2pkh S pubkey sg =
     (case add_push_sig S [] sg of
        None \<Rightarrow> None
      | Some script \<Rightarrow> Some (add_push_key S script pubkey))"

definition bitcoin_redeem_p2sh_p2wpkh :: "('pk, 'sg) secp \<Rightarrow> 'pk \<Rightarrow> bytes" where
  "bitcoin_redeem_p2sh_p2wpkh S key =
     (let script = add_number [] 0
      in add_push_bytes script (pubkey_to_hash160 S key))"

definition bitcoin_scriptsig_p2sh_p2wpkh :: "('pk, 'sg) secp \<Rightarrow> 'pk \<Rightarrow> bytes" where
  "bitcoin_scriptsig_p2sh_p2wpkh S key = add_push_bytes [] (bitcoin_redeem_p2sh_p2wpkh S key)"

definition bitcoin_witness_p2wpkh :: "('pk, 'sg) secp \<Rightarrow> 'sg \<Rightarrow> 'pk \<Rightarrow> bytes list option" where
  "bitcoin_witness_p2wpkh S sg key =
     (case stack_sig S sg of None \<Rightarrow> None | Some w0 \<Rightarrow> Some [w0, stack_key S key])"

definition scriptpubkey_p2wsh :: "bytes \<Rightarrow> bytes" where
  "scriptpubkey_p2wsh witnessscript =
     (let script = add_op [] OP_0
      in add_push_bytes script (sha256 witnessscript))"

definition scriptpubkey_p2wpkh :: "('pk, 'sg) secp \<Rightarrow> 'pk \<Rightarrow> bytes" where
  "scriptpubkey_p2wpkh S key =
     (let script = add_op [] OP_0
      in add_push_bytes script (pubkey_to_hash160 S key))"

definition scriptpubkey_p2wpkh_derkey :: "bytes \<Rightarrow> bytes" where
  "scriptpubkey_p2wpkh_derkey der =
     (let script = add_op [] OP_0
      in add_push_bytes script (hash160 der))"

definition scriptpubkey_witness_raw :: "u8 \<Rightarrow> bytes \<Rightarrow> bytes" where
  "scriptpubkey_witness_raw version wprog =
     (let script = add_number [] (ucast version)
      in add_push_bytes script wprog)"

definition bitcoin_witness_2of2 ::
    "('pk, 'sg) secp \<Rightarrow> 'sg \<Rightarrow> 'sg \<Rightarrow> 'pk \<Rightarrow> 'pk \<Rightarrow> bytes list option" where
  "bitcoin_witness_2of2 S sig1 sig2 key1 key2 =
     do {
       w0 \<leftarrow> stack_number 0;
       (w1, w2) \<leftarrow>
         (if pubkey_cmp S key1 key2 < 0
          then do { w1 \<leftarrow> stack_sig S sig1; w2 \<leftarrow> stack_sig S sig2; Some (w1, w2) }
          else do { w1 \<leftarrow> stack_sig S sig2; w2 \<leftarrow> stack_sig S sig1; Some (w1, w2) });
       Some [w0, w1, w2, bitcoin_redeem_2of2 S key1 key2]
     }"

definition p2wpkh_scriptcode :: "('pk, 'sg) secp \<Rightarrow> 'pk \<Rightarrow> bytes" where
  "p2wpkh_scriptcode S key =
     (let script = add_op [] OP_DUP;
          script = add_op script OP_HASH160;
          script = add_push_bytes script (pubkey_to_hash160 S key);
          script = add_op script OP_EQUALVERIFY
      in add_op script OP_CHECKSIG)"

section \<open>Classifying output scripts\<close>

definition BITCOIN_SCRIPTPUBKEY_P2PKH_LEN :: nat where "BITCOIN_SCRIPTPUBKEY_P2PKH_LEN = 1 + 1 + 1 + 20 + 1 + 1"
definition BITCOIN_SCRIPTPUBKEY_P2SH_LEN :: nat where "BITCOIN_SCRIPTPUBKEY_P2SH_LEN = 1 + 1 + 20 + 1"
definition BITCOIN_SCRIPTPUBKEY_P2WPKH_LEN :: nat where "BITCOIN_SCRIPTPUBKEY_P2WPKH_LEN = 1 + 1 + 20"
definition BITCOIN_SCRIPTPUBKEY_P2WSH_LEN :: nat where "BITCOIN_SCRIPTPUBKEY_P2WSH_LEN = 1 + 1 + 32"

lemmas script_len_defs = BITCOIN_SCRIPTPUBKEY_P2PKH_LEN_def BITCOIN_SCRIPTPUBKEY_P2SH_LEN_def
  BITCOIN_SCRIPTPUBKEY_P2WPKH_LEN_def BITCOIN_SCRIPTPUBKEY_P2WSH_LEN_def

text \<open>The classifiers return the address they copy out, \<open>None\<close> for false.\<close>

definition is_p2pkh :: "bytes \<Rightarrow> bytes option" where
  "is_p2pkh script =
     (if length script \<noteq> BITCOIN_SCRIPTPUBKEY_P2PKH_LEN then None
      else if script ! 0 \<noteq> OP_DUP then None
      else if script ! 1 \<noteq> OP_HASH160 then None
      else if script ! 2 \<noteq> 20 then None
      else if script ! 23 \<noteq> OP_EQUALVERIFY then None
      else if script ! 24 \<noteq> OP_CHECKSIG then None
      else Some (take 20 (drop 3 script)))"

definition is_p2sh :: "bytes \<Rightarrow> bytes option" where
  "is_p2sh script =
     (if length script \<noteq> BITCOIN_SCRIPTPUBKEY_P2SH_LEN then None
      else if script ! 0 \<noteq> OP_HASH160 then None
      else if script ! 1 \<noteq> 20 then None
      else if script ! 22 \<noteq> OP_EQUAL then None
      else Some (take 20 (drop 2 script)))"

definition is_p2wsh :: "bytes \<Rightarrow> bytes option" where
  "is_p2wsh script =
     (if length script \<noteq> BITCOIN_SCRIPTPUBKEY_P2WSH_LEN then None
      else if script ! 0 \<noteq> OP_0 then None
      else if script ! 1 \<noteq> 32 then None
      else Some (take 32 (drop 2 script)))"

definition is_p2wpkh :: "bytes \<Rightarrow> bytes option" where
  "is_p2wpkh script =
     (if length script \<noteq> BITCOIN_SCRIPTPUBKEY_P2WPKH_LEN then None
      else if script ! 0 \<noteq> OP_0 then None
      else if script ! 1 \<noteq> 20 then None
      else Some (take 20 (drop 2 script)))"

section \<open>Witness scripts of the commitment transaction\<close>

definition bitcoin_witness_sig_and_element ::
    "('pk, 'sg) secp \<Rightarrow> 'sg \<Rightarrow> bytes \<Rightarrow> bytes \<Rightarrow> bytes list option" where
  "bitcoin_witness_sig_and_element S sg elem witnessscript =
     (case stack_sig S sg of None \<Rightarrow> None | Some w0 \<Rightarrow> Some [w0, elem, witnessscript])"

definition bitcoin_wscript_to_local :: "('pk, 'sg) secp \<Rightarrow> u16 \<Rightarrow> 'pk \<Rightarrow> 'pk \<Rightarrow> bytes" where
  "bitcoin_wscript_to_local S to_self_delay revocation_pubkey local_delayedkey =
     (let script = add_op [] OP_IF;
          script = add_push_key S script revocation_pubkey;
          script = add_op script OP_ELSE;
          script = add_number script (ucast to_self_delay);
          script = add_op script OP_CHECKSEQUENCEVERIFY;
          script = add_op script OP_DROP;
          script = add_push_key S script local_delayedkey;
          script = add_op script OP_ENDIF
      in add_op script OP_CHECKSIG)"

definition bitcoin_wscript_htlc_offer_ripemd160 ::
    "('pk, 'sg) secp \<Rightarrow> 'pk \<Rightarrow> 'pk \<Rightarrow> bytes \<Rightarrow> 'pk \<Rightarrow> bytes" where
  "bitcoin_wscript_htlc_offer_ripemd160 S localhtlckey remotehtlckey payment_ripemd revocationkey =
     (let script = add_op [] OP_DUP;
          script = add_op script OP_HASH160;
          script = add_push_bytes script (pubkey_to_hash160 S revocationkey);
          script = add_op script OP_EQUAL;
          script = add_op script OP_IF;
          script = add_op script OP_CHECKSIG;
          script = add_op script OP_ELSE;
          script = add_push_key S script remotehtlckey;
          script = add_op script OP_SWAP;
          script = add_op script OP_SIZE;
          script = add_number script 32;
          script = add_op script OP_EQUAL;
          script = add_op script OP_NOTIF;
          script = add_op script OP_DROP;
          script = add_number script 2;
          script = add_op script OP_SWAP;
          script = add_push_key S script localhtlckey;
          script = add_number script 2;
          script = add_op script OP_CHECKMULTISIG;
          script = add_op script OP_ELSE;
          script = add_op script OP_HASH160;
          script = add_push_bytes script payment_ripemd;
          script = add_op script OP_EQUALVERIFY;
          script = add_op script OP_CHECKSIG;
          script = add_op script OP_ENDIF
      in add_op script OP_ENDIF)"

definition bitcoin_wscript_htlc_offer ::
    "('pk, 'sg) secp \<Rightarrow> 'pk \<Rightarrow> 'pk \<Rightarrow> bytes \<Rightarrow> 'pk \<Rightarrow> bytes" where
  "bitcoin_wscript_htlc_offer S localhtlckey remotehtlckey payment_hash revocationkey =
     bitcoin_wscript_htlc_offer_ripemd160 S localhtlckey remotehtlckey (ripemd160 payment_hash) revocationkey"

definition bitcoin_wscript_htlc_receive_ripemd ::
    "('pk, 'sg) secp \<Rightarrow> u32 \<Rightarrow> 'pk \<Rightarrow> 'pk \<Rightarrow> bytes \<Rightarrow> 'pk \<Rightarrow> bytes" where
  "bitcoin_wscript_htlc_receive_ripemd S htlc_abstimeout localhtlckey remotehtlckey payment_ripemd
      revocationkey =
     (let script = add_op [] OP_DUP;
          script = add_op script OP_HASH160;
          script = add_push_bytes script (pubkey_to_hash160 S revocationkey);
          script = add_op script OP_EQUAL;
          script = add_op script OP_IF;
          script = add_op script OP_CHECKSIG;
          script = add_op script OP_ELSE;
          script = add_push_key S script remotehtlckey;
          script = add_op script OP_SWAP;
          script = add_op script OP_SIZE;
          script = add_number script 32;
          script = add_op script OP_EQUAL;
          script = add_op script OP_IF;
          script = add_op script OP_HASH160;
          script = add_push_bytes script payment_ripemd;
          script = add_op script OP_EQUALVERIFY;
          script = add_number script 2;
          script = add_op script OP_SWAP;
          script = add_push_key S script localhtlckey;
          script = add_number script 2;
          script = add_op script OP_CHECKMULTISIG;
          script = add_op script OP_ELSE;
          script = add_op script OP_DROP;
          script = add_number script htlc_abstimeout;
          script = add_op script OP_CHECKLOCKTIMEVERIFY;
          script = add_op script OP_DROP;
          script = add_op script OP_CHECKSIG;
          script = add_op script OP_ENDIF
      in add_op script OP_ENDIF)"

definition bitcoin_wscript_htlc_receive ::
    "('pk, 'sg) secp \<Rightarrow> u32 \<Rightarrow> 'pk \<Rightarrow> 'pk \<Rightarrow> bytes \<Rightarrow> 'pk \<Rightarrow> bytes" where
  "bitcoin_wscript_htlc_receive S htlc_abstimeout localhtlckey remotehtlckey payment_hash revocationkey =
     bitcoin_wscript_htlc_receive_ripemd S htlc_abstimeout localhtlckey remotehtlckey
       (ripemd160 payment_hash) revocationkey"

definition bitcoin_witness_htlc_timeout_tx ::
    "('pk, 'sg) secp \<Rightarrow> 'sg \<Rightarrow> 'sg \<Rightarrow> bytes \<Rightarrow> bytes list option" where
  "bitcoin_witness_htlc_timeout_tx S localhtlcsig remotehtlcsig wscript =
     do {
       w0 \<leftarrow> stack_number 0;
       w1 \<leftarrow> stack_sig S remotehtlcsig;
       w2 \<leftarrow> stack_sig S localhtlcsig;
       w3 \<leftarrow> stack_number 0;
       Some [w0, w1, w2, w3, wscript]
     }"

definition bitcoin_witness_htlc_success_tx ::
    "('pk, 'sg) secp \<Rightarrow> 'sg \<Rightarrow> 'sg \<Rightarrow> bytes \<Rightarrow> bytes \<Rightarrow> bytes list option" where
  "bitcoin_witness_htlc_success_tx S localhtlcsig remotesig preimage wscript =
     do {
       w0 \<leftarrow> stack_number 0;
       w1 \<leftarrow> stack_sig S remotesig;
       w2 \<leftarrow> stack_sig S localhtlcsig;
       Some [w0, w1, w2, stack_preimage preimage, wscript]
     }"

definition bitcoin_wscript_htlc_tx :: "('pk, 'sg) secp \<Rightarrow> u16 \<Rightarrow> 'pk \<Rightarrow> 'pk \<Rightarrow> bytes" where
  "bitcoin_wscript_htlc_tx S to_self_delay revocation_pubkey local_delayedkey =
     (let script = add_op [] OP_IF;
          script = add_push_key S script revocation_pubkey;
          script = add_op script OP_ELSE;
          script = add_number script (ucast to_self_delay);
          script = add_op script OP_CHECKSEQUENCEVERIFY;
          script = add_op script OP_DROP;
          script = add_push_key S script local_delayedkey;
          script = add_op script OP_ENDIF
      in add_op script OP_CHECKSIG)"

definition scripteq :: "bytes \<Rightarrow> bytes \<Rightarrow> bool" where
  "scripteq s1 s2 = (if length s1 \<noteq> length s2 then False else memcmp s1 s2 = 0)"

end
