(* ===== verification/BitcoinTx.thy ===== *)
theory BitcoinTx
  imports PullPush Keys Script
begin

text \<open>
  \<^verbatim>\<open>bitcoin/tx.c\<close> and the transaction signing of \<^verbatim>\<open>bitcoin/signature.c\<close>: transactions,
  their serialization through a sink, their id, weight and signature hash, and parsing.

  A \<^verbatim>\<open>struct bitcoin_txid\<close> is its 32 bytes. An input script, amount or witness may be NULL
  (\<open>None\<close>); an output script that is NULL behaves as the empty script and is \<open>[]\<close>.

  \<open>tx_bytes\<close> is the serialization as one byte string. The sink lemmas show that linearizing,
  measuring and hashing all work on it; \<open>bip143_bytes\<close> is the string whose double hash
  is signed. Parsing inverts linearizing.
\<close>

section \<open>Transactions\<close>

record bitcoin_tx_input =
  ti_txid :: bytes
  ti_index :: u32
  ti_script :: "bytes option"
  ti_sequence_number :: u32
  ti_amount :: "u64 option"
  ti_witness :: "bytes list option"

record bitcoin_tx_output =
  to_amount :: u64
  to_script :: bytes

record bitcoin_tx =
  tx_version :: u32
  tx_input :: "bitcoin_tx_input list"
  tx_output :: "bitcoin_tx_output list"
  tx_lock_time :: u32

definition SEGREGATED_WITNESS_FLAG :: u8 where "SEGREGATED_WITNESS_FLAG = 0x1"

text \<open>\<^verbatim>\<open>tal_count(NULL)\<close> is 0.\<close>

definition blob_of :: "bytes option \<Rightarrow> bytes" where
  "blob_of p = (case p of None \<Rightarrow> [] | Some b \<Rightarrow> b)"

section \<open>Serialization\<close>

definition push_tx_input :: "(bytes \<Rightarrow> 's \<Rightarrow> 's) \<Rightarrow> bitcoin_tx_input \<Rightarrow> 's \<Rightarrow> 's" where
  "push_tx_input push input s =
     (let s = push (ti_txid input) s;
          s = push_le32 push (ti_index input) s;
          s = push_varint_blob push (blob_of (ti_script input)) s
      in push_le32 push (ti_sequence_number input) s)"

definition push_tx_output :: "(bytes \<Rightarrow> 's \<Rightarrow> 's) \<Rightarrow> bitcoin_tx_output \<Rightarrow> 's \<Rightarrow> 's" where
  "push_tx_output push output s =
     (let s = push_le64 push (to_amount output) s
      in push_varint_blob push (to_script output) s)"

definition push_witness :: "(bytes \<Rightarrow> 's \<Rightarrow> 's) \<Rightarrow> bytes \<Rightarrow> 's \<Rightarrow> 's" where
  "push_witness push witness s = push_varint_blob push witness s"

definition uses_witness :: "bitcoin_tx \<Rightarrow> bool" where
  "uses_witness tx \<longleftrightarrow> list_ex (\<lambda>i. ti_witness i \<noteq> None) (tx_input tx)"

definition push_input_witness :: "(bytes \<Rightarrow> 's \<Rightarrow> 's) \<Rightarrow> bitcoin_tx_input \<Rightarrow> 's \<Rightarrow> 's" where
  "push_input_witness push input s =
     (case ti_witness input of
        None \<Rightarrow> push_varint push 0 s
      | Some w \<Rightarrow> fold (push_witness push) w (push_varint push (of_nat (length w)) s))"

definition push_witnesses :: "(bytes \<Rightarrow> 's \<Rightarrow> 's) \<Rightarrow> bitcoin_tx \<Rightarrow> 's \<Rightarrow> 's" where
  "push_witnesses push tx s = fold (push_input_witness push) (tx_input tx) s"

definition push_tx :: "(bytes \<Rightarrow> 's \<Rightarrow> 's) \<Rightarrow> bitcoin_tx \<Rightarrow> bool \<Rightarrow> 's \<Rightarrow> 's" where
  "push_tx push tx bip144 s =
     (let s = push_le32 push (tx_version tx) s;
          flag = (if bip144 \<and> uses_witness tx then 0 OR SEGREGATED_WITNESS_FLAG else 0);
          s = (if flag \<noteq> 0 then push [flag] (push [0] s) else s);
          s = push_varint push (of_nat (length (tx_input tx))) s;
          s = fold (push_tx_input push) (tx_input tx) s;
          s = push_varint push (of_nat (length (tx_output tx))) s;
          s = fold (push_tx_output push) (tx_output tx) s;
          s = (if flag AND SEGREGATED_WITNESS_FLAG \<noteq> 0 then push_witnesses push tx s else s)
      in push_le32 push (tx_lock_time tx) s)"

text \<open>The sinks. A SHA-256 context that failed its assertion is \<open>None\<close>.\<close>

definition push_sha :: "bytes \<Rightarrow> hash_ctx option \<Rightarrow> hash_ctx option" where
  "push_sha data ctx = (case ctx of None \<Rightarrow> None | Some ctx \<Rightarrow> sha256_update ctx data)"

definition push_linearize :: "bytes \<Rightarrow> bytes \<Rightarrow> bytes" where
  "push_linearize data arr = arr @ data"

definition push_measure :: "bytes \<Rightarrow> u64 \<Rightarrow> u64" where
  "push_measure data len = len + of_nat (length data)"

definition linearize_tx :: "bitcoin_tx \<Rightarrow> bytes" where
  "linearize_tx tx = push_tx push_linearize tx True []"

definition measure_tx_weight :: "bitcoin_tx \<Rightarrow> u64" where
  "measure_tx_weight tx =
     (let non_witness_len = push_tx push_measure tx False 0;
          witness_len = (if uses_witness tx then push_witnesses push_measure tx 0 + 2 else 0)
      in non_witness_len * 4 + witness_len)"

definition bitcoin_txid :: "bitcoin_tx \<Rightarrow> bytes option" where
  "bitcoin_txid tx = map_option sha256_double_done (push_tx push_sha tx False (Some SHA256_INIT))"

section \<open>Signature hashes\<close>

definition hash_prevouts :: "bitcoin_tx \<Rightarrow> bytes option" where
  "hash_prevouts tx =
     map_option sha256_double_done
       (fold (\<lambda>i ctx. push_le32 push_sha (ti_index i) (push_sha (ti_txid i) ctx)) (tx_input tx)
         (Some sha256_init))"

definition hash_sequence :: "bitcoin_tx \<Rightarrow> bytes option" where
  "hash_sequence tx =
     map_option sha256_double_done
       (fold (\<lambda>i. push_le32 push_sha (ti_sequence_number i)) (tx_input tx) (Some sha256_init))"

definition hash_outputs :: "bitcoin_tx \<Rightarrow> bytes option" where
  "hash_outputs tx =
     map_option sha256_double_done
       (fold (\<lambda>out ctx. push_varint_blob push_sha (to_script out) (push_le64 push_sha (to_amount out) ctx))
         (tx_output tx) (Some sha256_init))"

text \<open>An unknown amount is a NULL pointer; its dereference is \<open>None\<close>.\<close>

definition hash_for_segwit :: "hash_ctx option \<Rightarrow> bitcoin_tx \<Rightarrow> nat \<Rightarrow> bytes \<Rightarrow> hash_ctx option" where
  "hash_for_segwit ctx tx input_num witness_script =
     (let input = tx_input tx ! input_num in
      do {
        ctx \<leftarrow> push_le32 push_sha (tx_version tx) ctx;
        h \<leftarrow> hash_prevouts tx;
        ctx \<leftarrow> push_sha h (Some ctx);
        h \<leftarrow> hash_sequence tx;
        ctx \<leftarrow> push_sha h (Some ctx);
        ctx \<leftarrow> push_sha (ti_txid input) (Some ctx);
        ctx \<leftarrow> push_le32 push_sha (ti_index input) (Some ctx);
        ctx \<leftarrow> push_varint_blob push_sha witness_script (Some ctx);
        amount \<leftarrow> ti_amount input;
        ctx \<leftarrow> push_le64 push_sha amount (Some ctx);
        ctx \<leftarrow> push_le32 push_sha (ti_sequence_number input) (Some ctx);
        h \<leftarrow> hash_outputs tx;
        ctx \<leftarrow> push_sha h (Some ctx);
        push_le32 push_sha (tx_lock_time tx) (Some ctx)
      })"

definition sha256_tx_for_sig :: "bitcoin_tx \<Rightarrow> nat \<Rightarrow> bytes option \<Rightarrow> bytes option" where
  "sha256_tx_for_sig tx input_num witness_script =
     (if \<not> input_num < length (tx_input tx) then None
      else if \<exists>i \<in> set [0..<length (tx_input tx)]. i \<noteq> input_num \<and> ti_script (tx_input tx ! i) \<noteq> None then None
      else do {
        ctx \<leftarrow> (case witness_script of
                Some ws \<Rightarrow> hash_for_segwit (Some SHA256_INIT) tx input_num ws
              | None \<Rightarrow> push_tx push_sha tx False (Some SHA256_INIT));
        ctx \<leftarrow> sha256_le32 ctx (ucast SIGHASH_ALL);
        Some (sha256_double_done ctx)
      })"

text \<open>
  \<^verbatim>\<open>sha256_tx_one_input\<close> sets the input's script for the hash and resets it: the
  transaction is as before.
\<close>

definition sha256_tx_one_input :: "bitcoin_tx \<Rightarrow> nat \<Rightarrow> bytes option \<Rightarrow> bytes option \<Rightarrow> bytes option" where
  "sha256_tx_one_input tx input_num script witness_script =
     (if \<not> input_num < length (tx_input tx) then None
      else if \<exists>i \<in> set (tx_input tx). ti_script i \<noteq> None then None
      else let tx = tx\<lparr>tx_input := (tx_input tx)[input_num := (tx_input tx ! input_num)\<lparr>ti_script := script\<rparr>]\<rparr>
        in sha256_tx_for_sig tx input_num witness_script)"

definition sign_tx_input ::
    "('pk, 'sg) secp \<Rightarrow> bitcoin_tx \<Rightarrow> nat \<Rightarrow> bytes option \<Rightarrow> bytes option \<Rightarrow> bytes \<Rightarrow> 'sg option" where
  "sign_tx_input S tx n subscript witness_script privkey =
     do { hash \<leftarrow> sha256_tx_one_input tx n subscript witness_script; sign_hash S privkey hash }"

definition check_tx_sig ::
    "('pk, 'sg) secp \<Rightarrow> bitcoin_tx \<Rightarrow> nat \<Rightarrow> bytes option \<Rightarrow> bytes option \<Rightarrow> 'pk \<Rightarrow> 'sg \<Rightarrow> bool option" where
  "check_tx_sig S tx input_num redeemscript witness_script key sg =
     do {
       hash \<leftarrow> sha256_tx_one_input tx input_num redeemscript witness_script;
       Some (check_signed_hash S hash sg key)
     }"

section \<open>A new transaction\<close>

text \<open>The function \<^verbatim>\<open>bitcoin_tx\<close>: zeroed inputs and outputs, final sequence numbers.\<close>

definition bitcoin_tx_alloc :: "nat \<Rightarrow> nat \<Rightarrow> bitcoin_tx" where
  "bitcoin_tx_alloc input_count output_count =
     \<lparr>tx_version = 2,
      tx_input = replicate input_count
        \<lparr>ti_txid = replicate 32 0, ti_index = 0, ti_script = None,
         ti_sequence_number = 0xFFFFFFFF, ti_amount = None, ti_witness = None\<rparr>,
      tx_output = replicate output_count \<lparr>to_amount = 0, to_script = []\<rparr>,
      tx_lock_time = 0\<rparr>"

section \<open>Parsing\<close>

definition pull_sha256_double :: "cursor \<Rightarrow> (bytes \<times> cursor) option" where
  "pull_sha256_double c = do { (r, c) \<leftarrow> pull c 32; Some (copied 32 r, c) }"

definition pull_value :: "cursor \<Rightarrow> (u64 \<times> cursor) option" where
  "pull_value c = pull_le64 c"

text \<open>\<^verbatim>\<open>v * mult\<close> is a 64-bit product; \<open>item_size\<close> is \<^verbatim>\<open>mult\<close>.\<close>

definition pull_length :: "cursor \<Rightarrow> u64 \<Rightarrow> (u64 \<times> cursor) option" where
  "pull_length c item_size =
     do {
       (v, c) \<leftarrow> pull_varint c;
       if v * item_size > of_nat (cursor_max c) then Some (0, None) else Some (v, c)
     }"

text \<open>
  The input array is not zeroed, and \<^verbatim>\<open>pull_input\<close> never sets the amount: \<open>uninit\<close> is what
  the field happens to hold. \<^verbatim>\<open>witness\<close> is set later, by \<^verbatim>\<open>pull_witness\<close> or to NULL.
\<close>

definition pull_input :: "u64 option \<Rightarrow> cursor \<Rightarrow> (bitcoin_tx_input \<times> cursor) option" where
  "pull_input uninit c =
     do {
       (txid, c) \<leftarrow> pull_sha256_double c;
       (index, c) \<leftarrow> pull_le32 c;
       (script_len, c) \<leftarrow> pull_length c 1;
       (r, c) \<leftarrow> pull c (unat script_len);
       let script = (if script_len \<noteq> 0 then Some (copied (unat script_len) r) else None);
       (seq, c) \<leftarrow> pull_le32 c;
       Some (\<lparr>ti_txid = txid, ti_index = index, ti_script = script, ti_sequence_number = seq,
              ti_amount = uninit, ti_witness = None\<rparr>, c)
     }"

definition pull_output :: "cursor \<Rightarrow> (bitcoin_tx_output \<times> cursor) option" where
  "pull_output c =
     do {
       (amount, c) \<leftarrow> pull_value c;
       (len, c) \<leftarrow> pull_length c 1;
       (r, c) \<leftarrow> pull c (unat len);
       Some (\<lparr>to_amount = amount, to_script = copied (unat len) r\<rparr>, c)
     }"

definition pull_witness_item :: "cursor \<Rightarrow> (bytes \<times> cursor) option" where
  "pull_witness_item c =
     do {
       (len, c) \<leftarrow> pull_length c 1;
       (r, c) \<leftarrow> pull c (unat len);
       Some (copied (unat len) r, c)
     }"

text \<open>The \<^verbatim>\<open>for\<close> loops of the parser: \<open>n\<close> items one after another.\<close>

primrec pull_items :: "nat \<Rightarrow> (cursor \<Rightarrow> ('a \<times> cursor) option) \<Rightarrow> cursor \<Rightarrow> ('a list \<times> cursor) option" where
  "pull_items 0 f c = Some ([], c)"
| "pull_items (Suc n) f c =
     do { (x, c) \<leftarrow> f c; (xs, c) \<leftarrow> pull_items n f c; Some (x # xs, c) }"

definition pull_witness :: "cursor \<Rightarrow> (bytes list option \<times> cursor) option" where
  "pull_witness c =
     do {
       (num, c) \<leftarrow> pull_length c 1;
       if num = 0 then Some (None, c)
       else do { (w, c) \<leftarrow> pull_items (unat num) pull_witness_item c; Some (Some w, c) }
     }"

definition pull_bitcoin_tx :: "u64 option \<Rightarrow> cursor \<Rightarrow> (bitcoin_tx option \<times> cursor) option" where
  "pull_bitcoin_tx uninit c =
     do {
       (version, c) \<leftarrow> pull_le32 c;
       (count, c) \<leftarrow> pull_length c (32 + 4 + 4 + 1);
       (flag, bad, count, c) \<leftarrow>
         (if count = 0
          then do {
            (r, c) \<leftarrow> pull c 1;
            let flag = copied 1 r ! 0;
            if flag \<noteq> SEGREGATED_WITNESS_FLAG then Some (flag, True, count, c)
            else do { (count, c) \<leftarrow> pull_length c (32 + 4 + 4 + 1); Some (flag, False, count, c) }
          }
          else Some (0, False, count, c));
       if bad then Some (None, c)
       else do {
         (ins, c) \<leftarrow> pull_items (unat count) (pull_input uninit) c;
         (count, c) \<leftarrow> pull_length c (8 + 1);
         (outs, c) \<leftarrow> pull_items (unat count) pull_output c;
         (wits, c) \<leftarrow>
           (if flag AND SEGREGATED_WITNESS_FLAG \<noteq> 0
            then pull_items (length ins) pull_witness c
            else Some (replicate (length ins) None, c));
         (lock_time, c) \<leftarrow> pull_le32 c;
         Some (if c = None then None
               else Some \<lparr>tx_version = version,
                          tx_input = map2 (\<lambda>i w. i\<lparr>ti_witness := w\<rparr>) ins wits,
                          tx_output = outs, tx_lock_time = lock_time\<rparr>, c)
       }
     }"

definition reverse_bytes :: "bytes \<Rightarrow> bytes" where
  "reverse_bytes arr =
     fold (\<lambda>i arr. arr[i := arr ! (length arr - 1 - i), length arr - 1 - i := arr ! i])
       [0..<length arr div 2] arr"

section \<open>The serialization as bytes\<close>

definition input_bytes :: "bitcoin_tx_input \<Rightarrow> bytes" where
  "input_bytes i = ti_txid i @ cpu_to_le32 (ti_index i) @ varint_blob (blob_of (ti_script i)) @
     cpu_to_le32 (ti_sequence_number i)"

definition output_bytes :: "bitcoin_tx_output \<Rightarrow> bytes" where
  "output_bytes out = cpu_to_le64 (to_amount out) @ varint_blob (to_script out)"

definition witness_bytes :: "bitcoin_tx_input \<Rightarrow> bytes" where
  "witness_bytes i = (case ti_witness i of
     None \<Rightarrow> varint_put 0
   | Some w \<Rightarrow> varint_put (of_nat (length w)) @ concat (map varint_blob w))"

definition tx_bytes :: "bitcoin_tx \<Rightarrow> bool \<Rightarrow> bytes" where
  "tx_bytes tx segwit =
     cpu_to_le32 (tx_version tx) @ (if segwit then [0, 1] else []) @
     varint_put (of_nat (length (tx_input tx))) @ concat (map input_bytes (tx_input tx)) @
     varint_put (of_nat (length (tx_output tx))) @ concat (map output_bytes (tx_output tx)) @
     (if segwit then concat (map witness_bytes (tx_input tx)) else []) @
     cpu_to_le32 (tx_lock_time tx)"

context push_sink
begin

lemma rep_tx_input: "rep s m \<Longrightarrow> rep (push_tx_input push i s) (m @ input_bytes i)"
  using rep_le32 [OF rep_varint_blob [OF rep_le32 [OF rep_push]], of s m]
  by (simp add: push_tx_input_def input_bytes_def)

lemma rep_tx_output: "rep s m \<Longrightarrow> rep (push_tx_output push out s) (m @ output_bytes out)"
  using rep_varint_blob [OF rep_le64, of s m] by (simp add: push_tx_output_def output_bytes_def)

lemma rep_input_witness: "rep s m \<Longrightarrow> rep (push_input_witness push i s) (m @ witness_bytes i)"
proof -
  assume r: "rep s m"
  have "rep (fold (push_witness push) w (push_varint push n s)) ((m @ varint_put n) @ concat (map varint_blob w))"
    for w n by (intro rep_fold rep_varint r) (simp add: push_witness_def rep_varint_blob)
  then show ?thesis
    using rep_varint [OF r, of 0]
    by (cases "ti_witness i") (simp_all add: push_input_witness_def witness_bytes_def)
qed

lemma rep_witnesses:
  "rep s m \<Longrightarrow> rep (push_witnesses push tx s) (m @ concat (map witness_bytes (tx_input tx)))"
  unfolding push_witnesses_def by (intro rep_fold rep_input_witness)

text \<open>Whatever the sink, it receives the serialization.\<close>

lemma rep_tx:
  assumes r: "rep s m"
  shows "rep (push_tx push tx bip144 s) (m @ tx_bytes tx (bip144 \<and> uses_witness tx))"
proof -
  let ?b = "bip144 \<and> uses_witness tx"
  let ?s1 = "push_le32 push (tx_version tx) s"
  let ?s2 = "if ?b then push [1] (push [0] ?s1) else ?s1"
  let ?s3 = "fold (push_tx_input push) (tx_input tx) (push_varint push (of_nat (length (tx_input tx))) ?s2)"
  let ?s4 = "fold (push_tx_output push) (tx_output tx) (push_varint push (of_nat (length (tx_output tx))) ?s3)"
  let ?s5 = "if ?b then push_witnesses push tx ?s4 else ?s4"
  let ?m2 = "(m @ cpu_to_le32 (tx_version tx)) @ (if ?b then [0, 1] else [])"
  let ?m3 = "(?m2 @ varint_put (of_nat (length (tx_input tx)))) @ concat (map input_bytes (tx_input tx))"
  let ?m4 = "(?m3 @ varint_put (of_nat (length (tx_output tx)))) @ concat (map output_bytes (tx_output tx))"
  have 2: "rep ?s2 ?m2"
    using rep_push [OF rep_push [OF rep_le32 [OF r, of "tx_version tx"], of "[0]"], of "[1]"] rep_le32 [OF r]
    by auto
  have 3: "rep ?s3 ?m3" by (intro rep_fold rep_tx_input rep_varint 2)
  have 4: "rep ?s4 ?m4" by (intro rep_fold rep_tx_output rep_varint 3)
  have 5: "rep ?s5 (?m4 @ (if ?b then concat (map witness_bytes (tx_input tx)) else []))"
  proof (cases ?b)
    case True
    with rep_witnesses [OF 4, of tx] show ?thesis by simp
  next
    case False
    with 4 show ?thesis by auto
  qed
  have "push_tx push tx bip144 s = push_le32 push (tx_lock_time tx) ?s5"
    by (simp add: push_tx_def SEGREGATED_WITNESS_FLAG_def)
  with rep_le32 [OF 5] show ?thesis by (simp add: tx_bytes_def)
qed

end

interpretation linear: push_sink push_linearize "(=)"
  by unfold_locales (simp add: push_linearize_def)

interpretation size_sink: push_sink push_measure "\<lambda>s m. s = of_nat (length m)"
  by unfold_locales (simp add: push_measure_def)

text \<open>A context stands for its message as long as the message is shorter than the byte counter's poison value.\<close>

definition sha_sink_rep :: "hash_ctx option \<Rightarrow> bytes \<Rightarrow> bool" where
  "sha_sink_rep s m \<longleftrightarrow> (length m < 2 ^ 64 - 1 \<longrightarrow> (\<exists>ctx. s = Some ctx \<and> sha256_rep ctx m))"

interpretation sha_sink: push_sink push_sha sha_sink_rep
proof unfold_locales
  fix s m d assume r: "sha_sink_rep s m"
  show "sha_sink_rep (push_sha d s) (m @ d)"
    unfolding sha_sink_rep_def
  proof
    assume l: "length (m @ d) < 2 ^ 64 - 1"
    with r obtain ctx where "s = Some ctx" "sha256_rep ctx m" by (auto simp: sha_sink_rep_def)
    moreover from l have "length m < 2 ^ 64 - 1" by simp
    ultimately show "\<exists>ctx. push_sha d s = Some ctx \<and> sha256_rep ctx (m @ d)"
      using sha256_update_rep [of ctx m d] by (simp add: push_sha_def)
  qed
qed

lemma sha_sink_init [simp]: "sha_sink_rep (Some SHA256_INIT) []" "sha_sink_rep (Some sha256_init) []"
  by (simp_all add: sha_sink_rep_def sha256_rep_init sha256_init_def)

lemma sha_sink_done:
  "sha_sink_rep s m \<Longrightarrow> length m < 2 ^ 64 - 1 \<Longrightarrow> map_option sha256_double_done s = Some (sha256_double m)"
  by (auto simp: sha_sink_rep_def sha256_double_done_rep)

lemma linearize_tx_bytes: "linearize_tx tx = tx_bytes tx (uses_witness tx)"
  using linear.rep_tx [of "[]" "[]" tx True] by (simp add: linearize_tx_def)

lemma bitcoin_txid_bytes:
  "length (tx_bytes tx False) < 2 ^ 64 - 1 \<Longrightarrow> bitcoin_txid tx = Some (sha256_double (tx_bytes tx False))"
  using sha_sink.rep_tx [OF sha_sink_init(1), of tx False] sha_sink_done by (simp add: bitcoin_txid_def)

text \<open>The weight counts every byte of the base serialization four times, every other byte once.\<close>

lemma measure_tx_weight_bytes:
  "measure_tx_weight tx =
     of_nat (3 * length (tx_bytes tx False) + length (tx_bytes tx (uses_witness tx)))"
proof -
  have "push_tx push_measure tx False 0 = of_nat (length (tx_bytes tx False))"
    using size_sink.rep_tx [of 0 "[]" tx False] by simp
  moreover have "push_witnesses push_measure tx 0 = of_nat (length (concat (map witness_bytes (tx_input tx))))"
    using size_sink.rep_witnesses [of 0 "[]" tx] by simp
  ultimately show ?thesis
    by (simp add: measure_tx_weight_def tx_bytes_def algebra_simps)
qed

section \<open>What is signed\<close>

definition prevouts_bytes :: "bitcoin_tx \<Rightarrow> bytes" where
  "prevouts_bytes tx = concat (map (\<lambda>i. ti_txid i @ cpu_to_le32 (ti_index i)) (tx_input tx))"

definition sequence_bytes :: "bitcoin_tx \<Rightarrow> bytes" where
  "sequence_bytes tx = concat (map (\<lambda>i. cpu_to_le32 (ti_sequence_number i)) (tx_input tx))"

definition outputs_bytes :: "bitcoin_tx \<Rightarrow> bytes" where
  "outputs_bytes tx = concat (map output_bytes (tx_output tx))"

definition bip143_bytes :: "bitcoin_tx \<Rightarrow> bitcoin_tx_input \<Rightarrow> bytes \<Rightarrow> u64 \<Rightarrow> bytes" where
  "bip143_bytes tx input script amount =
     cpu_to_le32 (tx_version tx) @ sha256_double (prevouts_bytes tx) @ sha256_double (sequence_bytes tx) @
     ti_txid input @ cpu_to_le32 (ti_index input) @ varint_blob script @ cpu_to_le64 amount @
     cpu_to_le32 (ti_sequence_number input) @ sha256_double (outputs_bytes tx) @ cpu_to_le32 (tx_lock_time tx)"

lemma length_concat_map_le:
  "(\<And>x. length (f x) \<le> length (g x)) \<Longrightarrow> length (concat (map f xs)) \<le> length (concat (map g xs))"
  by (induction xs) (auto intro: add_mono)

lemma length_prevouts_bytes: "length (prevouts_bytes tx) \<le> length (tx_bytes tx False)"
  using length_concat_map_le [of "\<lambda>i. ti_txid i @ cpu_to_le32 (ti_index i)" input_bytes "tx_input tx"]
  by (simp add: prevouts_bytes_def tx_bytes_def input_bytes_def)

lemma length_sequence_bytes: "length (sequence_bytes tx) \<le> length (tx_bytes tx False)"
  using length_concat_map_le [of "\<lambda>i. cpu_to_le32 (ti_sequence_number i)" input_bytes "tx_input tx"]
  by (simp add: sequence_bytes_def tx_bytes_def input_bytes_def)

lemma length_outputs_bytes: "length (outputs_bytes tx) \<le> length (tx_bytes tx False)"
  by (simp add: outputs_bytes_def tx_bytes_def)

lemma length_txid_bytes:
  "i \<in> set (tx_input tx) \<Longrightarrow> length (ti_txid i) \<le> length (tx_bytes tx False)"
proof -
  assume "i \<in> set (tx_input tx)"
  then have "length (input_bytes i) \<le> length (concat (map input_bytes (tx_input tx)))"
    by (induction "tx_input tx" arbitrary: tx) (auto simp: length_concat intro: member_le_sum_list)
  then show ?thesis by (simp add: input_bytes_def tx_bytes_def)
qed

lemma hash_prevouts_bytes:
  "length (tx_bytes tx False) < 2 ^ 63 \<Longrightarrow> hash_prevouts tx = Some (sha256_double (prevouts_bytes tx))"
proof -
  assume "length (tx_bytes tx False) < 2 ^ 63"
  then have "length (prevouts_bytes tx) < 2 ^ 64 - 1" using length_prevouts_bytes [of tx] by simp
  moreover have "sha_sink_rep (fold (\<lambda>i ctx. push_le32 push_sha (ti_index i) (push_sha (ti_txid i) ctx))
      (tx_input tx) (Some sha256_init)) ([] @ prevouts_bytes tx)"
    unfolding prevouts_bytes_def
    by (rule sha_sink.rep_fold) (use sha_sink.rep_le32 [OF sha_sink.rep_push] in simp_all)
  ultimately show ?thesis using sha_sink_done by (simp add: hash_prevouts_def)
qed

lemma hash_sequence_bytes:
  "length (tx_bytes tx False) < 2 ^ 63 \<Longrightarrow> hash_sequence tx = Some (sha256_double (sequence_bytes tx))"
proof -
  assume "length (tx_bytes tx False) < 2 ^ 63"
  then have "length (sequence_bytes tx) < 2 ^ 64 - 1" using length_sequence_bytes [of tx] by simp
  moreover have "sha_sink_rep (fold (\<lambda>i. push_le32 push_sha (ti_sequence_number i))
      (tx_input tx) (Some sha256_init)) ([] @ sequence_bytes tx)"
    unfolding sequence_bytes_def
    by (rule sha_sink.rep_fold) (simp_all add: sha_sink.rep_le32)
  ultimately show ?thesis using sha_sink_done by (simp add: hash_sequence_def)
qed

lemma hash_outputs_bytes:
  "length (tx_bytes tx False) < 2 ^ 63 \<Longrightarrow> hash_outputs tx = Some (sha256_double (outputs_bytes tx))"
proof -
  assume "length (tx_bytes tx False) < 2 ^ 63"
  then have "length (outputs_bytes tx) < 2 ^ 64 - 1" using length_outputs_bytes [of tx] by simp
  moreover have "sha_sink_rep (fold (\<lambda>out ctx. push_varint_blob push_sha (to_script out)
      (push_le64 push_sha (to_amount out) ctx)) (tx_output tx) (Some sha256_init)) ([] @ outputs_bytes tx)"
    unfolding outputs_bytes_def
    by (rule sha_sink.rep_fold)
      (use sha_sink.rep_varint_blob [OF sha_sink.rep_le64] in \<open>simp_all add: output_bytes_def\<close>)
  ultimately show ?thesis using sha_sink_done by (simp add: hash_outputs_def)
qed

text \<open>A failed context stays failed, so the chain of pushes may be read as a composition.\<close>

lemma push_sha_chain:
  "(A \<bind> (\<lambda>c. push_sha d (Some c))) = push_sha d A"
  "(A \<bind> (\<lambda>c. push_le32 push_sha v (Some c))) = push_le32 push_sha v A"
  "(A \<bind> (\<lambda>c. push_sha d (Some c) \<bind> g)) = push_sha d A \<bind> g"
  "(A \<bind> (\<lambda>c. push_le32 push_sha v (Some c) \<bind> g)) = push_le32 push_sha v A \<bind> g"
  "(A \<bind> (\<lambda>c. push_le64 push_sha w (Some c) \<bind> g)) = push_le64 push_sha w A \<bind> g"
  "(A \<bind> (\<lambda>c. push_varint_blob push_sha d (Some c) \<bind> g)) = push_varint_blob push_sha d A \<bind> g"
  by (cases A; simp add: push_sha_def push_le32_def push_le64_def push_varint_blob_def push_varint_def)+

lemma bind_weak_cong: "A = B \<Longrightarrow> Option.bind A f = Option.bind B f"
  by simp

lemma hash_for_segwit_rep:
  assumes "length (tx_bytes tx False) < 2 ^ 63" and "ti_amount (tx_input tx ! n) = Some amount"
  shows "sha_sink_rep (hash_for_segwit (Some SHA256_INIT) tx n script)
    (bip143_bytes tx (tx_input tx ! n) script amount)"
proof -
  let ?i = "tx_input tx ! n"
  have "hash_for_segwit (Some SHA256_INIT) tx n script =
      push_le32 push_sha (tx_lock_time tx) (push_sha (sha256_double (outputs_bytes tx))
       (push_le32 push_sha (ti_sequence_number ?i) (push_le64 push_sha amount
         (push_varint_blob push_sha script (push_le32 push_sha (ti_index ?i) (push_sha (ti_txid ?i)
           (push_sha (sha256_double (sequence_bytes tx)) (push_sha (sha256_double (prevouts_bytes tx))
             (push_le32 push_sha (tx_version tx) (Some SHA256_INIT))))))))))"
    unfolding hash_for_segwit_def Let_def hash_prevouts_bytes [OF assms(1)] hash_sequence_bytes [OF assms(1)]
      hash_outputs_bytes [OF assms(1)] assms(2) Option.bind.simps
    by (simp only: push_sha_chain cong: bind_weak_cong)
  moreover have "sha_sink_rep (push_le32 push_sha (tx_lock_time tx) (push_sha (sha256_double (outputs_bytes tx))
       (push_le32 push_sha (ti_sequence_number ?i) (push_le64 push_sha amount
         (push_varint_blob push_sha script (push_le32 push_sha (ti_index ?i) (push_sha (ti_txid ?i)
           (push_sha (sha256_double (sequence_bytes tx)) (push_sha (sha256_double (prevouts_bytes tx))
             (push_le32 push_sha (tx_version tx) (Some SHA256_INIT)))))))))))
    (((((((((([] @ cpu_to_le32 (tx_version tx)) @ sha256_double (prevouts_bytes tx)) @
      sha256_double (sequence_bytes tx)) @ ti_txid ?i) @ cpu_to_le32 (ti_index ?i)) @ varint_blob script) @
      cpu_to_le64 amount) @ cpu_to_le32 (ti_sequence_number ?i)) @ sha256_double (outputs_bytes tx)) @
      cpu_to_le32 (tx_lock_time tx))"
    by (intro sha_sink.rep_pushes sha_sink_init)
  ultimately show ?thesis by (simp add: bip143_bytes_def)
qed
section \<open>Parsing what was written\<close>

lemma pull_length_app:
  assumes "n * k \<le> length r" "length r < 2 ^ 64" "n < 2 ^ 64" "0 < k"
  shows "pull_length (Some (varint_put (of_nat n) @ r)) (of_nat k) = Some (of_nat n, Some r)"
proof -
  have "(of_nat n * of_nat k :: u64) = of_nat (n * k)" by simp
  then have "\<not> of_nat n * of_nat k > (of_nat (length r) :: u64)"
    using assms by (simp only: word_less_nat_alt) (simp add: unat_of_nat_u64 del: of_nat_mult)
  then show ?thesis by (simp add: pull_length_def cursor_max_def cursor_bytes_def)
qed

lemma pull_length_1 [simp]:
  "n \<le> length r \<Longrightarrow> length r < 2 ^ 64 \<Longrightarrow>
    pull_length (Some (varint_put (of_nat n) @ r)) 1 = Some (of_nat n, Some r)"
  using pull_length_app [of n 1 r] by simp

lemma pull_items_app:
  assumes "\<And>x r. x \<in> set xs \<Longrightarrow> length (g x @ r) < 2 ^ 64 \<Longrightarrow> f (Some (g x @ r)) = Some (h x, Some r)"
    and "length (concat (map g xs) @ r) < 2 ^ 64"
  shows "pull_items (length xs) f (Some (concat (map g xs) @ r)) = Some (map h xs, Some r)"
  using assms
proof (induction xs)
  case Nil
  then show ?case by simp
next
  case (Cons x xs)
  have "f (Some (g x @ concat (map g xs) @ r)) = Some (h x, Some (concat (map g xs) @ r))"
    using Cons.prems(2) by (intro Cons.prems(1)) simp_all
  moreover have "pull_items (length xs) f (Some (concat (map g xs) @ r)) = Some (map h xs, Some r)"
    using Cons.prems by (intro Cons.IH) simp_all
  ultimately show ?case by simp
qed

lemma pull_input_app:
  assumes "length (ti_txid i) = 32" "ti_script i \<noteq> Some []" "length (input_bytes i @ r) < 2 ^ 64"
  shows "pull_input uninit (Some (input_bytes i @ r)) =
    Some (i\<lparr>ti_amount := uninit, ti_witness := None\<rparr>, Some r)"
proof -
  have l: "length (blob_of (ti_script i)) < 2 ^ 64"
    using assms(3) by (simp add: input_bytes_def varint_blob_def)
  then have u: "unat (of_nat (length (blob_of (ti_script i))) :: u64) = length (blob_of (ti_script i))"
    by (simp add: unat_of_nat_u64)
  show ?thesis
  proof (cases "ti_script i")
    case None
    then show ?thesis
      using assms pull_length_1 [of 0]
      by (simp add: pull_input_def input_bytes_def varint_blob_def pull_sha256_double_def copied_def blob_of_def)
  next
    case (Some b)
    with assms(2) u have "of_nat (length b) \<noteq> (0 :: u64)" by (auto simp: blob_of_def)
    then show ?thesis
      using assms u Some
      by (simp add: pull_input_def input_bytes_def varint_blob_def pull_sha256_double_def copied_def blob_of_def)
  qed
qed

lemma pull_blob:
  "length (varint_blob b @ r) < 2 ^ 64 \<Longrightarrow>
    pull_length (Some (varint_blob b @ r)) 1 = Some (of_nat (length b), Some (b @ r)) \<and>
    unat (of_nat (length b) :: u64) = length b"
  by (simp add: varint_blob_def unat_of_nat_u64)

lemma pull_output_app:
  "length (output_bytes out @ r) < 2 ^ 64 \<Longrightarrow> pull_output (Some (output_bytes out @ r)) = Some (out, Some r)"
  using pull_blob [of "to_script out" r]
  by (simp add: pull_output_def output_bytes_def pull_value_def copied_def)

lemma pull_witness_item_app:
  "length (varint_blob b @ r) < 2 ^ 64 \<Longrightarrow> pull_witness_item (Some (varint_blob b @ r)) = Some (b, Some r)"
  using pull_blob [of b r] by (simp add: pull_witness_item_def copied_def)

lemma length_concat_ge: "(\<And>x. k \<le> length (g x)) \<Longrightarrow> length xs * k \<le> length (concat (map g xs))"
  by (induction xs) (auto intro: add_mono)

lemma pull_witness_app:
  assumes "ti_witness i \<noteq> Some []" "length (witness_bytes i @ r) < 2 ^ 64"
  shows "pull_witness (Some (witness_bytes i @ r)) = Some (ti_witness i, Some r)"
proof (cases "ti_witness i")
  case None
  then show ?thesis using assms pull_length_1 [of 0 r] by (simp add: pull_witness_def witness_bytes_def)
next
  case (Some w)
  have n: "length w \<le> length (concat (map varint_blob w) @ r)"
    using length_concat_ge [of 1 varint_blob w, OF length_varint_blob_pos] by simp
  have l: "length (concat (map varint_blob w) @ r) < 2 ^ 64" using assms Some by (simp add: witness_bytes_def)
  have "unat (of_nat (length w) :: u64) = length w" using n l by (simp add: unat_of_nat_u64)
  moreover from this have "of_nat (length w) \<noteq> (0 :: u64)" using assms Some by auto
  moreover have "pull_items (length w) pull_witness_item (Some (concat (map varint_blob w) @ r)) = Some (map id w, Some r)"
    using l by (intro pull_items_app) (simp_all add: pull_witness_item_app)
  ultimately show ?thesis
    using Some pull_length_1 [OF n l] by (simp add: pull_witness_def witness_bytes_def)
qed

text \<open>
  The transactions the format can express: at least one input, 32-byte ids, no empty script
  or witness where NULL is meant.
\<close>

definition wf_input :: "bitcoin_tx_input \<Rightarrow> bool" where
  "wf_input i \<longleftrightarrow> length (ti_txid i) = 32 \<and> ti_script i \<noteq> Some [] \<and> ti_witness i \<noteq> Some []"

definition wf_tx :: "bitcoin_tx \<Rightarrow> bool" where
  "wf_tx tx \<longleftrightarrow> tx_input tx \<noteq> [] \<and> list_all wf_input (tx_input tx)"

lemma length_input_bytes: "length (ti_txid i) = 32 \<Longrightarrow> 41 \<le> length (input_bytes i)"
  using length_varint_blob_pos [of "blob_of (ti_script i)"] by (simp add: input_bytes_def)

lemma length_output_bytes: "9 \<le> length (output_bytes out)"
  using length_varint_blob_pos [of "to_script out"] by (simp add: output_bytes_def)

lemma length_concat_ge_set: "(\<And>x. x \<in> set xs \<Longrightarrow> k \<le> length (g x)) \<Longrightarrow> length xs * k \<le> length (concat (map g xs))"
  by (induction xs) (auto intro: add_mono)

lemma pull_inputs_count:
  assumes ins: "\<And>i. i \<in> set ins \<Longrightarrow> length (ti_txid i) = 32"
    and len: "length (concat (map input_bytes ins) @ r) < 2 ^ 63"
  shows "pull_length (Some (varint_put (of_nat (length ins)) @ concat (map input_bytes ins) @ r)) (32 + 4 + 4 + 1) =
      Some (of_nat (length ins), Some (concat (map input_bytes ins) @ r))"
    and "unat (of_nat (length ins) :: u64) = length ins"
proof -
  have "length ins * 41 \<le> length (concat (map input_bytes ins))"
    using ins by (intro length_concat_ge_set) (simp add: length_input_bytes)
  with len show "pull_length (Some (varint_put (of_nat (length ins)) @ concat (map input_bytes ins) @ r)) (32 + 4 + 4 + 1) =
      Some (of_nat (length ins), Some (concat (map input_bytes ins) @ r))"
    and "unat (of_nat (length ins) :: u64) = length ins"
    using pull_length_app [of "length ins" 41 "concat (map input_bytes ins) @ r"]
    by (simp_all add: unat_of_nat_u64)
qed

lemma pull_outputs_count:
  assumes len: "length (concat (map output_bytes outs) @ r) < 2 ^ 63"
  shows "pull_length (Some (varint_put (of_nat (length outs)) @ concat (map output_bytes outs) @ r)) (8 + 1) =
      Some (of_nat (length outs), Some (concat (map output_bytes outs) @ r))"
    and "unat (of_nat (length outs) :: u64) = length outs"
proof -
  have "length outs * 9 \<le> length (concat (map output_bytes outs))"
    by (intro length_concat_ge length_output_bytes)
  with len show "pull_length (Some (varint_put (of_nat (length outs)) @ concat (map output_bytes outs) @ r)) (8 + 1) =
      Some (of_nat (length outs), Some (concat (map output_bytes outs) @ r))"
    and "unat (of_nat (length outs) :: u64) = length outs"
    using pull_length_app [of "length outs" 9 "concat (map output_bytes outs) @ r"]
    by (simp_all add: unat_of_nat_u64)
qed

lemma pull_inputs_app:
  "list_all wf_input ins \<Longrightarrow> length (concat (map input_bytes ins) @ r) < 2 ^ 63 \<Longrightarrow>
    pull_items (length ins) (pull_input uninit) (Some (concat (map input_bytes ins) @ r)) =
      Some (map (\<lambda>i. i\<lparr>ti_amount := uninit, ti_witness := None\<rparr>) ins, Some r)"
  by (intro pull_items_app pull_input_app) (auto simp: list_all_iff wf_input_def)

lemma pull_outputs_app:
  "length (concat (map output_bytes outs) @ r) < 2 ^ 63 \<Longrightarrow>
    pull_items (length outs) pull_output (Some (concat (map output_bytes outs) @ r)) = Some (outs, Some r)"
  using pull_items_app [of outs output_bytes pull_output id r] pull_output_app by simp

lemma pull_witnesses_app:
  "list_all wf_input ins \<Longrightarrow> length (concat (map witness_bytes ins) @ r) < 2 ^ 63 \<Longrightarrow>
    pull_items (length ins) pull_witness (Some (concat (map witness_bytes ins) @ r)) =
      Some (map ti_witness ins, Some r)"
  by (intro pull_items_app pull_witness_app) (auto simp: list_all_iff wf_input_def)

definition forget_amounts :: "u64 option \<Rightarrow> bitcoin_tx \<Rightarrow> bitcoin_tx" where
  "forget_amounts uninit tx = tx\<lparr>tx_input := map (\<lambda>i. i\<lparr>ti_amount := uninit\<rparr>) (tx_input tx)\<rparr>"

lemma merge_witnesses:
  "map2 (\<lambda>i w. i\<lparr>ti_witness := w\<rparr>) (map (\<lambda>i. i\<lparr>ti_amount := u, ti_witness := None\<rparr>) ins) (map ti_witness ins) =
    map (\<lambda>i. i\<lparr>ti_amount := u\<rparr>) ins"
  by (induction ins) auto

lemma pull_tx_no_witness:
  assumes wf: "wf_tx tx" and len: "length (tx_bytes tx False @ r) < 2 ^ 63"
    and none: "\<And>i. i \<in> set (tx_input tx) \<Longrightarrow> ti_witness i = None"
  shows "pull_bitcoin_tx uninit (Some (tx_bytes tx False @ r)) = Some (Some (forget_amounts uninit tx), Some r)"
proof -
  let ?ins = "tx_input tx" and ?outs = "tx_output tx"
  let ?r = "cpu_to_le32 (tx_lock_time tx) @ r"
  let ?b = "concat (map input_bytes ?ins) @ varint_put (of_nat (length ?outs)) @ concat (map output_bytes ?outs) @ ?r"
  have l: "length ?b < 2 ^ 63" and l2: "length (concat (map output_bytes ?outs) @ ?r) < 2 ^ 63"
    using len by (simp_all add: tx_bytes_def)
  have t: "length (ti_txid i) = 32" if "i \<in> set ?ins" for i
    using wf that by (auto simp: wf_tx_def list_all_iff wf_input_def)
  have w: "list_all wf_input ?ins" using wf by (simp add: wf_tx_def)
  note c = pull_inputs_count [OF t l]
  have n0: "of_nat (length ?ins) \<noteq> (0 :: u64)" using c(2) wf by (auto simp: wf_tx_def)
  have m: "map2 (\<lambda>i w. i\<lparr>ti_witness := w\<rparr>) (map (\<lambda>i. i\<lparr>ti_amount := uninit, ti_witness := None\<rparr>) ?ins)
      (replicate (length ?ins) None) = map (\<lambda>i. i\<lparr>ti_amount := uninit\<rparr>) ?ins"
  proof -
    have "replicate (length ?ins) None = map ti_witness ?ins"
      using none by (intro nth_equalityI) simp_all
    then show ?thesis by (simp only: merge_witnesses)
  qed
  have "tx_bytes tx False @ r = cpu_to_le32 (tx_version tx) @ varint_put (of_nat (length ?ins)) @ ?b"
    by (simp add: tx_bytes_def)
  then show ?thesis
    using n0 c pull_inputs_app [OF w l] pull_outputs_count [OF l2] pull_outputs_app [OF l2] m
    by (simp add: pull_bitcoin_tx_def forget_amounts_def)
qed

lemma pull_tx_witness:
  assumes wf: "wf_tx tx" and len: "length (tx_bytes tx True @ r) < 2 ^ 63"
  shows "pull_bitcoin_tx uninit (Some (tx_bytes tx True @ r)) = Some (Some (forget_amounts uninit tx), Some r)"
proof -
  let ?ins = "tx_input tx" and ?outs = "tx_output tx"
  let ?r = "concat (map witness_bytes ?ins) @ cpu_to_le32 (tx_lock_time tx) @ r"
  let ?b = "concat (map input_bytes ?ins) @ varint_put (of_nat (length ?outs)) @ concat (map output_bytes ?outs) @ ?r"
  have l: "length ?b < 2 ^ 63" and l2: "length (concat (map output_bytes ?outs) @ ?r) < 2 ^ 63"
    and l3: "length ?r < 2 ^ 63" using len by (simp_all add: tx_bytes_def)
  have t: "length (ti_txid i) = 32" if "i \<in> set ?ins" for i
    using wf that by (auto simp: wf_tx_def list_all_iff wf_input_def)
  have w: "list_all wf_input ?ins" using wf by (simp add: wf_tx_def)
  note c = pull_inputs_count [OF t l]
  have z: "pull_length (Some (varint_put 0 @ p)) 41 = Some (0, Some p)" if "length p < 2 ^ 64" for p
    using pull_length_app [of 0 41 p] that by simp
  have one: "pull (Some (1 # p)) 1 = Some (Some [1], Some p)" for p
    using pull_app [of "[1]" 1 p] by simp
  have "tx_bytes tx True @ r =
      cpu_to_le32 (tx_version tx) @ varint_put 0 @ 1 # varint_put (of_nat (length ?ins)) @ ?b"
    by (simp add: tx_bytes_def varint_put_def)
  moreover have "length (1 # varint_put (of_nat (length ?ins)) @ ?b) < 2 ^ 64"
    using len by (simp add: tx_bytes_def)
  ultimately show ?thesis
    using c pull_inputs_app [OF w l] pull_outputs_count [OF l2] pull_outputs_app [OF l2]
      pull_witnesses_app [OF w l3] merge_witnesses [of uninit ?ins] z one
    by (simp add: pull_bitcoin_tx_def forget_amounts_def copied_def SEGREGATED_WITNESS_FLAG_def)
qed

section \<open>Properties\<close>

definition sample_input :: bitcoin_tx_input where
  "sample_input = \<lparr>ti_txid = replicate 32 7, ti_index = 1, ti_script = None,
     ti_sequence_number = 0xFFFFFFFF, ti_amount = Some 5000, ti_witness = Some [[], [1, 2]]\<rparr>"

definition sample_tx :: bitcoin_tx where
  "sample_tx = \<lparr>tx_version = 2, tx_input = [sample_input],
     tx_output = [\<lparr>to_amount = 4000, to_script = [0, 1, 9]\<rparr>], tx_lock_time = 77\<rparr>"

text \<open>
  C18: parsing the linearization of a transaction, with anything after it, gives the transaction
  back and leaves the rest: with and without witness data, and up to the input amounts, which
  are not part of the format.
\<close>

theorem tx_roundtrip:
  assumes "wf_tx tx" and "length (linearize_tx tx @ r) < 2 ^ 63"
  shows "pull_bitcoin_tx uninit (Some (linearize_tx tx @ r)) = Some (Some (forget_amounts uninit tx), Some r)"
proof (cases "uses_witness tx")
  case True
  with assms pull_tx_witness show ?thesis by (simp add: linearize_tx_bytes)
next
  case False
  then have "ti_witness i = None" if "i \<in> set (tx_input tx)" for i
    using that by (auto simp: uses_witness_def list_ex_iff)
  with assms False pull_tx_no_witness show ?thesis by (simp add: linearize_tx_bytes)
qed

theorem tx_roundtrip_witness:
  "pull_bitcoin_tx None (Some (linearize_tx sample_tx @ [1, 2, 3])) =
    Some (Some (forget_amounts None sample_tx), Some [1, 2, 3])"
proof -
  have "wf_tx sample_tx" by (simp add: wf_tx_def wf_input_def sample_tx_def sample_input_def)
  moreover have "length (linearize_tx sample_tx @ [1, 2, 3]) = 73" by code_simp
  ultimately show ?thesis using tx_roundtrip [of sample_tx "[1, 2, 3]" None] by simp
qed

text \<open>
  C25: the hash signed for an input with a witness script is the double SHA-256 of the BIP 143
  string: version, hash of all outpoints, hash of all sequence numbers, the outpoint, the
  script, the amount spent, the sequence number, hash of all outputs, lock time and the hash
  type.
\<close>

theorem segwit_signature_hash:
  assumes n: "n < length (tx_input tx)" and amount: "ti_amount (tx_input tx ! n) = Some amount"
    and scripts: "\<And>i. i < length (tx_input tx) \<Longrightarrow> i \<noteq> n \<Longrightarrow> ti_script (tx_input tx ! i) = None"
    and size: "length (tx_bytes tx False) + length script < 2 ^ 63"
  shows "sha256_tx_for_sig tx n (Some script) =
    Some (sha256_double (bip143_bytes tx (tx_input tx ! n) script amount @ cpu_to_le32 1))"
proof -
  have len: "length (tx_bytes tx False) < 2 ^ 63" using size by simp
  have "length (ti_txid (tx_input tx ! n)) \<le> length (tx_bytes tx False)"
    using n by (intro length_txid_bytes nth_mem)
  then have l: "length (bip143_bytes tx (tx_input tx ! n) script amount) + 4 < 2 ^ 64 - 1"
    using size length_varint_blob(1) [of script] by (simp add: bip143_bytes_def)
  then obtain ctx where ctx: "hash_for_segwit (Some SHA256_INIT) tx n script = Some ctx"
    "sha256_rep ctx (bip143_bytes tx (tx_input tx ! n) script amount)"
    using hash_for_segwit_rep [OF len amount, of script] by (auto simp: sha_sink_rep_def)
  obtain ctx' where "sha256_le32 ctx 1 = Some ctx'"
    "sha256_rep ctx' (bip143_bytes tx (tx_input tx ! n) script amount @ cpu_to_le32 1)"
    using sha256_update_rep [OF ctx(2), of "cpu_to_le32 1"] l by (auto simp: sha256_le32_def)
  moreover have "\<not> (\<exists>i \<in> set [0..<length (tx_input tx)]. i \<noteq> n \<and> ti_script (tx_input tx ! i) \<noteq> None)"
    using scripts by fastforce
  ultimately show ?thesis using n ctx
    by (simp add: sha256_tx_for_sig_def SIGHASH_ALL_def sha256_double_done_rep)
qed

theorem segwit_signature_hash_witness:
  "sha256_tx_for_sig sample_tx 0 (Some [0x51]) =
    Some (sha256_double (bip143_bytes sample_tx sample_input [0x51] 5000 @ cpu_to_le32 1))"
proof -
  have "length (tx_bytes sample_tx False) + length [0x51 :: u8] = 64" by code_simp
  then show ?thesis
    using segwit_signature_hash [of 0 sample_tx 5000 "[0x51]"] by (simp add: sample_tx_def sample_input_def)
qed

text \<open>
  The txid hashes the serialization without witness data, so that no change of a witness
  changes it, and the weight counts each byte of that serialization four times and each
  witness byte once.
\<close>

theorem txid_and_weight:
  assumes "length (tx_bytes tx False) < 2 ^ 64 - 1"
  shows "bitcoin_txid tx = Some (sha256_double (tx_bytes tx False)) \<and>
    measure_tx_weight tx =
      of_nat (4 * length (tx_bytes tx False) + (length (linearize_tx tx) - length (tx_bytes tx False)))"
proof -
  have "length (tx_bytes tx False) \<le> length (linearize_tx tx)"
    by (simp add: linearize_tx_bytes tx_bytes_def)
  then have "3 * length (tx_bytes tx False) + length (linearize_tx tx) =
      4 * length (tx_bytes tx False) + (length (linearize_tx tx) - length (tx_bytes tx False))" by simp
  then show ?thesis
    using assms by (simp only: bitcoin_txid_bytes measure_tx_weight_bytes linearize_tx_bytes simp_thms)
qed

theorem txid_and_weight_witness:
  "bitcoin_txid sample_tx = Some (sha256_double (tx_bytes sample_tx False)) \<and>
    measure_tx_weight sample_tx = 4 * 63 + 7"
proof -
  have "length (tx_bytes sample_tx False) = 63" "length (linearize_tx sample_tx) = 70" by code_simp+
  then show ?thesis using txid_and_weight [of sample_tx] by simp
qed



end
