(* ===== verification/PermuteTx.thy ===== *)
theory PermuteTx
  imports BitcoinTx "HOL-Library.List_Lexorder" "HOL-Library.Product_Lexorder"
begin

text \<open>
  \<^verbatim>\<open>common/permute_tx.c\<close> and \<^verbatim>\<open>common/close_tx.c\<close>: the selection sorts that put the inputs and
  outputs of a transaction in canonical order, with the \<^verbatim>\<open>map\<close> and \<^verbatim>\<open>cltvs\<close> arrays permuted
  alongside, and the closing transaction.

  The locale \<open>selection\<close> is what the sort relies on: on the items at hand, the comparison is
  the order of a key. It gives a sorted permutation of the items, which depends on nothing but
  the multiset of the items when the key determines the item. Both comparisons of the code
  are interpretations.
\<close>

section \<open>Inputs\<close>

definition input_better :: "bitcoin_tx_input \<Rightarrow> bitcoin_tx_input \<Rightarrow> bool" where
  "input_better a b =
     (let cmp = memcmp (ti_txid a) (ti_txid b) in
      if cmp \<noteq> 0 then cmp < 0
      else if ti_index a \<noteq> ti_index b then ti_index a < ti_index b
      else
        let sa = blob_of (ti_script a); sb = blob_of (ti_script b) in
        if length sa \<noteq> length sb then length sa < length sb
        else
          let cmp = memcmp sa sb in
          if cmp \<noteq> 0 then cmp < 0
          else ti_sequence_number a < ti_sequence_number b)"

definition find_best_in :: "bitcoin_tx_input list \<Rightarrow> nat \<Rightarrow> nat" where
  "find_best_in inputs num =
     fold (\<lambda>i best. if input_better (inputs ! i) (inputs ! best) then i else best) [1..<num] 0"

text \<open>\<^verbatim>\<open>map\<close> may be NULL; its entries are pointers, NULL or not.\<close>

definition swap_inputs ::
    "bitcoin_tx_input list \<Rightarrow> 'm option list option \<Rightarrow> nat \<Rightarrow> nat \<Rightarrow> bitcoin_tx_input list \<times> 'm option list option" where
  "swap_inputs inputs mp i1 i2 =
     (if i1 = i2 then (inputs, mp)
      else (swap inputs i1 i2, case mp of None \<Rightarrow> None | Some m \<Rightarrow> Some (swap m i1 i2)))"

definition permute_inputs ::
    "bitcoin_tx_input list \<Rightarrow> 'm option list option \<Rightarrow> bitcoin_tx_input list \<times> 'm option list option" where
  "permute_inputs inputs mp =
     (let num_inputs = length inputs in
      if num_inputs = 0 then (inputs, mp)
      else fold (\<lambda>i (inputs, mp).
          swap_inputs inputs mp i (i + find_best_in (drop i inputs) (num_inputs - i)))
        [0..<num_inputs - 1] (inputs, mp))"

section \<open>Outputs\<close>

definition swap_outputs ::
    "bitcoin_tx_output list \<Rightarrow> 'm option list option \<Rightarrow> u32 list option \<Rightarrow> nat \<Rightarrow> nat \<Rightarrow>
      bitcoin_tx_output list \<times> 'm option list option \<times> u32 list option" where
  "swap_outputs outputs mp cltvs i1 i2 =
     (if i1 = i2 then (outputs, mp, cltvs)
      else (swap outputs i1 i2,
            (case mp of None \<Rightarrow> None | Some m \<Rightarrow> Some (swap m i1 i2)),
            (case cltvs of None \<Rightarrow> None | Some c \<Rightarrow> Some (swap c i1 i2))))"

definition output_better :: "bitcoin_tx_output \<Rightarrow> u32 \<Rightarrow> bitcoin_tx_output \<Rightarrow> u32 \<Rightarrow> bool" where
  "output_better a cltv_a b cltv_b =
     (if to_amount a \<noteq> to_amount b then to_amount a < to_amount b
      else
        let lena = length (to_script a);
            lenb = length (to_script b);
            len = (if lena < lenb then lena else lenb);
            ret = memcmp (take len (to_script a)) (take len (to_script b))
        in if ret \<noteq> 0 then ret < 0
           else if lena \<noteq> lenb then lena < lenb
           else cltv_a < cltv_b)"

definition cltv_of :: "u32 list option \<Rightarrow> nat \<Rightarrow> u32" where
  "cltv_of cltvs idx = (case cltvs of None \<Rightarrow> 0 | Some c \<Rightarrow> c ! idx)"

definition find_best_out :: "bitcoin_tx_output list \<Rightarrow> u32 list option \<Rightarrow> nat \<Rightarrow> nat" where
  "find_best_out outputs cltvs num =
     fold (\<lambda>i best. if output_better (outputs ! i) (cltv_of cltvs i) (outputs ! best) (cltv_of cltvs best)
       then i else best) [1..<num] 0"

definition permute_outputs ::
    "bitcoin_tx_output list \<Rightarrow> u32 list option \<Rightarrow> 'm option list option \<Rightarrow>
      bitcoin_tx_output list \<times> 'm option list option \<times> u32 list option" where
  "permute_outputs outputs cltvs mp =
     (let num_outputs = length outputs in
      if num_outputs = 0 then (outputs, mp, cltvs)
      else fold (\<lambda>i (outputs, mp, cltvs).
          swap_outputs outputs mp cltvs i
            (i + find_best_out (drop i outputs) (case cltvs of None \<Rightarrow> None | Some c \<Rightarrow> Some (drop i c))
              (num_outputs - i)))
        [0..<num_outputs - 1] (outputs, mp, cltvs))"

section \<open>The closing transaction\<close>

text \<open>
  \<open>None\<close> is the failed assertion, \<open>Some None\<close> the NULL returned when both outputs are dust.
\<close>

definition create_close_tx ::
    "bytes \<Rightarrow> bytes \<Rightarrow> bytes \<Rightarrow> u32 \<Rightarrow> u64 \<Rightarrow> u64 \<Rightarrow> u64 \<Rightarrow> u64 \<Rightarrow> bitcoin_tx option option" where
  "create_close_tx our_script their_script anchor_txid anchor_index anchor_satoshis to_us to_them dust_limit =
     (if \<not> (to_us + to_them \<le> anchor_satoshis) then None
      else
        let tx = bitcoin_tx_alloc 1 2;
            num_outputs = 0;
            tx = tx\<lparr>tx_input := (tx_input tx)[0 := (tx_input tx ! 0)
              \<lparr>ti_txid := anchor_txid, ti_index := anchor_index, ti_amount := Some anchor_satoshis\<rparr>]\<rparr>;
            (tx, num_outputs) =
              (if to_us \<ge> dust_limit
               then (tx\<lparr>tx_output := (tx_output tx)[num_outputs := \<lparr>to_amount = to_us, to_script = our_script\<rparr>]\<rparr>,
                     num_outputs + 1)
               else (tx, num_outputs));
            (tx, num_outputs) =
              (if to_them \<ge> dust_limit
               then (tx\<lparr>tx_output := (tx_output tx)[num_outputs := \<lparr>to_amount = to_them, to_script = their_script\<rparr>]\<rparr>,
                     num_outputs + 1)
               else (tx, num_outputs))
        in if num_outputs = 0 then Some None
           else let tx = tx\<lparr>tx_output := take num_outputs (tx_output tx)\<rparr>
             in Some (Some (tx\<lparr>tx_output :=
                  fst (permute_outputs (tx_output tx) None (None :: unit option list option))\<rparr>)))"

section \<open>Selection sort\<close>

definition best_index :: "('a \<Rightarrow> 'a \<Rightarrow> bool) \<Rightarrow> 'a list \<Rightarrow> nat \<Rightarrow> nat" where
  "best_index better xs n = fold (\<lambda>i best. if better (xs ! i) (xs ! best) then i else best) [1..<n] 0"

definition sel_loop :: "('a \<Rightarrow> 'a \<Rightarrow> bool) \<Rightarrow> nat \<Rightarrow> 'a list \<Rightarrow> 'a list" where
  "sel_loop better k xs = fold (\<lambda>i xs. swap xs i (i + best_index better (drop i xs) (length xs - i))) [0..<k] xs"

locale selection =
  fixes better :: "'a \<Rightarrow> 'a \<Rightarrow> bool" and key :: "'a \<Rightarrow> 'k::linorder" and ok :: "'a \<Rightarrow> bool"
  assumes better_key: "ok a \<Longrightarrow> ok b \<Longrightarrow> better a b \<longleftrightarrow> key a < key b"
begin

lemma best_index_best:
  assumes "0 < n" "n \<le> length xs" "list_all ok xs"
  shows "best_index better xs n < n \<and> (\<forall>j < n. key (xs ! best_index better xs n) \<le> key (xs ! j))"
  using assms
proof (induction n)
  case 0
  then show ?case by simp
next
  case (Suc n)
  show ?case
  proof (cases "n = 0")
    case True
    then show ?thesis by (simp add: best_index_def)
  next
    case False
    with Suc have IH: "best_index better xs n < n" "\<And>j. j < n \<Longrightarrow> key (xs ! best_index better xs n) \<le> key (xs ! j)"
      by auto
    have "ok (xs ! n)" "ok (xs ! best_index better xs n)"
      using Suc.prems IH(1) by (auto simp: list_all_length)
    then have b: "better (xs ! n) (xs ! best_index better xs n) \<longleftrightarrow> key (xs ! n) < key (xs ! best_index better xs n)"
      by (rule better_key)
    have "best_index better xs (Suc n) =
        (if better (xs ! n) (xs ! best_index better xs n) then n else best_index better xs n)"
      using False by (simp add: best_index_def)
    with IH b show ?thesis by (auto simp: less_Suc_eq intro: less_imp_le order.trans)
  qed
qed

lemma sel_loop_Suc:
  "sel_loop better (Suc k) xs = (let ys = sel_loop better k xs in swap ys k (k + best_index better (drop k ys) (length ys - k)))"
  by (simp add: sel_loop_def Let_def)

lemma sel_loop_inv:
  assumes "k \<le> length xs" "list_all ok xs"
  shows "length (sel_loop better k xs) = length xs \<and> mset (sel_loop better k xs) = mset xs \<and>
    (\<forall>i j. i < k \<longrightarrow> i \<le> j \<longrightarrow> j < length xs \<longrightarrow> key (sel_loop better k xs ! i) \<le> key (sel_loop better k xs ! j))"
  using assms
proof (induction k)
  case 0
  then show ?case by (simp add: sel_loop_def)
next
  case (Suc k)
  define ys where "ys = sel_loop better k xs"
  from Suc have l: "length ys = length xs" and m: "mset ys = mset xs"
    and s: "\<And>i j. i < k \<Longrightarrow> i \<le> j \<Longrightarrow> j < length xs \<Longrightarrow> key (ys ! i) \<le> key (ys ! j)"
    by (auto simp: ys_def)
  have ok: "list_all ok ys" using Suc.prems(2) m by (metis list.pred_set mset_eq_setD)
  define b where "b = best_index better (drop k ys) (length ys - k)"
  have b: "b < length ys - k" "\<And>j. j < length ys - k \<Longrightarrow> key (ys ! (k + b)) \<le> key (ys ! (k + j))"
    using best_index_best [of "length ys - k" "drop k ys"] Suc.prems l ok
    by (auto simp: b_def list_all_length)
  have z: "sel_loop better (Suc k) xs = swap ys k (k + b)" by (simp add: sel_loop_Suc ys_def b_def Let_def)
  have kb: "k < length ys" "k + b < length ys" using Suc.prems l b(1) by auto
  have "key (swap ys k (k + b) ! i) \<le> key (swap ys k (k + b) ! j)" if "i < Suc k" "i \<le> j" "j < length xs" for i j
  proof (cases "i = k")
    case True
    have "key (ys ! (k + b)) \<le> key (ys ! j')" if "k \<le> j'" "j' < length ys" for j'
      using b(2) [of "j' - k"] that by simp
    with True that kb l show ?thesis by (auto simp: nth_swap)
  next
    case False
    then have "i < k" using that by simp
    then show ?thesis using that kb l s [of i j] s [of i k] s [of i "k + b"] by (auto simp: nth_swap)
  qed
  with kb l m z show ?case by (simp add: mset_swap_nth)
qed

lemma sel_loop_sorts:
  assumes "list_all ok xs"
  shows "mset (sel_loop better (length xs - 1) xs) = mset xs"
    and "sorted (map key (sel_loop better (length xs - 1) xs))"
proof -
  note inv = sel_loop_inv [of "length xs - 1" xs, OF _ assms]
  show "mset (sel_loop better (length xs - 1) xs) = mset xs" using inv by simp
  show "sorted (map key (sel_loop better (length xs - 1) xs))"
    unfolding sorted_iff_nth_mono
  proof (intro allI impI)
    fix i j assume ij: "i \<le> j" "j < length (map key (sel_loop better (length xs - 1) xs))"
    show "map key (sel_loop better (length xs - 1) xs) ! i \<le> map key (sel_loop better (length xs - 1) xs) ! j"
      using inv ij by (cases "i = j") auto
  qed
qed

end

section \<open>The two orders\<close>

lemma memcmp_take: "memcmp (take (min (length a) (length b)) a) (take (min (length a) (length b)) b) = memcmp a b"
  by (induction a b rule: memcmp.induct) simp_all

lemma less_iff_memcmp: "xs < ys \<longleftrightarrow> memcmp xs ys < 0 \<or> memcmp xs ys = 0 \<and> length xs < length (ys :: bytes)"
proof (induction xs arbitrary: ys)
  case Nil
  then show ?case by (cases ys) auto
next
  case (Cons x xs)
  then show ?case by (cases ys) auto
qed

lemma memcmp_less: "length xs = length ys \<Longrightarrow> memcmp xs ys < 0 \<longleftrightarrow> xs < ys"
  by (simp add: less_iff_memcmp)

lemma pair_less: "(a, x) < (b, y) \<longleftrightarrow> (if a = b then x < y else a < (b :: 'a::linorder))"
  by auto

definition input_key :: "bitcoin_tx_input \<Rightarrow> bytes \<times> u32 \<times> nat \<times> bytes \<times> u32" where
  "input_key i = (ti_txid i, ti_index i, length (blob_of (ti_script i)), blob_of (ti_script i), ti_sequence_number i)"

lemma input_better_key:
  "length (ti_txid a) = 32 \<Longrightarrow> length (ti_txid b) = 32 \<Longrightarrow> input_better a b \<longleftrightarrow> input_key a < input_key b"
  by (simp add: input_better_def input_key_def Let_def memcmp_eq_0 memcmp_less pair_less
      del: less_prod_simp)

text \<open>An output with its expiry and map entry, as the three arrays hold it.\<close>

type_synonym 'm row = "bitcoin_tx_output \<times> u32 \<times> 'm option"

definition row_better :: "'m row \<Rightarrow> 'm row \<Rightarrow> bool" where
  "row_better a b = output_better (fst a) (fst (snd a)) (fst b) (fst (snd b))"

definition row_key :: "'m row \<Rightarrow> u64 \<times> bytes \<times> u32" where
  "row_key a = (to_amount (fst a), to_script (fst a), fst (snd a))"

lemma script_less:
  "(if memcmp xs ys \<noteq> 0 then memcmp xs ys < 0 else if length xs \<noteq> length ys then length xs < length ys else c) =
    (if xs = ys then c else xs < (ys :: bytes))"
  using memcmp_eq_0 [of xs ys] by (auto simp: less_iff_memcmp)

lemma output_better_key: "row_better a b \<longleftrightarrow> row_key a < row_key b"
proof -
  have "(if length xs < length ys then length xs else length ys) = min (length xs) (length ys)"
    for xs ys :: bytes by simp
  then show ?thesis
    by (simp only: row_better_def output_better_def Let_def memcmp_take row_key_def pair_less script_less)
      simp
qed

interpretation out_sel: selection row_better row_key "\<lambda>_. True"
  by unfold_locales (rule output_better_key)

interpretation in_sel: selection "\<lambda>a b. input_better (fst a) (fst b)" "\<lambda>a. input_key (fst a)"
    "\<lambda>a. length (ti_txid (fst a)) = 32"
  by unfold_locales (rule input_better_key)

section \<open>The sorts as selection sorts on rows\<close>

definition rows :: "bitcoin_tx_output list \<Rightarrow> u32 list option \<Rightarrow> 'm option list option \<Rightarrow> 'm row list" where
  "rows outs cltvs mp =
     zip outs (zip (case cltvs of None \<Rightarrow> replicate (length outs) 0 | Some c \<Rightarrow> c)
                   (case mp of None \<Rightarrow> replicate (length outs) None | Some m \<Rightarrow> m))"

text \<open>The other two arrays are as long as the outputs, or longer.\<close>

definition rows_ok :: "bitcoin_tx_output list \<Rightarrow> u32 list option \<Rightarrow> 'm option list option \<Rightarrow> bool" where
  "rows_ok outs cltvs mp \<longleftrightarrow>
     (case cltvs of None \<Rightarrow> True | Some c \<Rightarrow> length outs \<le> length c) \<and>
     (case mp of None \<Rightarrow> True | Some m \<Rightarrow> length outs \<le> length m)"

lemma length_rows: "rows_ok outs cltvs mp \<Longrightarrow> length (rows outs cltvs mp) = length outs"
  by (auto simp: rows_def rows_ok_def split: option.splits)

lemma nth_rows:
  "rows_ok outs cltvs mp \<Longrightarrow> i < length outs \<Longrightarrow>
    rows outs cltvs mp ! i = (outs ! i, cltv_of cltvs i, case mp of None \<Rightarrow> None | Some m \<Rightarrow> m ! i)"
  by (auto simp: rows_def rows_ok_def cltv_of_def split: option.splits)

lemma swap_outputs_rows:
  assumes "rows_ok outs cltvs mp" "i < length outs" "j < length outs"
    and "swap_outputs outs mp cltvs i j = (outs', mp', cltvs')"
  shows "rows_ok outs' cltvs' mp'" "rows outs' cltvs' mp' = swap (rows outs cltvs mp) i j"
    "map_option length cltvs' = map_option length cltvs" "map_option length mp' = map_option length mp" "length outs' = length outs"
proof -
  show ok: "rows_ok outs' cltvs' mp'" and l: "length outs' = length outs"
    and "map_option length cltvs' = map_option length cltvs" "map_option length mp' = map_option length mp"
    using assms by (auto simp: swap_outputs_def rows_ok_def split: if_splits option.splits)
  show "rows outs' cltvs' mp' = swap (rows outs cltvs mp) i j"
  proof (rule nth_equalityI)
    show "length (rows outs' cltvs' mp') = length (swap (rows outs cltvs mp) i j)"
      using ok l assms(1) by (simp add: length_rows)
  next
    fix k assume "k < length (rows outs' cltvs' mp')"
    then have k: "k < length outs" using ok l by (simp add: length_rows)
    let ?k = "if k = i then j else if k = j then i else k"
    have o: "outs' ! k = outs ! ?k"
      using assms k by (auto simp: swap_outputs_def nth_swap split: if_splits)
    have c: "cltv_of cltvs' k = cltv_of cltvs ?k"
      using assms k by (auto simp: swap_outputs_def nth_swap cltv_of_def rows_ok_def split: if_splits option.splits)
    have m: "(case mp' of None \<Rightarrow> None | Some m \<Rightarrow> m ! k) = (case mp of None \<Rightarrow> None | Some m \<Rightarrow> m ! ?k)"
      using assms k by (auto simp: swap_outputs_def nth_swap rows_ok_def split: if_splits option.splits)
    have "swap (rows outs cltvs mp) i j ! k = rows outs cltvs mp ! ?k"
      using assms k by (simp add: nth_swap length_rows)
    moreover have "?k < length outs" using assms k by simp
    ultimately show "rows outs' cltvs' mp' ! k = swap (rows outs cltvs mp) i j ! k"
      using ok l k assms(1) by (simp only: nth_rows o c m)
  qed
qed

lemma find_best_out_rows:
  assumes "rows_ok outs cltvs mp" "i < length outs" "n \<le> length outs - i"
  shows "find_best_out (drop i outs) (case cltvs of None \<Rightarrow> None | Some c \<Rightarrow> Some (drop i c)) n =
    best_index row_better (drop i (rows outs cltvs mp)) n"
  using assms(3)
proof (induction n)
  case 0
  then show ?case by (simp add: find_best_out_def best_index_def)
next
  case (Suc n)
  let ?c = "case cltvs of None \<Rightarrow> None | Some c \<Rightarrow> Some (drop i c)"
  let ?b = "best_index row_better (drop i (rows outs cltvs mp)) n"
  have ok: "cltv_of ?c k = fst (snd (drop i (rows outs cltvs mp) ! k))"
    "drop i outs ! k = fst (drop i (rows outs cltvs mp) ! k)" if "k < length outs - i" for k
    using assms(1,2) that by (auto simp: nth_rows length_rows cltv_of_def rows_ok_def split: option.splits)
  show ?case
  proof (cases "n = 0")
    case True
    then show ?thesis by (simp add: find_best_out_def best_index_def)
  next
    case False
    have "?b < n"
      using out_sel.best_index_best [of n "drop i (rows outs cltvs mp)"] False Suc.prems assms(1)
      by (simp add: length_rows list_all_iff)
    then have "?b < length outs - i" "n < length outs - i" using Suc.prems by auto
    note eqs = ok [OF this(1)] ok [OF this(2)]
    have IH: "find_best_out (drop i outs) ?c n = ?b" using Suc by simp
    have "find_best_out (drop i outs) ?c (Suc n) =
        (let best = find_best_out (drop i outs) ?c n in
         if output_better (drop i outs ! n) (cltv_of ?c n) (drop i outs ! best) (cltv_of ?c best) then n else best)"
      using False by (simp add: find_best_out_def Let_def)
    also have "\<dots> = (if row_better (drop i (rows outs cltvs mp) ! n) (drop i (rows outs cltvs mp) ! ?b) then n else ?b)"
      by (simp only: IH Let_def row_better_def eqs)
    also have "\<dots> = best_index row_better (drop i (rows outs cltvs mp)) (Suc n)"
      using False by (simp add: best_index_def)
    finally show ?thesis .
  qed
qed

definition permute_loop ::
    "nat \<Rightarrow> nat \<Rightarrow> bitcoin_tx_output list \<times> 'm option list option \<times> u32 list option \<Rightarrow>
      bitcoin_tx_output list \<times> 'm option list option \<times> u32 list option" where
  "permute_loop n k = fold (\<lambda>i (outputs, mp, cltvs).
     swap_outputs outputs mp cltvs i
       (i + find_best_out (drop i outputs) (case cltvs of None \<Rightarrow> None | Some c \<Rightarrow> Some (drop i c)) (n - i))) [0..<k]"

lemma permute_loop_rows:
  assumes "rows_ok outs cltvs mp" "k \<le> length outs" "permute_loop (length outs) k (outs, mp, cltvs) = (outs', mp', cltvs')"
  shows "rows_ok outs' cltvs' mp' \<and> rows outs' cltvs' mp' = sel_loop row_better k (rows outs cltvs mp) \<and>
    map_option length cltvs' = map_option length cltvs \<and> map_option length mp' = map_option length mp \<and> length outs' = length outs"
  using assms(2,3)
proof (induction k arbitrary: outs' mp' cltvs')
  case 0
  then show ?case using assms(1) by (simp add: permute_loop_def sel_loop_def)
next
  case (Suc k)
  obtain o1 m1 c1 where 1: "permute_loop (length outs) k (outs, mp, cltvs) = (o1, m1, c1)" by (metis prod_cases3)
  with Suc have IH: "rows_ok o1 c1 m1" "rows o1 c1 m1 = sel_loop row_better k (rows outs cltvs mp)"
    "map_option length c1 = map_option length cltvs" "map_option length m1 = map_option length mp" "length o1 = length outs" by auto
  let ?b = "best_index row_better (drop k (rows o1 c1 m1)) (length o1 - k)"
  have k: "k < length o1" using Suc.prems IH by simp
  have b: "?b < length o1 - k"
    using out_sel.best_index_best [of "length o1 - k" "drop k (rows o1 c1 m1)"] k IH(1)
    by (simp add: length_rows list_all_iff)
  have "swap_outputs o1 m1 c1 k (k + ?b) = (outs', mp', cltvs')"
    using Suc.prems(2) 1 find_best_out_rows [OF IH(1) k order_refl] IH(5)
    by (simp add: permute_loop_def)
  from swap_outputs_rows [OF IH(1) k _ this] b IH length_rows [OF IH(1)]
  show ?case by (simp add: out_sel.sel_loop_Suc Let_def length_rows)
qed

lemma permute_outputs_rows:
  assumes "rows_ok outs cltvs mp" "permute_outputs outs cltvs mp = (outs', mp', cltvs')"
  shows "rows_ok outs' cltvs' mp'" "rows outs' cltvs' mp' = sel_loop row_better (length outs - 1) (rows outs cltvs mp)"
    "map_option length cltvs' = map_option length cltvs" "map_option length mp' = map_option length mp" "length outs' = length outs"
proof -
  have "permute_outputs outs cltvs mp = permute_loop (length outs) (length outs - 1) (outs, mp, cltvs)"
    by (simp add: permute_outputs_def permute_loop_def Let_def)
  with permute_loop_rows [OF assms(1), of "length outs - 1" outs' mp' cltvs'] assms(2)
  show "rows_ok outs' cltvs' mp'" "rows outs' cltvs' mp' = sel_loop row_better (length outs - 1) (rows outs cltvs mp)"
    "map_option length cltvs' = map_option length cltvs" "map_option length mp' = map_option length mp" "length outs' = length outs" by simp_all
qed

lemma permute_outputs_sorts:
  assumes "rows_ok outs cltvs mp" "permute_outputs outs cltvs mp = (outs', mp', cltvs')"
  shows "mset (rows outs' cltvs' mp') = mset (rows outs cltvs mp)"
    and "sorted (map row_key (rows outs' cltvs' mp'))"
  using permute_outputs_rows(2) [OF assms] out_sel.sel_loop_sorts [of "rows outs cltvs mp"] assms(1)
  by (simp_all add: length_rows list_all_iff)

lemma map_rows:
  "rows_ok outs cltvs mp \<Longrightarrow> map fst (rows outs cltvs mp) = outs"
  "rows_ok outs (Some c) mp \<Longrightarrow> map (\<lambda>r. fst (snd r)) (rows outs (Some c) mp) = take (length outs) c"
  "rows_ok outs cltvs (Some m) \<Longrightarrow> map (\<lambda>r. snd (snd r)) (rows outs cltvs (Some m)) = take (length outs) m"
  by (auto intro!: nth_equalityI simp: length_rows nth_rows cltv_of_def) (auto simp: rows_ok_def)

section \<open>Inputs as rows\<close>

type_synonym 'm irow = "bitcoin_tx_input \<times> 'm option"

definition irows :: "bitcoin_tx_input list \<Rightarrow> 'm option list option \<Rightarrow> 'm irow list" where
  "irows ins mp = zip ins (case mp of None \<Rightarrow> replicate (length ins) None | Some m \<Rightarrow> m)"

definition irows_ok :: "bitcoin_tx_input list \<Rightarrow> 'm option list option \<Rightarrow> bool" where
  "irows_ok ins mp \<longleftrightarrow> (case mp of None \<Rightarrow> True | Some m \<Rightarrow> length m = length ins)"

abbreviation irow_better :: "'m irow \<Rightarrow> 'm irow \<Rightarrow> bool" where
  "irow_better \<equiv> (\<lambda>a b. input_better (fst a) (fst b))"

lemma length_irows: "irows_ok ins mp \<Longrightarrow> length (irows ins mp) = length ins"
  by (auto simp: irows_def irows_ok_def split: option.splits)

lemma nth_irows:
  "irows_ok ins mp \<Longrightarrow> i < length ins \<Longrightarrow>
    irows ins mp ! i = (ins ! i, case mp of None \<Rightarrow> None | Some m \<Rightarrow> m ! i)"
  by (auto simp: irows_def irows_ok_def split: option.splits)

lemma swap_inputs_rows:
  assumes "irows_ok ins mp" "i < length ins" "j < length ins" "swap_inputs ins mp i j = (ins', mp')"
  shows "irows_ok ins' mp'" "irows ins' mp' = swap (irows ins mp) i j" "length ins' = length ins"
proof -
  show "irows_ok ins' mp'" and "length ins' = length ins"
    using assms by (auto simp: swap_inputs_def irows_ok_def split: if_splits option.splits)
  show "irows ins' mp' = swap (irows ins mp) i j"
    using assms by (cases mp) (auto simp: swap_inputs_def irows_def irows_ok_def swap_zip
        swap_replicate split: if_splits)
qed

lemma find_best_in_rows:
  assumes "irows_ok ins mp"
  shows "find_best_in (drop i ins) (length ins - i) = best_index irow_better (drop i (irows ins mp)) (length ins - i)"
proof -
  have "map fst (irows ins mp) = ins" using assms by (auto simp: irows_def irows_ok_def split: option.splits)
  then have d: "drop i ins = map fst (drop i (irows ins mp))" by (simp add: drop_map [symmetric])
  have "length (irows ins mp) = length ins" by (rule length_irows [OF assms])
  then have "n \<le> length ins - i \<Longrightarrow> n = 0 \<or> best_index irow_better (drop i (irows ins mp)) n < n \<and>
      find_best_in (drop i ins) n = best_index irow_better (drop i (irows ins mp)) n" for n
    by (induction n) (auto simp: find_best_in_def best_index_def d)
  from this [of "length ins - i"] show ?thesis by (auto simp: find_best_in_def best_index_def)
qed

definition permute_in_loop ::
    "nat \<Rightarrow> nat \<Rightarrow> bitcoin_tx_input list \<times> 'm option list option \<Rightarrow> bitcoin_tx_input list \<times> 'm option list option" where
  "permute_in_loop n k = fold (\<lambda>i (inputs, mp).
     swap_inputs inputs mp i (i + find_best_in (drop i inputs) (n - i))) [0..<k]"

lemma permute_in_loop_rows:
  assumes ok: "irows_ok ins mp" "list_all (\<lambda>i. length (ti_txid i) = 32) ins"
    and "k \<le> length ins" "permute_in_loop (length ins) k (ins, mp) = (ins', mp')"
  shows "irows_ok ins' mp' \<and> irows ins' mp' = sel_loop irow_better k (irows ins mp) \<and> length ins' = length ins"
  using assms(3,4)
proof (induction k arbitrary: ins' mp')
  case 0
  then show ?case using ok(1) by (simp add: permute_in_loop_def sel_loop_def)
next
  case (Suc k)
  obtain i1 m1 where 1: "permute_in_loop (length ins) k (ins, mp) = (i1, m1)" by fastforce
  with Suc have IH: "irows_ok i1 m1" "irows i1 m1 = sel_loop irow_better k (irows ins mp)" "length i1 = length ins"
    by auto
  let ?b = "best_index irow_better (drop k (irows i1 m1)) (length i1 - k)"
  have k: "k < length i1" using Suc.prems IH by simp
  have "list_all (\<lambda>a. length (ti_txid (fst a)) = 32) (irows ins mp)"
    using ok by (auto simp: list_all_length nth_irows length_irows)
  moreover from this have "mset (irows i1 m1) = mset (irows ins mp)"
    using in_sel.sel_loop_inv [of k "irows ins mp"] Suc.prems IH(2) ok(1) by (simp add: length_irows)
  ultimately have "list_all (\<lambda>a. length (ti_txid (fst a)) = 32) (irows i1 m1)"
    by (metis list.pred_set mset_eq_setD)
  then have b: "?b < length i1 - k"
    using in_sel.best_index_best [of "length i1 - k" "drop k (irows i1 m1)"] k IH(1)
    by (simp add: length_irows list_all_length)
  have "swap_inputs i1 m1 k (k + ?b) = (ins', mp')"
    using Suc.prems(2) 1 find_best_in_rows [OF IH(1), of k] IH(3) by (simp add: permute_in_loop_def)
  from swap_inputs_rows [OF IH(1) k _ this] b IH length_irows [OF IH(1)]
  show ?case by (simp add: in_sel.sel_loop_Suc Let_def length_irows)
qed

lemma permute_inputs_sorts:
  assumes "irows_ok ins mp" "list_all (\<lambda>i. length (ti_txid i) = 32) ins" "permute_inputs ins mp = (ins', mp')"
  shows "mset (irows ins' mp') = mset (irows ins mp)" and "sorted (map (\<lambda>r. input_key (fst r)) (irows ins' mp'))"
    and "irows_ok ins' mp'"
proof -
  have "permute_inputs ins mp = permute_in_loop (length ins) (length ins - 1) (ins, mp)"
    by (simp add: permute_inputs_def permute_in_loop_def Let_def)
  with permute_in_loop_rows [OF assms(1,2), of "length ins - 1" ins' mp'] assms(3)
  have r: "irows_ok ins' mp'" "irows ins' mp' = sel_loop irow_better (length ins - 1) (irows ins mp)" by simp_all
  moreover have "list_all (\<lambda>a. length (ti_txid (fst a)) = 32) (irows ins mp)"
    using assms by (auto simp: list_all_length nth_irows length_irows)
  ultimately show "mset (irows ins' mp') = mset (irows ins mp)"
    and "sorted (map (\<lambda>r. input_key (fst r)) (irows ins' mp'))" and "irows_ok ins' mp'"
    using in_sel.sel_loop_sorts [of "irows ins mp"] assms(1) by (simp_all add: length_irows)
qed

section \<open>Canonical order\<close>

lemma row_key_inj: "row_key a = row_key b \<Longrightarrow> fst a = fst b \<and> fst (snd a) = fst (snd b)"
  by (cases "fst a"; cases "fst b") (simp add: row_key_def)

lemma row_keys_inj:
  "map row_key xs = map row_key ys \<Longrightarrow>
    map fst xs = map fst ys \<and> map (\<lambda>r. fst (snd r)) xs = map (\<lambda>r. fst (snd r)) ys"
proof (induction xs arbitrary: ys)
  case Nil
  then show ?case by simp
next
  case (Cons x xs)
  then obtain y ys' where y: "ys = y # ys'" "row_key x = row_key y" "map row_key xs = map row_key ys'" by auto
  with Cons.IH [OF y(3)] row_key_inj [OF y(2)] show ?case by simp
qed

lemma permute_outputs_unique:
  assumes ok: "rows_ok o1 c1 m1" "rows_ok o2 c2 m2"
    and same: "mset (map row_key (rows o1 c1 m1)) = mset (map row_key (rows o2 c2 m2))"
  shows "fst (permute_outputs o1 c1 m1) = fst (permute_outputs o2 c2 m2)"
proof -
  obtain o1' m1' c1' o2' m2' c2' where
    p: "permute_outputs o1 c1 m1 = (o1', m1', c1')" "permute_outputs o2 c2 m2 = (o2', m2', c2')"
    by (metis prod_cases3)
  have "mset (map row_key (rows o1' c1' m1')) = mset (map row_key (rows o2' c2' m2'))"
    using same permute_outputs_sorts(1) [OF ok(1) p(1)] permute_outputs_sorts(1) [OF ok(2) p(2)] by simp
  then have "map row_key (rows o1' c1' m1') = map row_key (rows o2' c2' m2')"
    using permute_outputs_sorts(2) [OF ok(1) p(1)] permute_outputs_sorts(2) [OF ok(2) p(2)]
    by (metis (mono_tags) properties_for_sort)
  then have "map fst (rows o1' c1' m1') = map fst (rows o2' c2' m2')" by (rule row_keys_inj [THEN conjunct1])
  then show ?thesis
    by (simp add: p map_rows(1) [OF permute_outputs_rows(1) [OF ok(1) p(1)]]
        map_rows(1) [OF permute_outputs_rows(1) [OF ok(2) p(2)]])
qed

lemma permute_outputs_mset:
  "rows_ok outs cltvs mp \<Longrightarrow> mset (fst (permute_outputs outs cltvs mp)) = mset outs"
proof -
  assume ok: "rows_ok outs cltvs mp"
  obtain o' m' c' where p: "permute_outputs outs cltvs mp = (o', m', c')" by (metis prod_cases3)
  have "mset (map fst (rows o' c' m')) = mset (map fst (rows outs cltvs mp))"
    using permute_outputs_sorts(1) [OF ok p] by simp
  then show ?thesis by (simp add: p map_rows(1) [OF permute_outputs_rows(1) [OF ok p]] map_rows(1) [OF ok] del: mset_map)
qed

section \<open>The closing transaction as a function of its outputs\<close>

definition close_outputs :: "bytes \<Rightarrow> bytes \<Rightarrow> u64 \<Rightarrow> u64 \<Rightarrow> u64 \<Rightarrow> bitcoin_tx_output list" where
  "close_outputs our_script their_script to_us to_them dust =
     [out \<leftarrow> [\<lparr>to_amount = to_us, to_script = our_script\<rparr>, \<lparr>to_amount = to_them, to_script = their_script\<rparr>].
        dust \<le> to_amount out]"

definition close_base :: "bytes \<Rightarrow> u32 \<Rightarrow> u64 \<Rightarrow> bitcoin_tx_output list \<Rightarrow> bitcoin_tx" where
  "close_base txid index amount outs =
     \<lparr>tx_version = 2, tx_input = [\<lparr>ti_txid = txid, ti_index = index, ti_script = None,
        ti_sequence_number = 0xFFFFFFFF, ti_amount = Some amount, ti_witness = None\<rparr>],
      tx_output = outs, tx_lock_time = 0\<rparr>"

lemma create_close_tx_eq:
  "create_close_tx our_script their_script txid index amount to_us to_them dust =
     (if \<not> (to_us + to_them \<le> amount) then None
      else let outs = close_outputs our_script their_script to_us to_them dust in
        if outs = [] then Some None
        else Some (Some (close_base txid index amount
          (fst (permute_outputs outs None (None :: unit option list option))))))"
  by (simp add: create_close_tx_def close_outputs_def close_base_def bitcoin_tx_alloc_def Let_def numeral_eq_Suc)

lemma rows_ok_None [simp]: "rows_ok outs None None"
  by (simp add: rows_ok_def)

lemma rows_None: "rows outs None None = map (\<lambda>x. (x, 0, None)) outs"
  by (rule nth_equalityI) (simp_all add: length_rows nth_rows cltv_of_def)

section \<open>Properties\<close>

text \<open>
  C24: sorting the outputs gives a permutation of the outputs in the order of amount, then
  script, then expiry, and the expiry and map arrays are permuted with them: entry by entry,
  the three arrays hold the same triples as before.
\<close>

theorem permute_outputs_sorted:
  assumes "rows_ok outs cltvs mp" "permute_outputs outs cltvs mp = (outs', mp', cltvs')"
  shows "rows_ok outs' cltvs' mp' \<and> mset (rows outs' cltvs' mp') = mset (rows outs cltvs mp) \<and>
    sorted (map row_key (rows outs' cltvs' mp'))"
  using permute_outputs_rows(1) [OF assms] permute_outputs_sorts [OF assms] by simp

definition three_outs :: "bitcoin_tx_output list" where
  "three_outs = [\<lparr>to_amount = 9, to_script = [1]\<rparr>, \<lparr>to_amount = 5, to_script = [2]\<rparr>, \<lparr>to_amount = 5, to_script = [2]\<rparr>]"

theorem permute_outputs_sorted_witness:
  "permute_outputs three_outs (Some [7, 8, 6]) (Some [Some (1 :: nat), None, Some 3]) =
     ([\<lparr>to_amount = 5, to_script = [2]\<rparr>, \<lparr>to_amount = 5, to_script = [2]\<rparr>, \<lparr>to_amount = 9, to_script = [1]\<rparr>],
      Some [Some 3, None, Some 1], Some [6, 8, 7]) \<and>
   sorted (map row_key (rows [\<lparr>to_amount = 5, to_script = [2]\<rparr>, \<lparr>to_amount = 5, to_script = [2]\<rparr>,
      \<lparr>to_amount = 9, to_script = [1]\<rparr>] (Some [6, 8, 7]) (Some [Some (3 :: nat), None, Some 1])))"
proof -
  have "permute_outputs three_outs (Some [7, 8, 6]) (Some [Some (1 :: nat), None, Some 3]) =
     ([\<lparr>to_amount = 5, to_script = [2]\<rparr>, \<lparr>to_amount = 5, to_script = [2]\<rparr>, \<lparr>to_amount = 9, to_script = [1]\<rparr>],
      Some [Some 3, None, Some 1], Some [6, 8, 7])" by code_simp
  moreover have "rows_ok three_outs (Some [7, 8, 6]) (Some [Some (1 :: nat), None, Some 3])"
    by (simp add: rows_ok_def three_outs_def)
  ultimately show ?thesis using permute_outputs_sorted by blast
qed

text \<open>
  C23: the order is canonical: whichever way two peers collect the same outputs and expiries,
  the sorted outputs are the same.
\<close>

theorem permute_outputs_canonical:
  assumes "rows_ok o1 c1 m1" "rows_ok o2 c2 m2"
    and "mset (map row_key (rows o1 c1 m1)) = mset (map row_key (rows o2 c2 m2))"
  shows "fst (permute_outputs o1 c1 m1) = fst (permute_outputs o2 c2 m2)"
  using assms by (rule permute_outputs_unique)

theorem permute_outputs_canonical_witness:
  "fst (permute_outputs three_outs (Some [7, 8, 6]) (None :: nat option list option)) =
   fst (permute_outputs (rev three_outs) (Some [6, 8, 7]) (Some [None, None, Some (4 :: nat)]))"
  by (rule permute_outputs_canonical) (simp_all add: three_outs_def rows_ok_def rows_def row_key_def)

text \<open>
  The inputs are sorted too, by outpoint, then script and sequence number, with the map
  permuted alongside.
\<close>

theorem permute_inputs_sorted:
  assumes "irows_ok ins mp" "list_all (\<lambda>i. length (ti_txid i) = 32) ins" "permute_inputs ins mp = (ins', mp')"
  shows "irows_ok ins' mp' \<and> mset (irows ins' mp') = mset (irows ins mp) \<and>
    sorted (map (\<lambda>r. input_key (fst r)) (irows ins' mp'))"
  using permute_inputs_sorts [OF assms] by simp

theorem permute_inputs_sorted_witness:
  "permute_inputs [sample_input\<lparr>ti_index := 2\<rparr>, sample_input] (Some [Some (1 :: nat), None]) =
     ([sample_input, sample_input\<lparr>ti_index := 2\<rparr>], Some [None, Some 1]) \<and>
   sorted (map (\<lambda>r. input_key (fst r))
     (irows [sample_input, sample_input\<lparr>ti_index := 2\<rparr>] (Some [None, Some (1 :: nat)])))"
proof -
  have "permute_inputs [sample_input\<lparr>ti_index := 2\<rparr>, sample_input] (Some [Some (1 :: nat), None]) =
     ([sample_input, sample_input\<lparr>ti_index := 2\<rparr>], Some [None, Some 1])" by code_simp
  moreover have "irows_ok [sample_input\<lparr>ti_index := 2\<rparr>, sample_input] (Some [Some (1 :: nat), None])"
    "list_all (\<lambda>i. length (ti_txid i) = 32) [sample_input\<lparr>ti_index := 2\<rparr>, sample_input]"
    by (simp_all add: irows_ok_def sample_input_def)
  ultimately show ?thesis using permute_inputs_sorted by blast
qed

text \<open>
  C34: the two peers build the same closing transaction, each calling with its own script and
  amount first.
\<close>

theorem close_tx_symmetric:
  "create_close_tx our_script their_script txid index amount to_us to_them dust =
   create_close_tx their_script our_script txid index amount to_them to_us dust"
proof -
  let ?a = "close_outputs our_script their_script to_us to_them dust"
  let ?b = "close_outputs their_script our_script to_them to_us dust"
  have "mset ?a = mset ?b" by (simp add: close_outputs_def)
  then have "fst (permute_outputs ?a None (None :: unit option list option)) =
      fst (permute_outputs ?b None (None :: unit option list option))"
    by (intro permute_outputs_unique) (simp_all add: rows_None)
  moreover have "?a = [] \<longleftrightarrow> ?b = []" by (simp add: close_outputs_def)
  ultimately show ?thesis by (simp add: create_close_tx_eq Let_def add.commute)
qed

text \<open>
  C35: a closing transaction spends the funding output and pays each side its amount unless that
  is below the dust limit; what it pays is not more than the funding amount, provided the two
  amounts do not overflow together.
\<close>

theorem close_tx_pays:
  assumes "unat to_us + unat to_them < 2 ^ 64"
    and "create_close_tx our_script their_script txid index amount to_us to_them dust = Some (Some tx)"
  shows "map ti_txid (tx_input tx) = [txid] \<and> map ti_index (tx_input tx) = [index] \<and>
    mset (tx_output tx) = mset (close_outputs our_script their_script to_us to_them dust) \<and>
    sum_list (map (\<lambda>out. unat (to_amount out)) (tx_output tx)) \<le> unat amount"
proof -
  let ?outs = "close_outputs our_script their_script to_us to_them dust"
  from assms(2) have le: "to_us + to_them \<le> amount"
    and tx: "tx = close_base txid index amount (fst (permute_outputs ?outs None (None :: unit option list option)))"
    by (auto simp: create_close_tx_eq Let_def split: if_splits)
  have m: "mset (tx_output tx) = mset ?outs" using permute_outputs_mset [of ?outs None None] by (simp add: tx close_base_def)
  have "sum_list (map (\<lambda>out. unat (to_amount out)) (tx_output tx)) = sum_list (map (\<lambda>out. unat (to_amount out)) ?outs)"
    using m by (rule sum_list_mset)
  also have "\<dots> \<le> unat to_us + unat to_them" by (simp add: close_outputs_def)
  also have "\<dots> = unat (to_us + to_them)" using assms(1) by (simp add: unat_word_ariths)
  also have "\<dots> \<le> unat amount" using le by (simp add: word_le_nat_alt)
  finally show ?thesis using m by (simp add: tx close_base_def)
qed

theorem close_tx_pays_witness:
  "\<exists>tx. create_close_tx [1] [2] (replicate 32 3) 0 1000 600 300 400 = Some (Some tx) \<and>
    mset (tx_output tx) = {#\<lparr>to_amount = 600, to_script = [1]\<rparr>#} \<and>
    sum_list (map (\<lambda>out. unat (to_amount out)) (tx_output tx)) \<le> 1000"
proof -
  obtain tx where "create_close_tx [1] [2] (replicate 32 3) 0 1000 600 300 400 = Some (Some tx)"
    by (simp add: create_close_tx_eq close_outputs_def)
  with close_tx_pays [OF _ this] show ?thesis by (simp add: close_outputs_def)
qed
end
