(* ===== verification/HtlcState.thy ===== *)
theory HtlcState
  imports Prelude
begin

text \<open>
  \<^verbatim>\<open>common/htlc.h\<close>, \<^verbatim>\<open>common/htlc_state.h\<close>, \<^verbatim>\<open>common/htlc_state.c\<close> and
  \<^verbatim>\<open>channeld/channeld_htlc.h\<close>: the two sides of a channel, the twenty states an HTLC goes
  through and their flag table, and the HTLC record with its map.

  The lemmas check the table: the assertions of \<^verbatim>\<open>htlc_state_flags\<close> and
  \<^verbatim>\<open>htlc_state_owner\<close> hold for every state of an HTLC, and the table is symmetric under
  exchanging the two peers.
\<close>

section \<open>Sides and states\<close>

text \<open>\<^verbatim>\<open>NUM_SIDES\<close> is the array bound of the C enumeration, not a side.\<close>

datatype side = LOCAL | REMOTE

text \<open>\<^verbatim>\<open>!side\<close>\<close>

fun other :: "side \<Rightarrow> side" where
  "other LOCAL = REMOTE"
| "other REMOTE = LOCAL"

fun side_num :: "side \<Rightarrow> nat" where
  "side_num LOCAL = 0"
| "side_num REMOTE = 1"

datatype htlc_state =
    SENT_ADD_HTLC
  | SENT_ADD_COMMIT
  | RCVD_ADD_REVOCATION
  | RCVD_ADD_ACK_COMMIT
  | SENT_ADD_ACK_REVOCATION
  | RCVD_REMOVE_HTLC
  | RCVD_REMOVE_COMMIT
  | SENT_REMOVE_REVOCATION
  | SENT_REMOVE_ACK_COMMIT
  | RCVD_REMOVE_ACK_REVOCATION
  | RCVD_ADD_HTLC
  | RCVD_ADD_COMMIT
  | SENT_ADD_REVOCATION
  | SENT_ADD_ACK_COMMIT
  | RCVD_ADD_ACK_REVOCATION
  | SENT_REMOVE_HTLC
  | SENT_REMOVE_COMMIT
  | RCVD_REMOVE_REVOCATION
  | RCVD_REMOVE_ACK_COMMIT
  | SENT_REMOVE_ACK_REVOCATION
  | HTLC_STATE_INVALID

text \<open>The value of an enumerator and the next one (\<^verbatim>\<open>state + 1\<close>).\<close>

fun htlc_state_num :: "htlc_state \<Rightarrow> nat" where
  "htlc_state_num SENT_ADD_HTLC = 0"
| "htlc_state_num SENT_ADD_COMMIT = 1"
| "htlc_state_num RCVD_ADD_REVOCATION = 2"
| "htlc_state_num RCVD_ADD_ACK_COMMIT = 3"
| "htlc_state_num SENT_ADD_ACK_REVOCATION = 4"
| "htlc_state_num RCVD_REMOVE_HTLC = 5"
| "htlc_state_num RCVD_REMOVE_COMMIT = 6"
| "htlc_state_num SENT_REMOVE_REVOCATION = 7"
| "htlc_state_num SENT_REMOVE_ACK_COMMIT = 8"
| "htlc_state_num RCVD_REMOVE_ACK_REVOCATION = 9"
| "htlc_state_num RCVD_ADD_HTLC = 10"
| "htlc_state_num RCVD_ADD_COMMIT = 11"
| "htlc_state_num SENT_ADD_REVOCATION = 12"
| "htlc_state_num SENT_ADD_ACK_COMMIT = 13"
| "htlc_state_num RCVD_ADD_ACK_REVOCATION = 14"
| "htlc_state_num SENT_REMOVE_HTLC = 15"
| "htlc_state_num SENT_REMOVE_COMMIT = 16"
| "htlc_state_num RCVD_REMOVE_REVOCATION = 17"
| "htlc_state_num RCVD_REMOVE_ACK_COMMIT = 18"
| "htlc_state_num SENT_REMOVE_ACK_REVOCATION = 19"
| "htlc_state_num HTLC_STATE_INVALID = 20"

text \<open>
  There is no enumerator after \<^verbatim>\<open>HTLC_STATE_INVALID\<close>; no code path increments it, as
  \<^verbatim>\<open>htlc_state_flags\<close> asserts first.
\<close>

fun htlc_state_succ :: "htlc_state \<Rightarrow> htlc_state" where
  "htlc_state_succ SENT_ADD_HTLC = SENT_ADD_COMMIT"
| "htlc_state_succ SENT_ADD_COMMIT = RCVD_ADD_REVOCATION"
| "htlc_state_succ RCVD_ADD_REVOCATION = RCVD_ADD_ACK_COMMIT"
| "htlc_state_succ RCVD_ADD_ACK_COMMIT = SENT_ADD_ACK_REVOCATION"
| "htlc_state_succ SENT_ADD_ACK_REVOCATION = RCVD_REMOVE_HTLC"
| "htlc_state_succ RCVD_REMOVE_HTLC = RCVD_REMOVE_COMMIT"
| "htlc_state_succ RCVD_REMOVE_COMMIT = SENT_REMOVE_REVOCATION"
| "htlc_state_succ SENT_REMOVE_REVOCATION = SENT_REMOVE_ACK_COMMIT"
| "htlc_state_succ SENT_REMOVE_ACK_COMMIT = RCVD_REMOVE_ACK_REVOCATION"
| "htlc_state_succ RCVD_REMOVE_ACK_REVOCATION = RCVD_ADD_HTLC"
| "htlc_state_succ RCVD_ADD_HTLC = RCVD_ADD_COMMIT"
| "htlc_state_succ RCVD_ADD_COMMIT = SENT_ADD_REVOCATION"
| "htlc_state_succ SENT_ADD_REVOCATION = SENT_ADD_ACK_COMMIT"
| "htlc_state_succ SENT_ADD_ACK_COMMIT = RCVD_ADD_ACK_REVOCATION"
| "htlc_state_succ RCVD_ADD_ACK_REVOCATION = SENT_REMOVE_HTLC"
| "htlc_state_succ SENT_REMOVE_HTLC = SENT_REMOVE_COMMIT"
| "htlc_state_succ SENT_REMOVE_COMMIT = RCVD_REMOVE_REVOCATION"
| "htlc_state_succ RCVD_REMOVE_REVOCATION = RCVD_REMOVE_ACK_COMMIT"
| "htlc_state_succ RCVD_REMOVE_ACK_COMMIT = SENT_REMOVE_ACK_REVOCATION"
| "htlc_state_succ SENT_REMOVE_ACK_REVOCATION = HTLC_STATE_INVALID"
| "htlc_state_succ HTLC_STATE_INVALID = HTLC_STATE_INVALID"

section \<open>Flags\<close>

definition HTLC_ADDING :: u32 where "HTLC_ADDING = 0x400"
definition HTLC_REMOVING :: u32 where "HTLC_REMOVING = 0x800"
definition HTLC_F_PENDING :: u32 where "HTLC_F_PENDING = 0x01"
definition HTLC_F_COMMITTED :: u32 where "HTLC_F_COMMITTED = 0x02"
definition HTLC_F_REVOKED :: u32 where "HTLC_F_REVOKED = 0x04"
definition HTLC_F_OWNER :: u32 where "HTLC_F_OWNER = 0x08"
definition HTLC_F_WAS_COMMITTED :: u32 where "HTLC_F_WAS_COMMITTED = 0x10"

definition HTLC_FLAG :: "side \<Rightarrow> u32 \<Rightarrow> u32" where
  "HTLC_FLAG side flag = push_bit (side_num side * 5) flag"

definition HTLC_REMOTE_F_PENDING :: u32 where "HTLC_REMOTE_F_PENDING = HTLC_FLAG REMOTE HTLC_F_PENDING"
definition HTLC_REMOTE_F_COMMITTED :: u32 where "HTLC_REMOTE_F_COMMITTED = HTLC_FLAG REMOTE HTLC_F_COMMITTED"
definition HTLC_REMOTE_F_REVOKED :: u32 where "HTLC_REMOTE_F_REVOKED = HTLC_FLAG REMOTE HTLC_F_REVOKED"
definition HTLC_REMOTE_F_OWNER :: u32 where "HTLC_REMOTE_F_OWNER = HTLC_FLAG REMOTE HTLC_F_OWNER"
definition HTLC_REMOTE_F_WAS_COMMITTED :: u32 where
  "HTLC_REMOTE_F_WAS_COMMITTED = HTLC_FLAG REMOTE HTLC_F_WAS_COMMITTED"
definition HTLC_LOCAL_F_PENDING :: u32 where "HTLC_LOCAL_F_PENDING = HTLC_FLAG LOCAL HTLC_F_PENDING"
definition HTLC_LOCAL_F_COMMITTED :: u32 where "HTLC_LOCAL_F_COMMITTED = HTLC_FLAG LOCAL HTLC_F_COMMITTED"
definition HTLC_LOCAL_F_REVOKED :: u32 where "HTLC_LOCAL_F_REVOKED = HTLC_FLAG LOCAL HTLC_F_REVOKED"
definition HTLC_LOCAL_F_OWNER :: u32 where "HTLC_LOCAL_F_OWNER = HTLC_FLAG LOCAL HTLC_F_OWNER"
definition HTLC_LOCAL_F_WAS_COMMITTED :: u32 where
  "HTLC_LOCAL_F_WAS_COMMITTED = HTLC_FLAG LOCAL HTLC_F_WAS_COMMITTED"

lemmas flag_defs [flag_simps] =
  HTLC_ADDING_def HTLC_REMOVING_def HTLC_F_PENDING_def HTLC_F_COMMITTED_def HTLC_F_REVOKED_def
  HTLC_F_OWNER_def HTLC_F_WAS_COMMITTED_def HTLC_FLAG_def
  HTLC_REMOTE_F_PENDING_def HTLC_REMOTE_F_COMMITTED_def HTLC_REMOTE_F_REVOKED_def
  HTLC_REMOTE_F_OWNER_def HTLC_REMOTE_F_WAS_COMMITTED_def
  HTLC_LOCAL_F_PENDING_def HTLC_LOCAL_F_COMMITTED_def HTLC_LOCAL_F_REVOKED_def
  HTLC_LOCAL_F_OWNER_def HTLC_LOCAL_F_WAS_COMMITTED_def

text \<open>The table; \<^verbatim>\<open>HTLC_STATE_INVALID\<close> lies outside it.\<close>

fun per_state_bits :: "htlc_state \<Rightarrow> u32" where
  "per_state_bits SENT_ADD_HTLC =
     HTLC_ADDING + HTLC_LOCAL_F_OWNER + HTLC_REMOTE_F_PENDING"
| "per_state_bits SENT_ADD_COMMIT =
     HTLC_ADDING + HTLC_LOCAL_F_OWNER + HTLC_REMOTE_F_COMMITTED + HTLC_REMOTE_F_WAS_COMMITTED"
| "per_state_bits RCVD_ADD_REVOCATION =
     HTLC_ADDING + HTLC_LOCAL_F_OWNER + HTLC_REMOTE_F_COMMITTED + HTLC_REMOTE_F_REVOKED + HTLC_LOCAL_F_PENDING + HTLC_REMOTE_F_WAS_COMMITTED"
| "per_state_bits RCVD_ADD_ACK_COMMIT =
     HTLC_ADDING + HTLC_LOCAL_F_OWNER + HTLC_REMOTE_F_COMMITTED + HTLC_REMOTE_F_REVOKED + HTLC_LOCAL_F_COMMITTED + HTLC_LOCAL_F_WAS_COMMITTED + HTLC_REMOTE_F_WAS_COMMITTED"
| "per_state_bits SENT_ADD_ACK_REVOCATION =
     HTLC_LOCAL_F_OWNER + HTLC_REMOTE_F_COMMITTED + HTLC_REMOTE_F_REVOKED + HTLC_LOCAL_F_COMMITTED + HTLC_LOCAL_F_REVOKED + HTLC_LOCAL_F_WAS_COMMITTED + HTLC_REMOTE_F_WAS_COMMITTED"
| "per_state_bits RCVD_REMOVE_HTLC =
     HTLC_REMOVING + HTLC_LOCAL_F_OWNER + HTLC_LOCAL_F_PENDING + HTLC_LOCAL_F_COMMITTED + HTLC_REMOTE_F_COMMITTED + HTLC_LOCAL_F_WAS_COMMITTED + HTLC_REMOTE_F_WAS_COMMITTED"
| "per_state_bits RCVD_REMOVE_COMMIT =
     HTLC_REMOVING + HTLC_LOCAL_F_OWNER + HTLC_REMOTE_F_COMMITTED + HTLC_LOCAL_F_WAS_COMMITTED + HTLC_REMOTE_F_WAS_COMMITTED"
| "per_state_bits SENT_REMOVE_REVOCATION =
     HTLC_REMOVING + HTLC_LOCAL_F_OWNER + HTLC_REMOTE_F_COMMITTED + HTLC_LOCAL_F_REVOKED + HTLC_REMOTE_F_PENDING + HTLC_LOCAL_F_WAS_COMMITTED + HTLC_REMOTE_F_WAS_COMMITTED"
| "per_state_bits SENT_REMOVE_ACK_COMMIT =
     HTLC_REMOVING + HTLC_LOCAL_F_OWNER + HTLC_LOCAL_F_REVOKED + HTLC_LOCAL_F_WAS_COMMITTED + HTLC_REMOTE_F_WAS_COMMITTED"
| "per_state_bits RCVD_REMOVE_ACK_REVOCATION =
     HTLC_LOCAL_F_OWNER + HTLC_LOCAL_F_REVOKED + HTLC_REMOTE_F_REVOKED + HTLC_LOCAL_F_WAS_COMMITTED + HTLC_REMOTE_F_WAS_COMMITTED"
| "per_state_bits RCVD_ADD_HTLC =
     HTLC_ADDING + HTLC_REMOTE_F_OWNER + HTLC_LOCAL_F_PENDING"
| "per_state_bits RCVD_ADD_COMMIT =
     HTLC_ADDING + HTLC_REMOTE_F_OWNER + HTLC_LOCAL_F_COMMITTED + HTLC_LOCAL_F_WAS_COMMITTED"
| "per_state_bits SENT_ADD_REVOCATION =
     HTLC_ADDING + HTLC_REMOTE_F_OWNER + HTLC_LOCAL_F_COMMITTED + HTLC_LOCAL_F_REVOKED + HTLC_REMOTE_F_PENDING + HTLC_LOCAL_F_WAS_COMMITTED"
| "per_state_bits SENT_ADD_ACK_COMMIT =
     HTLC_ADDING + HTLC_REMOTE_F_OWNER + HTLC_LOCAL_F_COMMITTED + HTLC_LOCAL_F_REVOKED + HTLC_REMOTE_F_COMMITTED + HTLC_LOCAL_F_WAS_COMMITTED + HTLC_REMOTE_F_WAS_COMMITTED"
| "per_state_bits RCVD_ADD_ACK_REVOCATION =
     HTLC_REMOTE_F_OWNER + HTLC_LOCAL_F_COMMITTED + HTLC_LOCAL_F_REVOKED + HTLC_REMOTE_F_COMMITTED + HTLC_REMOTE_F_REVOKED + HTLC_LOCAL_F_WAS_COMMITTED + HTLC_REMOTE_F_WAS_COMMITTED"
| "per_state_bits SENT_REMOVE_HTLC =
     HTLC_REMOVING + HTLC_REMOTE_F_OWNER + HTLC_REMOTE_F_PENDING + HTLC_LOCAL_F_COMMITTED + HTLC_REMOTE_F_COMMITTED + HTLC_LOCAL_F_WAS_COMMITTED + HTLC_REMOTE_F_WAS_COMMITTED"
| "per_state_bits SENT_REMOVE_COMMIT =
     HTLC_REMOVING + HTLC_REMOTE_F_OWNER + HTLC_LOCAL_F_COMMITTED + HTLC_LOCAL_F_WAS_COMMITTED + HTLC_REMOTE_F_WAS_COMMITTED"
| "per_state_bits RCVD_REMOVE_REVOCATION =
     HTLC_REMOVING + HTLC_REMOTE_F_OWNER + HTLC_LOCAL_F_COMMITTED + HTLC_REMOTE_F_REVOKED + HTLC_LOCAL_F_PENDING + HTLC_LOCAL_F_WAS_COMMITTED + HTLC_REMOTE_F_WAS_COMMITTED"
| "per_state_bits RCVD_REMOVE_ACK_COMMIT =
     HTLC_REMOVING + HTLC_REMOTE_F_OWNER + HTLC_REMOTE_F_REVOKED + HTLC_LOCAL_F_WAS_COMMITTED + HTLC_REMOTE_F_WAS_COMMITTED"
| "per_state_bits SENT_REMOVE_ACK_REVOCATION =
     HTLC_REMOTE_F_OWNER + HTLC_REMOTE_F_REVOKED + HTLC_LOCAL_F_REVOKED + HTLC_LOCAL_F_WAS_COMMITTED + HTLC_REMOTE_F_WAS_COMMITTED"
| "per_state_bits HTLC_STATE_INVALID = 0"

text \<open>
  \<^verbatim>\<open>htlc_state_flags\<close> asserts that the state is in the table and has flags there; the
  assertion is a separate predicate, which operations that take or compute a state check.
\<close>

definition htlc_state_flags_assert :: "htlc_state \<Rightarrow> bool" where
  "htlc_state_flags_assert state \<longleftrightarrow> htlc_state_num state < 20 \<and> per_state_bits state \<noteq> 0"

definition htlc_state_flags :: "htlc_state \<Rightarrow> u32" where
  "htlc_state_flags state = per_state_bits state"

definition htlc_state_owner :: "htlc_state \<Rightarrow> side" where
  "htlc_state_owner state = (if htlc_state_num state < htlc_state_num RCVD_ADD_HTLC then LOCAL else REMOTE)"

text \<open>The assertion on either branch of \<^verbatim>\<open>htlc_state_owner\<close>.\<close>

definition htlc_state_owner_assert :: "htlc_state \<Rightarrow> bool" where
  "htlc_state_owner_assert state \<longleftrightarrow>
     htlc_state_flags state AND (HTLC_REMOTE_F_OWNER OR HTLC_LOCAL_F_OWNER) =
     (if htlc_state_num state < htlc_state_num RCVD_ADD_HTLC then HTLC_LOCAL_F_OWNER
      else HTLC_REMOTE_F_OWNER)"

section \<open>HTLCs\<close>

text \<open>
  \<^verbatim>\<open>struct htlc\<close>. A pointer that may be \<^verbatim>\<open>NULL\<close> is an \<open>option\<close>; \<open>h_expiry\<close> is the
  \<^verbatim>\<open>abs_locktime\<close>, \<open>h_failcode\<close> the number of the \<^verbatim>\<open>enum onion_type\<close>, \<open>h_failed_scid\<close>
  the 64-bit short channel id.
\<close>

record htlc =
  h_state :: htlc_state
  h_id :: u64
  h_msatoshi :: u64
  h_expiry :: u32
  h_rhash :: bytes
  h_r :: "bytes option"
  h_shared_secret :: "bytes option"
  h_routing :: bytes
  h_fail :: "bytes option"
  h_failcode :: u16
  h_failed_scid :: "u64 option"

definition htlc_has :: "htlc \<Rightarrow> u32 \<Rightarrow> bool" where
  "htlc_has h flag \<longleftrightarrow> htlc_state_flags (h_state h) AND flag \<noteq> 0"

definition htlc_owner :: "htlc \<Rightarrow> side" where
  "htlc_owner h = htlc_state_owner (h_state h)"

text \<open>
  The hash table \<^verbatim>\<open>htlc_map\<close> is the list of its entries in iteration order. \<^verbatim>\<open>htlc_get\<close>
  walks the entries with a given key.
\<close>

type_synonym htlc_map = "htlc list"

definition htlc_key :: "htlc \<Rightarrow> u64" where
  "htlc_key h = h_id h"

definition htlc_cmp :: "htlc \<Rightarrow> u64 \<Rightarrow> bool" where
  "htlc_cmp h hid \<longleftrightarrow> h_id h = hid"

definition htlc_get :: "htlc_map \<Rightarrow> u64 \<Rightarrow> side \<Rightarrow> htlc option" where
  "htlc_get htlcs hid owner =
     find (\<lambda>h. h_id h = hid \<and> htlc_has h (HTLC_FLAG owner HTLC_F_OWNER)) [h \<leftarrow> htlcs. htlc_cmp h hid]"

definition htlc_is_dead :: "htlc \<Rightarrow> bool" where
  "htlc_is_dead h \<longleftrightarrow> h_state h = RCVD_REMOVE_ACK_REVOCATION \<or> h_state h = SENT_REMOVE_ACK_REVOCATION"

section \<open>The table\<close>

lemma other_other [simp]: "other (other s) = s"
  by (cases s) auto

lemma other_neq [simp]: "other s \<noteq> s" "s \<noteq> other s"
  by (cases s; simp)+

lemma side_cases: "s' = s \<or> s' = other s"
  by (cases s; cases s') auto

text \<open>
  The five flags of either side, and the general ones, of a state, as predicates: what the
  proofs about channels split on.
\<close>

definition is_pending :: "side \<Rightarrow> htlc_state \<Rightarrow> bool" where
  "is_pending sd s \<longleftrightarrow> htlc_state_flags s AND HTLC_FLAG sd HTLC_F_PENDING \<noteq> 0"
definition is_committed :: "side \<Rightarrow> htlc_state \<Rightarrow> bool" where
  "is_committed sd s \<longleftrightarrow> htlc_state_flags s AND HTLC_FLAG sd HTLC_F_COMMITTED \<noteq> 0"
definition is_was_committed :: "side \<Rightarrow> htlc_state \<Rightarrow> bool" where
  "is_was_committed sd s \<longleftrightarrow> htlc_state_flags s AND HTLC_FLAG sd HTLC_F_WAS_COMMITTED \<noteq> 0"
definition is_revoked :: "side \<Rightarrow> htlc_state \<Rightarrow> bool" where
  "is_revoked sd s \<longleftrightarrow> htlc_state_flags s AND HTLC_FLAG sd HTLC_F_REVOKED \<noteq> 0"

lemma htlc_state_flags_assert_iff [simp]: "htlc_state_flags_assert s \<longleftrightarrow> s \<noteq> HTLC_STATE_INVALID"
  by (cases s) (simp_all add: htlc_state_flags_assert_def flag_simps)

lemma htlc_state_owner_assert_iff [simp]: "htlc_state_owner_assert s \<longleftrightarrow> s \<noteq> HTLC_STATE_INVALID"
  by (cases s) (simp_all add: htlc_state_owner_assert_def htlc_state_flags_def flag_simps)

lemma htlc_has_owner:
  "h_state h \<noteq> HTLC_STATE_INVALID \<Longrightarrow> htlc_has h (HTLC_FLAG sd HTLC_F_OWNER) \<longleftrightarrow> htlc_owner h = sd"
  by (cases "h_state h"; cases sd)
    (simp_all add: htlc_has_def htlc_owner_def htlc_state_owner_def htlc_state_flags_def flag_simps)

end
