(* ===== verification/CommitTx.thy ===== *)
theory CommitTx
  imports PermuteTx HtlcState
begin

text \<open>
  \<^verbatim>\<open>common/htlc_tx.c\<close>, \<^verbatim>\<open>common/initial_commit_tx.c\<close> and \<^verbatim>\<open>channeld/commit_tx.c\<close>: the
  HTLC-success and HTLC-timeout transactions, and the commitment transaction without and
  with HTLCs.

  The lemmas describe a commitment transaction by the list of its outputs before sorting:
  one row per untrimmed HTLC and one per balance above the dust limit. Every output is one of
  them, the HTLC map names the HTLC of each output, the outputs never exceed the funding
  amount, and the commitment number can be read back from the lock time and the sequence.
\<close>

section \<open>HTLC transactions\<close>

definition htlc_timeout_fee :: "u32 \<Rightarrow> u64" where
  "htlc_timeout_fee feerate_per_kw = ucast feerate_per_kw * 663 div 1000"

definition htlc_success_fee :: "u32 \<Rightarrow> u64" where
  "htlc_success_fee feerate_per_kw = ucast feerate_per_kw * 703 div 1000"

definition htlc_tx ::
    "('pk, 'sg) secp \<Rightarrow> bytes \<Rightarrow> u32 \<Rightarrow> u64 \<Rightarrow> u16 \<Rightarrow> 'pk \<Rightarrow> 'pk \<Rightarrow> u64 \<Rightarrow> u32 \<Rightarrow> bitcoin_tx" where
  "htlc_tx S commit_txid commit_output_number msatoshi to_self_delay revocation_pubkey local_delayedkey
      htlc_fee_satoshi locktime =
     (let tx = bitcoin_tx_alloc 1 1;
          tx = tx\<lparr>tx_lock_time := locktime\<rparr>;
          amount = msatoshi div 1000;
          input = (tx_input tx ! 0)\<lparr>ti_txid := commit_txid, ti_index := commit_output_number,
            ti_amount := Some amount, ti_sequence_number := 0\<rparr>;
          wscript = bitcoin_wscript_htlc_tx S to_self_delay revocation_pubkey local_delayedkey;
          output = (tx_output tx ! 0)\<lparr>to_amount := amount - htlc_fee_satoshi,
            to_script := scriptpubkey_p2wsh wscript\<rparr>
      in tx\<lparr>tx_input := (tx_input tx)[0 := input], tx_output := (tx_output tx)[0 := output]\<rparr>)"

definition htlc_success_tx ::
    "('pk, 'sg) secp \<Rightarrow> bytes \<Rightarrow> u32 \<Rightarrow> u64 \<Rightarrow> u16 \<Rightarrow> u32 \<Rightarrow> 'pk keyset \<Rightarrow> bitcoin_tx" where
  "htlc_success_tx S commit_txid commit_output_number htlc_msatoshi to_self_delay feerate_per_kw keyset =
     htlc_tx S commit_txid commit_output_number htlc_msatoshi to_self_delay
       (self_revocation_key keyset) (self_delayed_payment_key keyset)
       (htlc_success_fee feerate_per_kw) 0"

text \<open>\<open>None\<close> where a signature fails the assertion of its encoding.\<close>

definition htlc_success_tx_add_witness ::
    "('pk, 'sg) secp \<Rightarrow> bitcoin_tx \<Rightarrow> u32 \<Rightarrow> 'pk \<Rightarrow> 'pk \<Rightarrow> 'sg \<Rightarrow> 'sg \<Rightarrow> bytes \<Rightarrow> 'pk \<Rightarrow> bitcoin_tx option" where
  "htlc_success_tx_add_witness S htlc_success htlc_abstimeout localhtlckey remotehtlckey localhtlcsig
      remotehtlcsig payment_preimage revocationkey =
     (let hash = sha256 payment_preimage;
          wscript = bitcoin_wscript_htlc_receive S htlc_abstimeout localhtlckey remotehtlckey hash revocationkey
      in do {
        w \<leftarrow> bitcoin_witness_htlc_success_tx S localhtlcsig remotehtlcsig payment_preimage wscript;
        Some (htlc_success\<lparr>tx_input := (tx_input htlc_success)
          [0 := (tx_input htlc_success ! 0)\<lparr>ti_witness := Some w\<rparr>]\<rparr>)
      })"

definition htlc_timeout_tx ::
    "('pk, 'sg) secp \<Rightarrow> bytes \<Rightarrow> u32 \<Rightarrow> u64 \<Rightarrow> u32 \<Rightarrow> u16 \<Rightarrow> u32 \<Rightarrow> 'pk keyset \<Rightarrow> bitcoin_tx" where
  "htlc_timeout_tx S commit_txid commit_output_number htlc_msatoshi cltv_expiry to_self_delay feerate_per_kw keyset =
     htlc_tx S commit_txid commit_output_number htlc_msatoshi to_self_delay
       (self_revocation_key keyset) (self_delayed_payment_key keyset)
       (htlc_timeout_fee feerate_per_kw) cltv_expiry"

definition htlc_timeout_tx_add_witness ::
    "('pk, 'sg) secp \<Rightarrow> bitcoin_tx \<Rightarrow> 'pk \<Rightarrow> 'pk \<Rightarrow> bytes \<Rightarrow> 'pk \<Rightarrow> 'sg \<Rightarrow> 'sg \<Rightarrow> bitcoin_tx option" where
  "htlc_timeout_tx_add_witness S htlc_timeout localhtlckey remotehtlckey payment_hash revocationkey
      localhtlcsig remotehtlcsig =
     (let wscript = bitcoin_wscript_htlc_offer S localhtlckey remotehtlckey payment_hash revocationkey
      in do {
        w \<leftarrow> bitcoin_witness_htlc_timeout_tx S localhtlcsig remotehtlcsig wscript;
        Some (htlc_timeout\<lparr>tx_input := (tx_input htlc_timeout)
          [0 := (tx_input htlc_timeout ! 0)\<lparr>ti_witness := Some w\<rparr>]\<rparr>)
      })"

definition htlc_offered_wscript :: "('pk, 'sg) secp \<Rightarrow> bytes \<Rightarrow> 'pk keyset \<Rightarrow> bytes" where
  "htlc_offered_wscript S ripemd keyset =
     bitcoin_wscript_htlc_offer_ripemd160 S (self_htlc_key keyset) (other_htlc_key keyset) ripemd
       (self_revocation_key keyset)"

definition htlc_received_wscript :: "('pk, 'sg) secp \<Rightarrow> bytes \<Rightarrow> u32 \<Rightarrow> 'pk keyset \<Rightarrow> bytes" where
  "htlc_received_wscript S ripemd expiry keyset =
     bitcoin_wscript_htlc_receive_ripemd S expiry (self_htlc_key keyset) (other_htlc_key keyset) ripemd
       (self_revocation_key keyset)"

section \<open>The initial commitment transaction\<close>

definition commit_number_obscurer :: "('pk, 'sg) secp \<Rightarrow> 'pk \<Rightarrow> 'pk \<Rightarrow> u64" where
  "commit_number_obscurer S opener_payment_basepoint accepter_payment_basepoint =
     (let ders = pubkey_to_der S opener_payment_basepoint @ pubkey_to_der S accepter_payment_basepoint;
          sha = sha256 ders;
          obscurer = memcpy_at (replicate 8 0) 2 (take 6 (drop (length sha - 6) sha))
      in be64_to_cpu obscurer)"

definition commit_tx_base_fee :: "u32 \<Rightarrow> nat \<Rightarrow> u64" where
  "commit_tx_base_fee feerate_per_kw num_untrimmed_htlcs =
     (let weight = 724 + 172 * of_nat num_untrimmed_htlcs
      in ucast feerate_per_kw * weight div 1000)"

text \<open>The return value and the new \<^verbatim>\<open>*self_msat\<close> and \<^verbatim>\<open>*other_msat\<close>.\<close>

definition try_subtract_fee :: "side \<Rightarrow> side \<Rightarrow> u64 \<Rightarrow> u64 \<Rightarrow> u64 \<Rightarrow> bool \<times> u64 \<times> u64" where
  "try_subtract_fee funder side base_fee_msat self_msat other_msat =
     (if funder = side
      then if self_msat \<ge> base_fee_msat then (True, self_msat - base_fee_msat, other_msat)
           else (False, 0, other_msat)
      else if other_msat \<ge> base_fee_msat then (True, self_msat, other_msat - base_fee_msat)
           else (False, self_msat, 0))"

definition to_self_wscript :: "('pk, 'sg) secp \<Rightarrow> u16 \<Rightarrow> 'pk keyset \<Rightarrow> bytes" where
  "to_self_wscript S to_self_delay keyset =
     bitcoin_wscript_to_local S to_self_delay (self_revocation_key keyset) (self_delayed_payment_key keyset)"

text \<open>
  The tail both transactions share: lock time, funding input and sequence. \<open>None\<close> outside, as
  in all of this theory, is a failed assertion; \<open>Some None\<close> is NULL.
\<close>

definition commit_tx_finish :: "bytes \<Rightarrow> u32 \<Rightarrow> u64 \<Rightarrow> u64 \<Rightarrow> bitcoin_tx \<Rightarrow> bitcoin_tx" where
  "commit_tx_finish funding_txid funding_txout funding_satoshis obscured_commitment_number tx =
     (let tx = tx\<lparr>tx_lock_time := ucast (0x20000000 OR (obscured_commitment_number AND 0xFFFFFF))\<rparr>;
          input = (tx_input tx ! 0)\<lparr>ti_txid := funding_txid, ti_index := funding_txout,
            ti_sequence_number := ucast (0x80000000 OR (drop_bit 24 obscured_commitment_number AND 0xFFFFFF)),
            ti_amount := Some funding_satoshis\<rparr>
      in tx\<lparr>tx_input := (tx_input tx)[0 := input]\<rparr>)"

definition initial_commit_tx ::
    "('pk, 'sg) secp \<Rightarrow> bytes \<Rightarrow> u32 \<Rightarrow> u64 \<Rightarrow> side \<Rightarrow> u16 \<Rightarrow> 'pk keyset \<Rightarrow> u32 \<Rightarrow> u64 \<Rightarrow> u64 \<Rightarrow> u64 \<Rightarrow> u64 \<Rightarrow>
      u64 \<Rightarrow> side \<Rightarrow> bitcoin_tx option option" where
  "initial_commit_tx S funding_txid funding_txout funding_satoshis funder to_self_delay keyset feerate_per_kw
      dust_limit_satoshis self_pay_msat other_pay_msat self_reserve_msat obscured_commitment_number side =
     (if \<not> (self_pay_msat + other_pay_msat \<le> funding_satoshis * 1000) then None
      else
        let untrimmed = 0;
            base_fee_msat = commit_tx_base_fee feerate_per_kw untrimmed * 1000;
            (ok, self_pay_msat, other_pay_msat) =
              try_subtract_fee funder side base_fee_msat self_pay_msat other_pay_msat
        in if \<not> ok then Some None
           else if self_pay_msat \<le> self_reserve_msat \<and> other_pay_msat \<le> self_reserve_msat then Some None
           else
             let tx = bitcoin_tx_alloc 1 (untrimmed + 2);
                 n = 0;
                 (tx, n) =
                   (if self_pay_msat div 1000 \<ge> dust_limit_satoshis
                    then (tx\<lparr>tx_output := (tx_output tx)[n := \<lparr>to_amount = self_pay_msat div 1000,
                            to_script = scriptpubkey_p2wsh (to_self_wscript S to_self_delay keyset)\<rparr>]\<rparr>, n + 1)
                    else (tx, n));
                 (tx, n) =
                   (if other_pay_msat div 1000 \<ge> dust_limit_satoshis
                    then (tx\<lparr>tx_output := (tx_output tx)[n := \<lparr>to_amount = other_pay_msat div 1000,
                            to_script = scriptpubkey_p2wpkh S (other_payment_key keyset)\<rparr>]\<rparr>, n + 1)
                    else (tx, n))
             in if \<not> n \<le> length (tx_output tx) then None
                else
                  let tx = tx\<lparr>tx_output := take n (tx_output tx)\<rparr>;
                      tx = tx\<lparr>tx_output := fst (permute_outputs (tx_output tx) None (None :: unit option list option))\<rparr>
                  in Some (Some (commit_tx_finish funding_txid funding_txout funding_satoshis
                       obscured_commitment_number tx)))"

section \<open>The commitment transaction\<close>

definition trim :: "htlc \<Rightarrow> u32 \<Rightarrow> u64 \<Rightarrow> side \<Rightarrow> bool" where
  "trim htlc feerate_per_kw dust_limit_satoshis side =
     (let htlc_fee = (if htlc_owner htlc = side then htlc_timeout_fee feerate_per_kw
                      else htlc_success_fee feerate_per_kw)
      in h_msatoshi htlc div 1000 < dust_limit_satoshis + htlc_fee)"

definition commit_tx_num_untrimmed :: "htlc list \<Rightarrow> u32 \<Rightarrow> u64 \<Rightarrow> side \<Rightarrow> nat" where
  "commit_tx_num_untrimmed htlcs feerate_per_kw dust_limit_satoshis side =
     fold (\<lambda>h n. n + (if \<not> trim h feerate_per_kw dust_limit_satoshis side then 1 else 0)) htlcs 0"

definition add_offered_htlc_out ::
    "('pk, 'sg) secp \<Rightarrow> bitcoin_tx \<Rightarrow> nat \<Rightarrow> htlc \<Rightarrow> 'pk keyset \<Rightarrow> bitcoin_tx" where
  "add_offered_htlc_out S tx n htlc keyset =
     (let ripemd = ripemd160 (h_rhash htlc);
          wscript = htlc_offered_wscript S ripemd keyset
      in tx\<lparr>tx_output := (tx_output tx)[n := \<lparr>to_amount = h_msatoshi htlc div 1000,
           to_script = scriptpubkey_p2wsh wscript\<rparr>]\<rparr>)"

definition add_received_htlc_out ::
    "('pk, 'sg) secp \<Rightarrow> bitcoin_tx \<Rightarrow> nat \<Rightarrow> htlc \<Rightarrow> 'pk keyset \<Rightarrow> bitcoin_tx" where
  "add_received_htlc_out S tx n htlc keyset =
     (let ripemd = ripemd160 (h_rhash htlc);
          wscript = htlc_received_wscript S ripemd (h_expiry htlc) keyset
      in tx\<lparr>tx_output := (tx_output tx)[n := \<lparr>to_amount = h_msatoshi htlc div 1000,
           to_script = scriptpubkey_p2wsh wscript\<rparr>]\<rparr>)"

text \<open>The transaction, \<^verbatim>\<open>*htlcmap\<close>, \<^verbatim>\<open>cltvs\<close> and \<^verbatim>\<open>n\<close> while the outputs are added.\<close>

type_synonym commit_build = "bitcoin_tx \<times> htlc option list \<times> u32 list \<times> nat"

text \<open>The bodies of the two loops over the HTLCs.\<close>

definition commit_tx_offered ::
    "('pk, 'sg) secp \<Rightarrow> 'pk keyset \<Rightarrow> u32 \<Rightarrow> u64 \<Rightarrow> side \<Rightarrow> htlc \<Rightarrow> commit_build \<Rightarrow> commit_build option" where
  "commit_tx_offered S keyset feerate_per_kw dust_limit_satoshis side h st =
     (if htlc_owner h \<noteq> side then Some st
      else if trim h feerate_per_kw dust_limit_satoshis side then Some st
      else case st of (tx, htlcmap, cltvs, n) \<Rightarrow>
        do {
          blocks \<leftarrow> abs_locktime_to_blocks (h_expiry h);
          Some (add_offered_htlc_out S tx n h keyset, htlcmap[n := Some h], cltvs[n := blocks], n + 1)
        })"

definition commit_tx_received ::
    "('pk, 'sg) secp \<Rightarrow> 'pk keyset \<Rightarrow> u32 \<Rightarrow> u64 \<Rightarrow> side \<Rightarrow> htlc \<Rightarrow> commit_build \<Rightarrow> commit_build option" where
  "commit_tx_received S keyset feerate_per_kw dust_limit_satoshis side h st =
     (if htlc_owner h = side then Some st
      else if trim h feerate_per_kw dust_limit_satoshis side then Some st
      else case st of (tx, htlcmap, cltvs, n) \<Rightarrow>
        do {
          blocks \<leftarrow> abs_locktime_to_blocks (h_expiry h);
          Some (add_received_htlc_out S tx n h keyset, htlcmap[n := Some h], cltvs[n := blocks], n + 1)
        })"

text \<open>A balance output: appended unless below the dust limit, with no HTLC and no expiry written.\<close>

definition commit_tx_balance :: "u64 \<Rightarrow> u64 \<Rightarrow> bytes \<Rightarrow> commit_build \<Rightarrow> commit_build" where
  "commit_tx_balance dust_limit_satoshis pay_msat script st =
     (if pay_msat div 1000 \<ge> dust_limit_satoshis
      then case st of (tx, htlcmap, cltvs, n) \<Rightarrow>
        (tx\<lparr>tx_output := (tx_output tx)[n := \<lparr>to_amount = pay_msat div 1000, to_script = script\<rparr>]\<rparr>,
         htlcmap[n := None], cltvs, n + 1)
      else st)"

text \<open>
  \<open>uninit i\<close> is the content of entry \<open>i\<close> of the array \<^verbatim>\<open>cltvs\<close> where no expiry is written: the
  array comes from \<^verbatim>\<open>tal_arr\<close> uninitialised.
\<close>

definition commit_tx ::
    "('pk, 'sg) secp \<Rightarrow> (nat \<Rightarrow> u32) \<Rightarrow> bytes \<Rightarrow> u32 \<Rightarrow> u64 \<Rightarrow> side \<Rightarrow> u16 \<Rightarrow> 'pk keyset \<Rightarrow> u32 \<Rightarrow> u64 \<Rightarrow> u64 \<Rightarrow> u64 \<Rightarrow>
      htlc list \<Rightarrow> u64 \<Rightarrow> side \<Rightarrow> (bitcoin_tx \<times> htlc option list) option" where
  "commit_tx S uninit funding_txid funding_txout funding_satoshis funder to_self_delay keyset feerate_per_kw
      dust_limit_satoshis self_pay_msat other_pay_msat htlcs obscured_commitment_number side =
     (if \<not> (self_pay_msat + other_pay_msat \<le> funding_satoshis * 1000) then None
      else
        let untrimmed = commit_tx_num_untrimmed htlcs feerate_per_kw dust_limit_satoshis side;
            base_fee_msat = commit_tx_base_fee feerate_per_kw untrimmed * 1000;
            (_, self_pay_msat, other_pay_msat) =
              try_subtract_fee funder side base_fee_msat self_pay_msat other_pay_msat;
            tx = bitcoin_tx_alloc 1 (untrimmed + 2);
            htlcmap = replicate (length (tx_output tx)) None;
            cltvs = map uninit [0..<length (tx_output tx)];
            n = 0
        in do {
          st \<leftarrow> fold (\<lambda>h st. st \<bind> commit_tx_offered S keyset feerate_per_kw dust_limit_satoshis side h)
                 htlcs (Some (tx, htlcmap, cltvs, n));
          st \<leftarrow> fold (\<lambda>h st. st \<bind> commit_tx_received S keyset feerate_per_kw dust_limit_satoshis side h)
                 htlcs (Some st);
          let (tx, htlcmap, cltvs, n) =
            commit_tx_balance dust_limit_satoshis other_pay_msat (scriptpubkey_p2wpkh S (other_payment_key keyset))
              (commit_tx_balance dust_limit_satoshis self_pay_msat
                (scriptpubkey_p2wsh (to_self_wscript S to_self_delay keyset)) st);
          if \<not> n \<le> length (tx_output tx) then None
          else do {
            let tx = tx\<lparr>tx_output := take n (tx_output tx)\<rparr>;
            let htlcmap = take n htlcmap;
            let (outputs, htlcmap, _) = permute_outputs (tx_output tx) (Some cltvs) (Some htlcmap);
            let tx = tx\<lparr>tx_output := outputs\<rparr>;
            htlcmap \<leftarrow> htlcmap;
            Some (commit_tx_finish funding_txid funding_txout funding_satoshis obscured_commitment_number tx, htlcmap)
          }
        })"

text \<open>\<^verbatim>\<open>unmask_commit_number\<close> of \<^verbatim>\<open>onchaind/onchaind.c\<close> reads the commitment number back.\<close>

definition unmask_commit_number :: "('pk, 'sg) secp \<Rightarrow> bitcoin_tx \<Rightarrow> side \<Rightarrow> 'pk \<Rightarrow> 'pk \<Rightarrow> u64" where
  "unmask_commit_number S tx funder local_payment_basepoint remote_payment_basepoint =
     (let keys = (\<lambda>s. case s of LOCAL \<Rightarrow> local_payment_basepoint | REMOTE \<Rightarrow> remote_payment_basepoint);
          obscurer = commit_number_obscurer S (keys funder) (keys (other funder))
      in (ucast (tx_lock_time tx AND 0x00FFFFFF) OR
          push_bit 24 (ucast (ti_sequence_number (tx_input tx ! 0)) AND 0x00FFFFFF)) XOR obscurer)"

section \<open>The outputs as rows\<close>

definition offered_row :: "('pk, 'sg) secp \<Rightarrow> 'pk keyset \<Rightarrow> htlc \<Rightarrow> htlc row" where
  "offered_row S keyset h =
     (\<lparr>to_amount = h_msatoshi h div 1000,
       to_script = scriptpubkey_p2wsh (htlc_offered_wscript S (ripemd160 (h_rhash h)) keyset)\<rparr>,
      h_expiry h, Some h)"

definition received_row :: "('pk, 'sg) secp \<Rightarrow> 'pk keyset \<Rightarrow> htlc \<Rightarrow> htlc row" where
  "received_row S keyset h =
     (\<lparr>to_amount = h_msatoshi h div 1000,
       to_script = scriptpubkey_p2wsh (htlc_received_wscript S (ripemd160 (h_rhash h)) (h_expiry h) keyset)\<rparr>,
      h_expiry h, Some h)"

definition balance_rows :: "(nat \<Rightarrow> u32) \<Rightarrow> u64 \<Rightarrow> u64 \<Rightarrow> bytes \<Rightarrow> htlc row list \<Rightarrow> htlc row list" where
  "balance_rows uninit dust pay_msat script rws =
     (if pay_msat div 1000 \<ge> dust
      then rws @ [(\<lparr>to_amount = pay_msat div 1000, to_script = script\<rparr>, uninit (length rws), None)] else rws)"

definition htlc_rows :: "('pk, 'sg) secp \<Rightarrow> 'pk keyset \<Rightarrow> u32 \<Rightarrow> u64 \<Rightarrow> side \<Rightarrow> htlc list \<Rightarrow> htlc row list" where
  "htlc_rows S keyset feerate dust side htlcs =
     map (offered_row S keyset) [h \<leftarrow> htlcs. htlc_owner h = side \<and> \<not> trim h feerate dust side] @
     map (received_row S keyset) [h \<leftarrow> htlcs. htlc_owner h \<noteq> side \<and> \<not> trim h feerate dust side]"

definition commit_rows ::
    "('pk, 'sg) secp \<Rightarrow> (nat \<Rightarrow> u32) \<Rightarrow> u16 \<Rightarrow> 'pk keyset \<Rightarrow> u32 \<Rightarrow> u64 \<Rightarrow> u64 \<Rightarrow> u64 \<Rightarrow> htlc list \<Rightarrow> side \<Rightarrow> htlc row list" where
  "commit_rows S uninit to_self_delay keyset feerate dust self_pay other_pay htlcs side =
     balance_rows uninit dust other_pay (scriptpubkey_p2wpkh S (other_payment_key keyset))
       (balance_rows uninit dust self_pay (scriptpubkey_p2wsh (to_self_wscript S to_self_delay keyset))
         (htlc_rows S keyset feerate dust side htlcs))"

text \<open>What the arrays hold while outputs are added: the rows so far, and nothing written behind them.\<close>

definition build_rep :: "(nat \<Rightarrow> u32) \<Rightarrow> bitcoin_tx \<Rightarrow> commit_build \<Rightarrow> htlc row list \<Rightarrow> bool" where
  "build_rep uninit tx0 st rws \<longleftrightarrow> (case st of (tx, m, c, n) \<Rightarrow>
     n = length rws \<and> length rws \<le> length (tx_output tx0) \<and>
     length (tx_output tx) = length (tx_output tx0) \<and> length m = length (tx_output tx0) \<and>
     length c = length (tx_output tx0) \<and> take n (zip (tx_output tx) (zip c m)) = rws \<and>
     tx_input tx = tx_input tx0 \<and> tx_version tx = tx_version tx0 \<and> tx_lock_time tx = tx_lock_time tx0 \<and>
     (\<forall>i. n \<le> i \<longrightarrow> i < length c \<longrightarrow> c ! i = uninit i))"

lemma build_push:
  assumes rep: "build_rep uninit tx0 (tx, m, c, n) rws" and room: "n < length (tx_output tx0)"
  shows "build_rep uninit tx0 (tx\<lparr>tx_output := (tx_output tx)[n := out]\<rparr>, m[n := mp], c[n := v], n + 1)
    (rws @ [(out, v, mp)])"
proof -
  let ?z = "zip (tx_output tx) (zip c m)"
  have l: "length (tx_output tx) = length (tx_output tx0)" "length m = length (tx_output tx0)"
    "length c = length (tx_output tx0)" "take n ?z = rws" "n = length rws"
    using rep by (auto simp: build_rep_def)
  have "zip ((tx_output tx)[n := out]) (zip (c[n := v]) (m[n := mp])) = ?z[n := (out, v, mp)]"
    by (simp add: update_zip)
  moreover have "take (Suc n) (?z[n := (out, v, mp)]) = take n ?z @ [(out, v, mp)]"
    using l room by (simp add: take_Suc_conv_app_nth)
  ultimately show ?thesis using rep room l by (auto simp: build_rep_def nth_list_update)
qed

lemma build_push_None:
  assumes rep: "build_rep uninit tx0 (tx, m, c, n) rws" and room: "n < length (tx_output tx0)"
  shows "build_rep uninit tx0 (tx\<lparr>tx_output := (tx_output tx)[n := out]\<rparr>, m[n := mp], c, n + 1)
    (rws @ [(out, uninit n, mp)])"
proof -
  have "c ! n = uninit n" "n < length c" using rep room by (auto simp: build_rep_def)
  then have "c[n := uninit n] = c" by (metis list_update_id)
  with build_push [OF assms, of out mp "uninit n"] show ?thesis by simp
qed

text \<open>Block-based expiries, as the conversion asserts.\<close>

definition block_expiry :: "htlc \<Rightarrow> bool" where
  "block_expiry h \<longleftrightarrow> \<not> abs_locktime_is_seconds (h_expiry h)"

lemma build_offered:
  assumes "build_rep uninit tx0 st rws"
    and "length rws + length [h \<leftarrow> hs. htlc_owner h = side \<and> \<not> trim h feerate dust side] \<le> length (tx_output tx0)"
    and "\<And>h. h \<in> set hs \<Longrightarrow> \<not> trim h feerate dust side \<Longrightarrow> block_expiry h"
  shows "\<exists>st'. fold (\<lambda>h st. st \<bind> commit_tx_offered S keyset feerate dust side h) hs (Some st) = Some st' \<and>
    build_rep uninit tx0 st'
      (rws @ map (offered_row S keyset) [h \<leftarrow> hs. htlc_owner h = side \<and> \<not> trim h feerate dust side])"
  using assms
proof (induction hs arbitrary: st rws)
  case Nil
  then show ?case by simp
next
  case (Cons h hs)
  obtain tx m c n where st: "st = (tx, m, c, n)" by (metis prod_cases4)
  show ?case
  proof (cases "htlc_owner h = side \<and> \<not> trim h feerate dust side")
    case False
    then have s: "commit_tx_offered S keyset feerate dust side h st = Some st" by (auto simp: commit_tx_offered_def)
    have "\<exists>st'. fold (\<lambda>h st. st \<bind> commit_tx_offered S keyset feerate dust side h) hs (Some st) = Some st' \<and>
        build_rep uninit tx0 st'
          (rws @ map (offered_row S keyset) [h \<leftarrow> hs. htlc_owner h = side \<and> \<not> trim h feerate dust side])"
      using Cons.prems False by (intro Cons.IH) auto
    with False show ?thesis by (simp only: fold.simps comp_def s Option.bind.simps filter.simps if_False)
  next
    case True
    let ?st = "(add_offered_htlc_out S tx n h keyset, m[n := Some h], c[n := h_expiry h], n + 1)"
    have "abs_locktime_to_blocks (h_expiry h) = Some (h_expiry h)"
      using Cons.prems(3) True by (simp add: block_expiry_def abs_locktime_to_blocks_def)
    with True have s: "commit_tx_offered S keyset feerate dust side h st = Some ?st"
      by (simp add: commit_tx_offered_def st)
    have "n < length (tx_output tx0)" using Cons.prems(1,2) True st by (auto simp: build_rep_def)
    then have "build_rep uninit tx0 ?st (rws @ [offered_row S keyset h])"
      using build_push [OF Cons.prems(1) [unfolded st]] by (simp add: add_offered_htlc_out_def offered_row_def Let_def)
    with Cons.IH [OF this] Cons.prems(2,3) True show ?thesis by (simp add: s)
  qed
qed

lemma build_received:
  assumes "build_rep uninit tx0 st rws"
    and "length rws + length [h \<leftarrow> hs. htlc_owner h \<noteq> side \<and> \<not> trim h feerate dust side] \<le> length (tx_output tx0)"
    and "\<And>h. h \<in> set hs \<Longrightarrow> \<not> trim h feerate dust side \<Longrightarrow> block_expiry h"
  shows "\<exists>st'. fold (\<lambda>h st. st \<bind> commit_tx_received S keyset feerate dust side h) hs (Some st) = Some st' \<and>
    build_rep uninit tx0 st'
      (rws @ map (received_row S keyset) [h \<leftarrow> hs. htlc_owner h \<noteq> side \<and> \<not> trim h feerate dust side])"
  using assms
proof (induction hs arbitrary: st rws)
  case Nil
  then show ?case by simp
next
  case (Cons h hs)
  obtain tx m c n where st: "st = (tx, m, c, n)" by (metis prod_cases4)
  show ?case
  proof (cases "htlc_owner h \<noteq> side \<and> \<not> trim h feerate dust side")
    case False
    then have s: "commit_tx_received S keyset feerate dust side h st = Some st" by (auto simp: commit_tx_received_def)
    have "\<exists>st'. fold (\<lambda>h st. st \<bind> commit_tx_received S keyset feerate dust side h) hs (Some st) = Some st' \<and>
        build_rep uninit tx0 st'
          (rws @ map (received_row S keyset) [h \<leftarrow> hs. htlc_owner h \<noteq> side \<and> \<not> trim h feerate dust side])"
      using Cons.prems False by (intro Cons.IH) auto
    with False show ?thesis by (simp only: fold.simps comp_def s Option.bind.simps filter.simps if_False)
  next
    case True
    let ?st = "(add_received_htlc_out S tx n h keyset, m[n := Some h], c[n := h_expiry h], n + 1)"
    have "abs_locktime_to_blocks (h_expiry h) = Some (h_expiry h)"
      using Cons.prems(3) True by (simp add: block_expiry_def abs_locktime_to_blocks_def)
    with True have s: "commit_tx_received S keyset feerate dust side h st = Some ?st"
      by (simp add: commit_tx_received_def st)
    have "n < length (tx_output tx0)" using Cons.prems(1,2) True st by (auto simp: build_rep_def)
    then have "build_rep uninit tx0 ?st (rws @ [received_row S keyset h])"
      using build_push [OF Cons.prems(1) [unfolded st]] by (simp add: add_received_htlc_out_def received_row_def Let_def)
    with Cons.IH [OF this] Cons.prems(2,3) True show ?thesis by (simp add: s)
  qed
qed

lemma build_balance:
  assumes "build_rep uninit tx0 st rws" "length rws < length (tx_output tx0)"
  shows "build_rep uninit tx0 (commit_tx_balance dust pay script st) (balance_rows uninit dust pay script rws)"
proof -
  obtain tx m c n where st: "st = (tx, m, c, n)" by (metis prod_cases4)
  with assms(1) have n: "n = length rws" by (simp add: build_rep_def)
  show ?thesis
    using assms build_push_None [of uninit tx0 tx m c n rws _ None]
    by (simp add: commit_tx_balance_def balance_rows_def st n)
qed
lemma num_untrimmed:
  "commit_tx_num_untrimmed htlcs feerate dust side =
     length [h \<leftarrow> htlcs. htlc_owner h = side \<and> \<not> trim h feerate dust side] +
     length [h \<leftarrow> htlcs. htlc_owner h \<noteq> side \<and> \<not> trim h feerate dust side]"
proof -
  have "fold (\<lambda>h n. n + (if \<not> trim h feerate dust side then 1 else 0)) hs k = k +
      length [h \<leftarrow> hs. htlc_owner h = side \<and> \<not> trim h feerate dust side] +
      length [h \<leftarrow> hs. htlc_owner h \<noteq> side \<and> \<not> trim h feerate dust side]" for hs :: "htlc list" and k :: nat
    by (induction hs arbitrary: k) auto
  from this [of htlcs 0] show ?thesis by (simp add: commit_tx_num_untrimmed_def)
qed

lemma length_htlc_rows: "length (htlc_rows S keyset feerate dust side htlcs) = commit_tx_num_untrimmed htlcs feerate dust side"
  by (simp add: htlc_rows_def num_untrimmed)

lemma length_balance_rows: "length (balance_rows uninit dust pay script rws) \<le> length rws + 1"
  by (simp add: balance_rows_def)

lemma build_init:
  "build_rep uninit tx (tx, replicate (length (tx_output tx)) None, map uninit [0..<length (tx_output tx)], 0) []"
  by (simp add: build_rep_def)

lemma build_sorted:
  assumes rep: "build_rep uninit tx0 (tx, m, c, n) rws"
  shows "\<exists>srt cl. permute_outputs (take n (tx_output tx)) (Some c) (Some (take n m)) =
      (map fst srt, Some (map (\<lambda>r. snd (snd r)) srt), cl) \<and>
    mset srt = mset rws \<and> sorted (map row_key srt)"
proof -
  let ?o = "take n (tx_output tx)" and ?m = "take n m"
  have ok: "rows_ok ?o (Some c) (Some ?m)" using rep by (auto simp: build_rep_def rows_ok_def)
  have rws: "rows ?o (Some c) (Some ?m) = rws"
  proof (rule nth_equalityI)
    show "length (rows ?o (Some c) (Some ?m)) = length rws"
      using rep ok by (simp add: length_rows build_rep_def)
  next
    fix i assume "i < length (rows ?o (Some c) (Some ?m))"
    then have i: "i < n" "i < length (tx_output tx)" "i < length m" "i < length c"
      using rep ok by (auto simp: length_rows build_rep_def)
    have "take n (zip (tx_output tx) (zip c m)) = rws" using rep unfolding build_rep_def prod.case by blast
    then have "rws ! i = take n (zip (tx_output tx) (zip c m)) ! i" by (rule arg_cong [OF sym])
    with i show "rows ?o (Some c) (Some ?m) ! i = rws ! i" by (simp add: nth_rows [OF ok] cltv_of_def)
  qed
  obtain o' m' c' where p: "permute_outputs ?o (Some c) (Some ?m) = (o', m', c')" by (metis prod_cases3)
  note r = permute_outputs_rows [OF ok p] and s = permute_outputs_sorts [OF ok p]
  obtain mm where m': "m' = Some mm" "length mm = length o'"
    using r(4,5) rep by (auto simp: build_rep_def)
  have "map fst (rows o' c' m') = o'" "map (\<lambda>r. snd (snd r)) (rows o' c' m') = mm"
    using map_rows(1) [OF r(1)] map_rows(3) [of o' c' mm] r(1) m' by simp_all
  with p m' s rws show ?thesis by (intro exI [of _ "rows o' c' m'"] exI [of _ c']) simp
qed

lemma commit_tx_rows:
  assumes afford: "self_pay + other_pay \<le> funding * 1000"
    and expiry: "\<And>h. h \<in> set htlcs \<Longrightarrow> \<not> trim h feerate dust side \<Longrightarrow> block_expiry h"
    and fee: "try_subtract_fee funder side
      (commit_tx_base_fee feerate (commit_tx_num_untrimmed htlcs feerate dust side) * 1000) self_pay other_pay =
      (paid, self_pay', other_pay')"
  shows "\<exists>srt. commit_tx S uninit txid txout funding funder delay keyset feerate dust self_pay other_pay htlcs num side =
      Some (commit_tx_finish txid txout funding num ((bitcoin_tx_alloc 1 0)\<lparr>tx_output := map fst srt\<rparr>),
            map (\<lambda>r. snd (snd r)) srt) \<and>
    mset srt = mset (commit_rows S uninit delay keyset feerate dust self_pay' other_pay' htlcs side) \<and>
    sorted (map row_key srt)"
proof -
  let ?k = "commit_tx_num_untrimmed htlcs feerate dust side"
  let ?tx0 = "bitcoin_tx_alloc 1 (?k + 2)"
  let ?st0 = "(?tx0, replicate (length (tx_output ?tx0)) None, map uninit [0..<length (tx_output ?tx0)], 0)"
  have N: "length (tx_output ?tx0) = ?k + 2" by (simp add: bitcoin_tx_alloc_def)
  obtain st1 where 1: "fold (\<lambda>h st. st \<bind> commit_tx_offered S keyset feerate dust side h) htlcs (Some ?st0) = Some st1"
    "build_rep uninit ?tx0 st1 (map (offered_row S keyset) [h \<leftarrow> htlcs. htlc_owner h = side \<and> \<not> trim h feerate dust side])"
    using build_offered [where hs = htlcs and side = side and feerate = feerate and dust = dust and S = S
        and keyset = keyset, OF build_init [of uninit ?tx0]] expiry N num_untrimmed [of htlcs feerate dust side] by auto
  obtain st2 where 2: "fold (\<lambda>h st. st \<bind> commit_tx_received S keyset feerate dust side h) htlcs (Some st1) = Some st2"
    "build_rep uninit ?tx0 st2 (htlc_rows S keyset feerate dust side htlcs)"
    using build_received [where hs = htlcs and side = side and feerate = feerate and dust = dust and S = S
        and keyset = keyset, OF 1(2)] expiry N num_untrimmed [of htlcs feerate dust side]
    by (auto simp: htlc_rows_def)
  have 3: "build_rep uninit ?tx0 (commit_tx_balance dust self_pay' (scriptpubkey_p2wsh (to_self_wscript S delay keyset)) st2)
      (balance_rows uninit dust self_pay' (scriptpubkey_p2wsh (to_self_wscript S delay keyset))
        (htlc_rows S keyset feerate dust side htlcs))"
    using 2(2) by (rule build_balance) (simp add: length_htlc_rows bitcoin_tx_alloc_def)
  obtain tx m c n where st: "commit_tx_balance dust other_pay' (scriptpubkey_p2wpkh S (other_payment_key keyset))
      (commit_tx_balance dust self_pay' (scriptpubkey_p2wsh (to_self_wscript S delay keyset)) st2) = (tx, m, c, n)"
    by (metis prod_cases4)
  have 4: "build_rep uninit ?tx0 (tx, m, c, n) (commit_rows S uninit delay keyset feerate dust self_pay' other_pay' htlcs side)"
    unfolding commit_rows_def st [symmetric]
    using 3 by (rule build_balance) (simp add: balance_rows_def length_htlc_rows bitcoin_tx_alloc_def)
  from build_sorted [OF 4] obtain srt cl where
    p: "permute_outputs (take n (tx_output tx)) (Some c) (Some (take n m)) =
      (map fst srt, Some (map (\<lambda>r. snd (snd r)) srt), cl)"
    and s: "mset srt = mset (commit_rows S uninit delay keyset feerate dust self_pay' other_pay' htlcs side)"
      "sorted (map row_key srt)" by blast
  have tx: "n \<le> length (tx_output tx)" "tx\<lparr>tx_output := outs\<rparr> = (bitcoin_tx_alloc 1 0)\<lparr>tx_output := outs\<rparr>" for outs
    using 4 by (auto simp: build_rep_def bitcoin_tx_alloc_def)
  show ?thesis
    using s afford by (intro exI [of _ srt])
      (simp add: commit_tx_def Let_def fee 1(1) 2(1) st tx p del: One_nat_def add_2_eq_Suc')
qed
section \<open>The commitment number\<close>

lemma obscurer_48: "take_bit 48 (commit_number_obscurer S a b) = commit_number_obscurer S a b"
proof (rule bit_word_eqI)
  fix i assume "i < LENGTH(64)"
  let ?bs = "memcpy_at (replicate 8 0) 2 (take 6 (drop (length (sha256 (pubkey_to_der S a @ pubkey_to_der S b)) - 6)
    (sha256 (pubkey_to_der S a @ pubkey_to_der S b)))) :: bytes"
  have l: "length ?bs = 8" by (simp add: memcpy_at_def)
  have z: "rev ?bs ! k = 0" if "6 \<le> k" "k < 8" for k
  proof -
    have "rev ?bs ! k = ?bs ! (7 - k)" using that l by (simp add: rev_nth)
    moreover have "take 2 ?bs = replicate 2 0" by (simp add: memcpy_at_def)
    then have "?bs ! j = 0" if "j < 2" for j using that by (metis nth_replicate nth_take)
    ultimately show ?thesis using that by simp
  qed
  show "bit (take_bit 48 (commit_number_obscurer S a b)) i = bit (commit_number_obscurer S a b) i"
  proof (cases "i < 48")
    case False
    then have "6 \<le> i div 8" by (simp add: less_eq_div_iff_mult_less_eq)
    moreover have "i div 8 < 8" using \<open>i < LENGTH(64)\<close> by (simp add: div_less_iff_less_mult)
    ultimately have "\<not> bit (be64_to_cpu ?bs) i"
      using z [of "i div 8"] by (simp add: be64_to_cpu_def be_val_def bit_le_val)
    then show ?thesis by (simp add: commit_number_obscurer_def Let_def bit_take_bit_iff)
  qed (simp add: bit_take_bit_iff)
qed

lemma number_split:
  fixes x :: u64
  assumes "take_bit 48 x = x"
  shows "ucast ((ucast (0x20000000 OR (x AND 0xFFFFFF)) :: u32) AND 0x00FFFFFF) OR
    push_bit 24 (ucast (ucast (0x80000000 OR (drop_bit 24 x AND 0xFFFFFF)) :: u32) AND 0x00FFFFFF) = x" (is "?l = x")
proof (rule bit_word_eqI)
  fix i assume i: "i < LENGTH(64)"
  have m: "(0xFFFFFF :: u64) = mask 24" "(0xFFFFFF :: u32) = mask 24" by (simp_all add: mask_eq_exp_minus_1)
  have c: "(0x20000000 :: int) = push_bit 29 1" "(0x80000000 :: int) = push_bit 31 1"
    by (simp_all add: push_bit_eq_mult)
  have b: "bit (0x20000000 :: int) j \<longleftrightarrow> j = 29" "bit (0x80000000 :: int) j \<longleftrightarrow> j = 31" for j
    unfolding c bit_push_bit_iff bit_1_iff by auto
  have x: "bit x i \<Longrightarrow> i < 48" using assms by (metis bit_take_bit_iff)
  show "bit ?l i = bit x i"
    unfolding m using i x
    by (cases "i < 24"; cases "i < 48") (auto simp: bit_simps b)
qed
lemma finish_unmask:
  assumes "tx_input tx \<noteq> []" "take_bit 48 num = num"
  shows "unmask_commit_number S
      (commit_tx_finish txid txout sat
        (num XOR commit_number_obscurer S (case funder of LOCAL \<Rightarrow> a | REMOTE \<Rightarrow> b) (case funder of LOCAL \<Rightarrow> b | REMOTE \<Rightarrow> a)) tx)
      funder a b = num"
proof -
  let ?o = "commit_number_obscurer S (case funder of LOCAL \<Rightarrow> a | REMOTE \<Rightarrow> b) (case funder of LOCAL \<Rightarrow> b | REMOTE \<Rightarrow> a)"
  have k: "(case other funder of LOCAL \<Rightarrow> a | REMOTE \<Rightarrow> b) = (case funder of LOCAL \<Rightarrow> b | REMOTE \<Rightarrow> a)"
    by (cases funder) simp_all
  have x: "take_bit 48 (num XOR ?o) = num XOR ?o"
    using assms(2) obscurer_48 [of S] by (simp add: take_bit_xor)
  from assms(1) have "tx_input tx ! 0 = hd (tx_input tx)" by (simp add: hd_conv_nth)
  then show ?thesis
    using assms(1) number_split [OF x]
    by (simp add: unmask_commit_number_def commit_tx_finish_def Let_def k xor.assoc)
qed







lemma htlc_fee_bound: "unat (htlc_timeout_fee feerate) < 2 ^ 32" "unat (htlc_success_fee feerate) < 2 ^ 32"
proof -
  have "unat feerate < 2 ^ 32" using unsigned_less [of feerate, where ?'a = nat] by simp
  moreover from this have "unat (ucast feerate :: u64) = unat feerate"
    by (simp add: unsigned_ucast_eq unsigned_take_bit_eq take_bit_nat_eq_self)
  ultimately show "unat (htlc_timeout_fee feerate) < 2 ^ 32" "unat (htlc_success_fee feerate) < 2 ^ 32"
    by (simp_all add: htlc_timeout_fee_def htlc_success_fee_def unat_div unat_word_ariths)
qed

lemma length_p2wsh: "length (scriptpubkey_p2wsh w) = 34"
  by (simp add: scriptpubkey_p2wsh_def add_push_bytes_def add_op_def add_def Let_def)

lemma length_p2wpkh: "length (scriptpubkey_p2wpkh S k) = 22"
  by (simp add: scriptpubkey_p2wpkh_def add_push_bytes_def add_op_def add_def Let_def)

lemma output_better_length:
  "length (to_script a) \<noteq> length (to_script b) \<Longrightarrow> output_better a ca b cb = output_better a 0 b 0"
  by (simp add: output_better_def Let_def)

lemma permute_outputs_2:
  "permute_outputs [a, b] cltvs mp =
     (if output_better b (cltv_of cltvs 1) a (cltv_of cltvs 0)
      then ([b, a], map_option (\<lambda>m. swap m 0 1) mp, map_option (\<lambda>c. swap c 0 1) cltvs)
      else ([a, b], mp, cltvs))"
  by (auto simp: permute_outputs_def find_best_out_def swap_outputs_def swap_def cltv_of_def split: option.splits)

lemma permute_outputs_1: "permute_outputs [a] cltvs mp = ([a], mp, cltvs)" "permute_outputs [] cltvs mp = ([], mp, cltvs)"
  by (simp_all add: permute_outputs_def)

lemma alloc_2: "[0..<2] = [0, Suc 0]" "replicate 2 x = [x, x]"
  by (simp_all add: numeral_2_eq_2)

lemma finish_output: "tx_output (commit_tx_finish t1 t2 t3 t4 tx) = tx_output tx"
  by (simp add: commit_tx_finish_def Let_def)

definition balance_outs :: "('pk, 'sg) secp \<Rightarrow> u16 \<Rightarrow> 'pk keyset \<Rightarrow> u64 \<Rightarrow> u64 \<Rightarrow> u64 \<Rightarrow> bitcoin_tx_output list" where
  "balance_outs S delay keyset dust p q =
     (if p div 1000 \<ge> dust then [\<lparr>to_amount = p div 1000, to_script = scriptpubkey_p2wsh (to_self_wscript S delay keyset)\<rparr>] else []) @
     (if q div 1000 \<ge> dust then [\<lparr>to_amount = q div 1000, to_script = scriptpubkey_p2wpkh S (other_payment_key keyset)\<rparr>] else [])"

lemma initial_commit_tx_outs:
  assumes f: "try_subtract_fee funder side (commit_tx_base_fee feerate 0 * 1000) self_pay other_pay = (paid, p, q)"
    and a: "self_pay + other_pay \<le> funding * 1000"
  shows "initial_commit_tx S txid txout funding funder delay keyset feerate dust self_pay other_pay reserve num side =
    (if \<not> paid \<or> p \<le> reserve \<and> q \<le> reserve then Some None
     else Some (Some (commit_tx_finish txid txout funding num ((bitcoin_tx_alloc 1 2)
       \<lparr>tx_output := fst (permute_outputs (balance_outs S delay keyset dust p q) None (None :: unit option list option))\<rparr>))))"
  using a by (simp add: initial_commit_tx_def f Let_def alloc_2 balance_outs_def bitcoin_tx_alloc_def)

lemma commit_tx_no_htlcs:
  assumes f: "try_subtract_fee funder side (commit_tx_base_fee feerate 0 * 1000) self_pay other_pay = (paid, p, q)"
    and a: "self_pay + other_pay \<le> funding * 1000"
    and p: "permute_outputs (balance_outs S delay keyset dust p q) (Some [uninit 0, uninit 1])
      (Some (replicate (length (balance_outs S delay keyset dust p q)) None)) = (outs, Some m, c)"
  shows "commit_tx S uninit txid txout funding funder delay keyset feerate dust self_pay other_pay [] num side =
    Some (commit_tx_finish txid txout funding num ((bitcoin_tx_alloc 1 2)\<lparr>tx_output := outs\<rparr>), m)"
  using a p by (cases "p div 1000 \<ge> dust"; cases "q div 1000 \<ge> dust")
    (simp_all add: commit_tx_def commit_tx_num_untrimmed_def commit_tx_balance_def f Let_def alloc_2 balance_outs_def
      bitcoin_tx_alloc_def)

lemma permute_balance_outs:
  "\<exists>c. permute_outputs (balance_outs S delay keyset dust p q) (Some [x, y])
      (Some (replicate (length (balance_outs S delay keyset dust p q)) (None :: htlc option))) =
    (fst (permute_outputs (balance_outs S delay keyset dust p q) None (None :: unit option list option)),
     Some (replicate (length (balance_outs S delay keyset dust p q)) None), c)"
proof -
  have sw: "swap [None, None] 0 (Suc 0) = [None, None :: htlc option]" by (simp add: swap_def)
  have b: "output_better \<lparr>to_amount = v, to_script = scriptpubkey_p2wpkh S k\<rparr> y
      \<lparr>to_amount = u, to_script = scriptpubkey_p2wsh w\<rparr> x =
    output_better \<lparr>to_amount = v, to_script = scriptpubkey_p2wpkh S k\<rparr> 0
      \<lparr>to_amount = u, to_script = scriptpubkey_p2wsh w\<rparr> 0" for u v k w
    by (rule output_better_length) (simp add: length_p2wsh length_p2wpkh)
  show ?thesis
    by (cases "p div 1000 \<ge> dust"; cases "q div 1000 \<ge> dust")
      (simp_all add: balance_outs_def permute_outputs_1 permute_outputs_2 cltv_of_def sw b)
qed

lemma length_permute_outputs: "rows_ok outs cltvs mp \<Longrightarrow> length (fst (permute_outputs outs cltvs mp)) = length outs"
  using permute_outputs_rows(5) [of outs cltvs mp] by (cases "permute_outputs outs cltvs mp") auto

section \<open>Samples\<close>

definition sample_keys :: "u8 keyset" where
  "sample_keys = \<lparr>self_revocation_key = 1, self_htlc_key = 2, other_htlc_key = 3,
     self_delayed_payment_key = 4, self_payment_key = 5, other_payment_key = 6\<rparr>"

definition sample_htlc :: "htlc_state \<Rightarrow> u64 \<Rightarrow> u64 \<Rightarrow> htlc" where
  "sample_htlc st hid msat = \<lparr>h_state = st, h_id = hid, h_msatoshi = msat, h_expiry = 500,
     h_rhash = replicate 32 9, h_r = None, h_shared_secret = None, h_routing = [], h_fail = None,
     h_failcode = 0, h_failed_scid = None\<rparr>"

definition sample_htlcs :: "htlc list" where
  "sample_htlcs = [sample_htlc SENT_ADD_ACK_REVOCATION 0 3000000, sample_htlc RCVD_ADD_ACK_REVOCATION 0 5000000,
     sample_htlc RCVD_ADD_ACK_REVOCATION 1 600000]"

lemma sample_untrimmed: "commit_tx_num_untrimmed sample_htlcs 253 546 LOCAL = 2"
  by code_simp

lemma sample_block_expiry: "h \<in> set sample_htlcs \<Longrightarrow> block_expiry h"
  by (auto simp: sample_htlcs_def sample_htlc_def block_expiry_def locktime_defs SECONDS_POINT_def)

lemma sample_fee: "commit_tx_base_fee 253 2 = 270"
  by code_simp

section \<open>Properties\<close>

text \<open>
  C21: a commitment transaction has exactly one output for every HTLC that is not trimmed and
  one for each balance that, after the fee, reaches the dust limit; the HTLC map gives the HTLC
  of each output (none for a balance); outputs are in canonical order.
\<close>

theorem commit_tx_outputs:
  assumes "self_pay + other_pay \<le> funding * 1000"
    and "\<And>h. h \<in> set htlcs \<Longrightarrow> \<not> trim h feerate dust side \<Longrightarrow> block_expiry h"
    and "try_subtract_fee funder side
      (commit_tx_base_fee feerate (commit_tx_num_untrimmed htlcs feerate dust side) * 1000) self_pay other_pay =
      (paid, self_pay', other_pay')"
  shows "\<exists>srt. commit_tx S uninit txid txout funding funder delay keyset feerate dust self_pay other_pay htlcs num side =
      Some (commit_tx_finish txid txout funding num ((bitcoin_tx_alloc 1 0)\<lparr>tx_output := map fst srt\<rparr>),
            map (\<lambda>r. snd (snd r)) srt) \<and>
    mset srt = mset (commit_rows S uninit delay keyset feerate dust self_pay' other_pay' htlcs side) \<and>
    sorted (map row_key srt)"
  using assms by (rule commit_tx_rows)

theorem commit_tx_outputs_witness:
  "\<exists>srt. commit_tx byte_secp (\<lambda>_. 0) (replicate 32 1) 0 100000 LOCAL 6 sample_keys 253 546 50000000 40000000
       sample_htlcs 7 LOCAL =
      Some (commit_tx_finish (replicate 32 1) 0 100000 7 ((bitcoin_tx_alloc 1 0)\<lparr>tx_output := map fst srt\<rparr>),
            map (\<lambda>r. snd (snd r)) srt) \<and>
    mset srt = mset (commit_rows byte_secp (\<lambda>_. 0) 6 sample_keys 253 546 49730000 40000000 sample_htlcs LOCAL) \<and>
    sorted (map row_key srt)"
proof -
  have "try_subtract_fee LOCAL LOCAL
      (commit_tx_base_fee 253 (commit_tx_num_untrimmed sample_htlcs 253 546 LOCAL) * 1000) 50000000 40000000 =
      (True, 49730000, 40000000)"
    by (simp add: sample_untrimmed sample_fee try_subtract_fee_def)
  from commit_tx_outputs [OF _ _ this, of 100000] sample_block_expiry show ?thesis by simp
qed



text \<open>
  C27: the commitment number put into a commitment transaction is the number the on-chain code
  reads back from its lock time and sequence.
\<close>

theorem commit_number_roundtrip:
  assumes num: "num < 2 ^ 48" and afford: "self_pay + other_pay \<le> funding * 1000"
    and expiry: "\<And>h. h \<in> set htlcs \<Longrightarrow> block_expiry h"
  shows "\<exists>tx htlcmap. commit_tx S uninit txid txout funding funder delay keyset feerate dust self_pay other_pay htlcs
      (num XOR commit_number_obscurer S (case funder of LOCAL \<Rightarrow> a | REMOTE \<Rightarrow> b) (case funder of LOCAL \<Rightarrow> b | REMOTE \<Rightarrow> a))
      side = Some (tx, htlcmap) \<and>
    unmask_commit_number S tx funder a b = num"
proof -
  have t: "take_bit 48 num = num" using num
    by (simp add: word_unat_eq_iff unsigned_take_bit_eq word_less_nat_alt take_bit_nat_eq_self)
  obtain paid p q where f: "try_subtract_fee funder side
      (commit_tx_base_fee feerate (commit_tx_num_untrimmed htlcs feerate dust side) * 1000) self_pay other_pay = (paid, p, q)"
    by (metis prod_cases3)
  have ne: "tx_input (bitcoin_tx_alloc 1 0\<lparr>tx_output := outs\<rparr>) \<noteq> []" for outs by (simp add: bitcoin_tx_alloc_def)
  from commit_tx_rows [OF afford expiry f] finish_unmask [OF ne t] show ?thesis by fastforce
qed

theorem commit_number_roundtrip_witness:
  "\<exists>tx htlcmap. commit_tx byte_secp (\<lambda>_. 0) (replicate 32 1) 0 100000 LOCAL 6 sample_keys 253 546 50000000 40000000
      sample_htlcs (42 XOR commit_number_obscurer byte_secp 8 9) LOCAL = Some (tx, htlcmap) \<and>
    unmask_commit_number byte_secp tx LOCAL 8 9 = 42"
  using commit_number_roundtrip [of 42 50000000 40000000 100000 sample_htlcs byte_secp "\<lambda>_. 0" "replicate 32 1" 0 LOCAL 6
      sample_keys 253 546 8 9 LOCAL] sample_block_expiry by simp

text \<open>
  C28: an HTLC that is not trimmed can be claimed: the second-stage transaction of the
  commitment's owner, HTLC-timeout for an offered and HTLC-success for a received HTLC, pays the
  amount less the fee without underflow, and not less than the dust limit.
\<close>

theorem untrimmed_htlc_claimable:
  assumes untrimmed: "\<not> trim h feerate dust side" and dust: "unat dust < 2 ^ 63"
    and fee: "fee = (if htlc_owner h = side then htlc_timeout_fee feerate else htlc_success_fee feerate)"
  shows "\<exists>amount. map to_amount (tx_output
      (if htlc_owner h = side then htlc_timeout_tx S txid n (h_msatoshi h) (h_expiry h) delay feerate keyset
       else htlc_success_tx S txid n (h_msatoshi h) delay feerate keyset)) = [amount] \<and>
    unat amount + unat fee = unat (h_msatoshi h) div 1000 \<and> dust \<le> amount"
proof -
  have "unat fee < 2 ^ 32" using htlc_fee_bound [of feerate] by (simp add: fee)
  then have "unat (dust + fee) = unat dust + unat fee" using dust by (simp add: unat_word_ariths)
  then have le: "unat dust + unat fee \<le> unat (h_msatoshi h div 1000)"
    using untrimmed by (simp add: trim_def fee [symmetric] word_less_nat_alt)
  then have "unat (h_msatoshi h div 1000 - fee) = unat (h_msatoshi h div 1000) - unat fee"
    by (simp add: unat_sub word_le_nat_alt)
  moreover have "map to_amount (tx_output
      (if htlc_owner h = side then htlc_timeout_tx S txid n (h_msatoshi h) (h_expiry h) delay feerate keyset
       else htlc_success_tx S txid n (h_msatoshi h) delay feerate keyset)) = [h_msatoshi h div 1000 - fee]"
    by (simp add: htlc_timeout_tx_def htlc_success_tx_def htlc_tx_def bitcoin_tx_alloc_def Let_def fee)
  ultimately show ?thesis using le by (simp add: word_le_nat_alt unat_div)
qed

theorem untrimmed_htlc_claimable_witness:
  "\<exists>amount. map to_amount (tx_output
      (htlc_timeout_tx byte_secp (replicate 32 1) 0 3000000 500 6 253 sample_keys)) = [amount] \<and>
    unat amount + 167 = 3000 \<and> 546 \<le> amount"
proof -
  let ?h = "sample_htlc SENT_ADD_ACK_REVOCATION 0 3000000"
  have "htlc_owner ?h = LOCAL" "\<not> trim ?h 253 546 LOCAL" "htlc_timeout_fee 253 = 167" by code_simp+
  then show ?thesis
    using untrimmed_htlc_claimable [of ?h 253 546 LOCAL 167 byte_secp "replicate 32 1" 0 6 sample_keys]
    by (simp add: sample_htlc_def)
qed
text \<open>
  C26: the opening code and the channel code build the same first commitment transaction: where
  the transaction without HTLC support is not refused, the full one with no HTLCs is equal to
  it, whatever the uninitialised expiries hold.
\<close>

theorem initial_commit_tx_matches:
  assumes i: "initial_commit_tx S txid txout funding funder delay keyset feerate dust self_pay other_pay reserve num side =
      Some (Some tx)"
  shows "commit_tx S uninit txid txout funding funder delay keyset feerate dust self_pay other_pay [] num side =
      Some (tx, replicate (length (tx_output tx)) None)"
proof -
  obtain paid p q where f: "try_subtract_fee funder side (commit_tx_base_fee feerate 0 * 1000) self_pay other_pay = (paid, p, q)"
    by (metis prod_cases3)
  have a: "self_pay + other_pay \<le> funding * 1000"
    using i by (auto simp: initial_commit_tx_def split: if_splits)
  let ?o = "balance_outs S delay keyset dust p q"
  let ?p = "fst (permute_outputs ?o None (None :: unit option list option))"
  have "tx = commit_tx_finish txid txout funding num ((bitcoin_tx_alloc 1 2)\<lparr>tx_output := ?p\<rparr>)"
    using i unfolding initial_commit_tx_outs [OF f a] by (auto split: if_splits)
  moreover have "length ?p = length ?o" by (rule length_permute_outputs) simp
  moreover obtain c where "permute_outputs ?o (Some [uninit 0, uninit 1])
      (Some (replicate (length ?o) (None :: htlc option))) = (?p, Some (replicate (length ?o) None), c)"
    using permute_balance_outs [of S delay keyset dust p q "uninit 0" "uninit 1"] by blast
  ultimately show ?thesis by (simp add: commit_tx_no_htlcs [OF f a] finish_output del: One_nat_def)
qed

theorem initial_commit_tx_matches_witness:
  "\<exists>tx. initial_commit_tx byte_secp (replicate 32 1) 0 100000 LOCAL 6 sample_keys 253 546 90000000 10000000 1000000 7 LOCAL =
      Some (Some tx) \<and>
    commit_tx byte_secp (\<lambda>_. 5) (replicate 32 1) 0 100000 LOCAL 6 sample_keys 253 546 90000000 10000000 [] 7 LOCAL =
      Some (tx, replicate (length (tx_output tx)) None)"
proof -
  have "commit_tx_base_fee 253 0 = 183" by code_simp
  then have "try_subtract_fee LOCAL LOCAL (commit_tx_base_fee 253 0 * 1000) 90000000 10000000 = (True, 89817000, 10000000)"
    by (simp add: try_subtract_fee_def)
  from initial_commit_tx_outs [OF this, of 100000 byte_secp "replicate 32 1" 0 6 sample_keys 546 1000000 7]
  obtain tx where "initial_commit_tx byte_secp (replicate 32 1) 0 100000 LOCAL 6 sample_keys 253 546 90000000 10000000
      1000000 7 LOCAL = Some (Some tx)" by simp
  from initial_commit_tx_matches [OF this] this show ?thesis by blast
qed
end
