(* ===== verification/Channel.thy ===== *)
theory Channel
  imports CommitTx
begin

text \<open>
  \<^verbatim>\<open>bitcoin/chainparams.c\<close>, \<^verbatim>\<open>common/channel_config.h\<close> and \<^verbatim>\<open>common/initial_channel.c\<close>: the chain
  parameters, the channel with its two views, its creation and its first commitment
  transaction. An array indexed by \<^verbatim>\<open>enum side\<close> is a function of the side.
\<close>

section \<open>Chain parameters\<close>

record chainparams =
  cp_network_name :: string
  cp_bip173_name :: string
  cp_genesis_blockhash :: bytes
  cp_rpc_port :: int
  cp_cli :: string
  cp_cli_args :: "string option"
  cp_dust_limit :: u64
  cp_max_funding_satoshi :: u64
  cp_max_payment_msat :: u64
  cp_when_lightning_became_cool :: u32
  cp_testnet :: bool

definition networks :: "chainparams list" where
  "networks = [
     \<lparr>cp_network_name = ''bitcoin'', cp_bip173_name = ''bc'',
      cp_genesis_blockhash = [0x6f, 0xe2, 0x8c, 0x0a, 0xb6, 0xf1, 0xb3, 0x72, 0xc1, 0xa6, 0xa2, 0x46, 0xae, 0x63, 0xf7, 0x4f,
        0x93, 0x1e, 0x83, 0x65, 0xe1, 0x5a, 0x08, 0x9c, 0x68, 0xd6, 0x19, 0x00, 0x00, 0x00, 0x00, 0x00],
      cp_rpc_port = 8332, cp_cli = ''bitcoin-cli'', cp_cli_args = None, cp_dust_limit = 546,
      cp_max_funding_satoshi = 2 ^ 24 - 1, cp_max_payment_msat = 0xFFFFFFFF,
      cp_when_lightning_became_cool = 504500, cp_testnet = False\<rparr>,
     \<lparr>cp_network_name = ''regtest'', cp_bip173_name = ''bcrt'',
      cp_genesis_blockhash = [0x06, 0x22, 0x6e, 0x46, 0x11, 0x1a, 0x0b, 0x59, 0xca, 0xaf, 0x12, 0x60, 0x43, 0xeb, 0x5b, 0xbf,
        0x28, 0xc3, 0x4f, 0x3a, 0x5e, 0x33, 0x2a, 0x1f, 0xc7, 0xb2, 0xb7, 0x3c, 0xf1, 0x88, 0x91, 0x0f],
      cp_rpc_port = 18332, cp_cli = ''bitcoin-cli'', cp_cli_args = Some ''-regtest'', cp_dust_limit = 546,
      cp_max_funding_satoshi = 2 ^ 24 - 1, cp_max_payment_msat = 0xFFFFFFFF,
      cp_when_lightning_became_cool = 1, cp_testnet = True\<rparr>,
     \<lparr>cp_network_name = ''testnet'', cp_bip173_name = ''tb'',
      cp_genesis_blockhash = [0x43, 0x49, 0x7f, 0xd7, 0xf8, 0x26, 0x95, 0x71, 0x08, 0xf4, 0xa3, 0x0f, 0xd9, 0xce, 0xc3, 0xae,
        0xba, 0x79, 0x97, 0x20, 0x84, 0xe9, 0x0e, 0xad, 0x01, 0xea, 0x33, 0x09, 0x00, 0x00, 0x00, 0x00],
      cp_rpc_port = 18332, cp_cli = ''bitcoin-cli'', cp_cli_args = Some ''-testnet'', cp_dust_limit = 546,
      cp_max_funding_satoshi = 2 ^ 24 - 1, cp_max_payment_msat = 0xFFFFFFFF,
      cp_when_lightning_became_cool = 0, cp_testnet = True\<rparr>,
     \<lparr>cp_network_name = ''litecoin'', cp_bip173_name = ''ltc'',
      cp_genesis_blockhash = [0xe2, 0xbf, 0x04, 0x7e, 0x7e, 0x5a, 0x19, 0x1a, 0xa4, 0xef, 0x34, 0xd3, 0x14, 0x97, 0x9d, 0xc9,
        0x98, 0x6e, 0x0f, 0x19, 0x25, 0x1e, 0xda, 0xba, 0x59, 0x40, 0xfd, 0x1f, 0xe3, 0x65, 0xa7, 0x12],
      cp_rpc_port = 9332, cp_cli = ''litecoin-cli'', cp_cli_args = None, cp_dust_limit = 100000,
      cp_max_funding_satoshi = 60 * (2 ^ 24 - 1), cp_max_payment_msat = 60 * 0xFFFFFFFF,
      cp_when_lightning_became_cool = 1320000, cp_testnet = False\<rparr>,
     \<lparr>cp_network_name = ''litecoin-testnet'', cp_bip173_name = ''tltc'',
      cp_genesis_blockhash = [0xa0, 0x29, 0x3e, 0x4e, 0xeb, 0x3d, 0xa6, 0xe6, 0xf5, 0x6f, 0x81, 0xed, 0x59, 0x5f, 0x57, 0x88,
        0x0d, 0x1a, 0x21, 0x56, 0x9e, 0x13, 0xee, 0xfd, 0xd9, 0x51, 0x28, 0x4b, 0x5a, 0x62, 0x66, 0x49],
      cp_rpc_port = 19332, cp_cli = ''litecoin-cli'', cp_cli_args = Some ''-testnet'', cp_dust_limit = 100000,
      cp_max_funding_satoshi = 60 * (2 ^ 24 - 1), cp_max_payment_msat = 60 * 0xFFFFFFFF,
      cp_when_lightning_became_cool = 1, cp_testnet = True\<rparr>
   ]"

definition chainparams_for_network :: "string \<Rightarrow> chainparams option" where
  "chainparams_for_network network_name = find (\<lambda>n. network_name = cp_network_name n) networks"

definition chainparams_by_chainhash :: "bytes \<Rightarrow> chainparams option" where
  "chainparams_by_chainhash chain_hash = find (\<lambda>n. chain_hash = cp_genesis_blockhash n) networks"

definition chainparams_by_bip173 :: "string \<Rightarrow> chainparams option" where
  "chainparams_by_bip173 bip173_name = find (\<lambda>n. bip173_name = cp_bip173_name n) networks"

section \<open>Channels\<close>

record channel_config =
  cc_id :: u64
  cc_dust_limit_satoshis :: u64
  cc_max_htlc_value_in_flight_msat :: u64
  cc_channel_reserve_satoshis :: u64
  cc_htlc_minimum_msat :: u64
  cc_to_self_delay :: u16
  cc_max_accepted_htlcs :: u16

record channel_view =
  cv_feerate_per_kw :: u32
  cv_owed_msat :: "side \<Rightarrow> u64"

text \<open>\<^verbatim>\<open>htlcs\<close> is NULL until the channel has HTLC support.\<close>

record 'pk channel =
  ch_funding_txid :: bytes
  ch_funding_txout :: u32
  ch_funding_pubkey :: "side \<Rightarrow> 'pk"
  ch_funding_msat :: u64
  ch_funder :: side
  ch_config :: "side \<Rightarrow> channel_config"
  ch_basepoints :: "side \<Rightarrow> 'pk basepoints"
  ch_commitment_number_obscurer :: u64
  ch_htlcs :: "htlc_map option"
  ch_changes_pending :: "side \<Rightarrow> bool"
  ch_view :: "side \<Rightarrow> channel_view"
  ch_chainparams :: chainparams

definition channel_reserve_msat :: "'pk channel \<Rightarrow> side \<Rightarrow> u64" where
  "channel_reserve_msat channel side = cc_channel_reserve_satoshis (ch_config channel (other side)) * 1000"

definition UINT64_MAX :: u64 where "UINT64_MAX = - 1"

text \<open>The value of an array of two sides.\<close>

definition both :: "'a \<Rightarrow> 'a \<Rightarrow> side \<Rightarrow> 'a" where
  "both l r s = (case s of LOCAL \<Rightarrow> l | REMOTE \<Rightarrow> r)"

definition new_initial_channel ::
    "('pk, 'sg) secp \<Rightarrow> bytes \<Rightarrow> bytes \<Rightarrow> u32 \<Rightarrow> u64 \<Rightarrow> u64 \<Rightarrow> u32 \<Rightarrow> channel_config \<Rightarrow> channel_config \<Rightarrow>
      'pk basepoints \<Rightarrow> 'pk basepoints \<Rightarrow> 'pk \<Rightarrow> 'pk \<Rightarrow> side \<Rightarrow> 'pk channel option" where
  "new_initial_channel S chain_hash funding_txid funding_txout funding_satoshis local_msatoshi feerate_per_kw
      local remote local_basepoints remote_basepoints local_funding_pubkey remote_funding_pubkey funder =
     (if funding_satoshis > UINT64_MAX div 1000 then None
      else
        let funding_msat = funding_satoshis * 1000 in
        if local_msatoshi > funding_msat then None
        else
          let owed_msat = both local_msatoshi (funding_msat - local_msatoshi);
              basepoints = both local_basepoints remote_basepoints
          in case chainparams_by_chainhash chain_hash of
               None \<Rightarrow> None
             | Some params \<Rightarrow> Some
                 \<lparr>ch_funding_txid = funding_txid, ch_funding_txout = funding_txout,
                  ch_funding_pubkey = both local_funding_pubkey remote_funding_pubkey,
                  ch_funding_msat = funding_msat, ch_funder = funder,
                  ch_config = both local remote,
                  ch_basepoints = basepoints,
                  ch_commitment_number_obscurer =
                    commit_number_obscurer S (bp_payment (basepoints funder)) (bp_payment (basepoints (other funder))),
                  ch_htlcs = None,
                  ch_changes_pending = both False False,
                  ch_view = both \<lparr>cv_feerate_per_kw = feerate_per_kw, cv_owed_msat = owed_msat\<rparr>
                                 \<lparr>cv_feerate_per_kw = feerate_per_kw, cv_owed_msat = owed_msat\<rparr>,
                  ch_chainparams = params\<rparr>)"

text \<open>The transaction (\<open>Some None\<close>: NULL) with the funding witness script.\<close>

definition initial_channel_tx ::
    "('pk, 'sg) secp \<Rightarrow> 'pk channel \<Rightarrow> 'pk \<Rightarrow> side \<Rightarrow> (bitcoin_tx \<times> bytes) option option" where
  "initial_channel_tx S channel per_commitment_point side =
     (if ch_htlcs channel \<noteq> None then None
      else
        case derive_keyset S per_commitment_point (ch_basepoints channel side) (ch_basepoints channel (other side)) of
          None \<Rightarrow> Some None
        | Some keyset \<Rightarrow>
            let wscript = bitcoin_redeem_2of2 S (ch_funding_pubkey channel side) (ch_funding_pubkey channel (other side))
            in map_option (map_option (\<lambda>tx. (tx, wscript)))
                 (initial_commit_tx S (ch_funding_txid channel) (ch_funding_txout channel)
                   (ch_funding_msat channel div 1000) (ch_funder channel)
                   (cc_to_self_delay (ch_config channel (other side))) keyset
                   (cv_feerate_per_kw (ch_view channel side))
                   (cc_dust_limit_satoshis (ch_config channel side))
                   (cv_owed_msat (ch_view channel side) side)
                   (cv_owed_msat (ch_view channel side) (other side))
                   (channel_reserve_msat channel side)
                   (0 XOR ch_commitment_number_obscurer channel) side))"

lemma both_simps [simp]: "both l r LOCAL = l" "both l r REMOTE = r" "both l l s = l"
  by (cases s; simp add: both_def)+

end
