(* ===== verification/FullChannel.thy ===== *)
theory FullChannel
  imports Channel
begin

text \<open>
  \<^verbatim>\<open>channeld/full_channel.c\<close>: the channel with HTLCs. One definition per function, in the
  order of the source.

  Every operation returns \<open>None\<close> where the C code fails an assertion or reads through a NULL
  or out-of-range pointer, and otherwise its return value with the new channel. An HTLC that
  is changed through a pointer is written back to the list of HTLCs (\<open>htlc_put\<close>). Messages
  for the log are left out, except where composing one reads memory.
\<close>

section \<open>Results\<close>

datatype channel_add_err =
    CHANNEL_ERR_ADD_OK
  | CHANNEL_ERR_INVALID_EXPIRY
  | CHANNEL_ERR_DUPLICATE
  | CHANNEL_ERR_DUPLICATE_ID_DIFFERENT
  | CHANNEL_ERR_MAX_HTLC_VALUE_EXCEEDED
  | CHANNEL_ERR_CHANNEL_CAPACITY_EXCEEDED
  | CHANNEL_ERR_HTLC_BELOW_MINIMUM
  | CHANNEL_ERR_TOO_MANY_HTLCS

datatype channel_remove_err =
    CHANNEL_ERR_REMOVE_OK
  | CHANNEL_ERR_NO_SUCH_ID
  | CHANNEL_ERR_ALREADY_FULFILLED
  | CHANNEL_ERR_BAD_PREIMAGE
  | CHANNEL_ERR_HTLC_UNCOMMITTED
  | CHANNEL_ERR_HTLC_NOT_IRREVOCABLE

section \<open>Creation and balances\<close>

definition new_full_channel ::
    "('pk, 'sg) secp \<Rightarrow> bytes \<Rightarrow> bytes \<Rightarrow> u32 \<Rightarrow> u64 \<Rightarrow> u64 \<Rightarrow> (side \<Rightarrow> u32) \<Rightarrow> channel_config \<Rightarrow> channel_config \<Rightarrow>
      'pk basepoints \<Rightarrow> 'pk basepoints \<Rightarrow> 'pk \<Rightarrow> 'pk \<Rightarrow> side \<Rightarrow> 'pk channel option" where
  "new_full_channel S chain_hash funding_txid funding_txout funding_satoshis local_msatoshi feerate_per_kw
      local remote local_basepoints remote_basepoints local_funding_pubkey remote_funding_pubkey funder =
     (case new_initial_channel S chain_hash funding_txid funding_txout funding_satoshis local_msatoshi
             (feerate_per_kw LOCAL) local remote local_basepoints remote_basepoints local_funding_pubkey
             remote_funding_pubkey funder of
        None \<Rightarrow> None
      | Some channel \<Rightarrow>
          Some (channel\<lparr>ch_view := (ch_view channel)
                          (REMOTE := (ch_view channel REMOTE)\<lparr>cv_feerate_per_kw := feerate_per_kw REMOTE\<rparr>),
                        ch_htlcs := Some []\<rparr>))"

text \<open>\<^verbatim>\<open>arr\<close> may be NULL.\<close>

definition htlc_arr_append :: "htlc list option \<Rightarrow> htlc \<Rightarrow> htlc list option" where
  "htlc_arr_append arr htlc = (case arr of None \<Rightarrow> None | Some xs \<Rightarrow> Some (xs @ [htlc]))"

definition balance_adding_htlc :: "htlc \<Rightarrow> side \<Rightarrow> s64" where
  "balance_adding_htlc htlc side = (if htlc_owner htlc = side then - h_msatoshi htlc else 0)"

definition balance_removing_htlc :: "htlc \<Rightarrow> side \<Rightarrow> s64" where
  "balance_removing_htlc htlc side =
     (let paid_to = (if h_r htlc \<noteq> None then other (htlc_owner htlc) else htlc_owner htlc)
      in if side = paid_to then h_msatoshi htlc else 0)"

text \<open>\<^verbatim>\<open>dump_htlc\<close> logs the state in which the peer has the HTLC: ten states further or back.\<close>

definition htlc_state_enum :: "htlc_state list" where
  "htlc_state_enum =
     [SENT_ADD_HTLC, SENT_ADD_COMMIT, RCVD_ADD_REVOCATION, RCVD_ADD_ACK_COMMIT, SENT_ADD_ACK_REVOCATION,
      RCVD_REMOVE_HTLC, RCVD_REMOVE_COMMIT, SENT_REMOVE_REVOCATION, SENT_REMOVE_ACK_COMMIT, RCVD_REMOVE_ACK_REVOCATION,
      RCVD_ADD_HTLC, RCVD_ADD_COMMIT, SENT_ADD_REVOCATION, SENT_ADD_ACK_COMMIT, RCVD_ADD_ACK_REVOCATION,
      SENT_REMOVE_HTLC, SENT_REMOVE_COMMIT, RCVD_REMOVE_REVOCATION, RCVD_REMOVE_ACK_COMMIT, SENT_REMOVE_ACK_REVOCATION]"

definition dump_remote_state :: "htlc_state \<Rightarrow> htlc_state" where
  "dump_remote_state st =
     htlc_state_enum ! (if htlc_state_num st \<le> htlc_state_num RCVD_REMOVE_ACK_REVOCATION
                        then htlc_state_num st + 10 else htlc_state_num st - 10)"

text \<open>The arrays \<^verbatim>\<open>committed\<close>, \<^verbatim>\<open>pending_removal\<close> and \<^verbatim>\<open>pending_addition\<close>; a caller may ignore the last two.\<close>

definition gather_htlcs :: "'pk channel \<Rightarrow> side \<Rightarrow> htlc list \<times> htlc list \<times> htlc list" where
  "gather_htlcs channel side =
     (let committed_flag = HTLC_FLAG side HTLC_F_COMMITTED;
          pending_flag = HTLC_FLAG side HTLC_F_PENDING
      in case ch_htlcs channel of
           None \<Rightarrow> ([], [], [])
         | Some htlcs \<Rightarrow>
             fold (\<lambda>htlc (committed, pending_removal, pending_addition).
                 if htlc_has htlc committed_flag
                 then (committed @ [htlc],
                       if htlc_has htlc pending_flag then pending_removal @ [htlc] else pending_removal,
                       pending_addition)
                 else if htlc_has htlc pending_flag
                 then (committed, pending_removal, pending_addition @ [htlc])
                 else (committed, pending_removal, pending_addition))
               htlcs ([], [], []))"

definition total_offered_msatoshis :: "htlc list \<Rightarrow> side \<Rightarrow> u64" where
  "total_offered_msatoshis htlcs side =
     fold (\<lambda>h total. if htlc_owner h = side then total + h_msatoshi h else total) htlcs 0"

section \<open>The transactions of a channel\<close>

text \<open>One step of the loop in \<^verbatim>\<open>add_htlcs\<close>, for output \<open>i\<close> of the commitment transaction.\<close>

definition add_htlc_tx ::
    "('pk, 'sg) secp \<Rightarrow> 'pk channel \<Rightarrow> 'pk keyset \<Rightarrow> side \<Rightarrow> bytes \<Rightarrow> nat \<Rightarrow> htlc \<Rightarrow> bitcoin_tx \<times> bytes" where
  "add_htlc_tx S channel keyset side txid i htlc =
     (let feerate_per_kw = cv_feerate_per_kw (ch_view channel side) in
      if htlc_owner htlc = side
      then (htlc_timeout_tx S txid (of_nat i) (h_msatoshi htlc) (h_expiry htlc)
              (cc_to_self_delay (ch_config channel (other side))) feerate_per_kw keyset,
            bitcoin_wscript_htlc_offer S (self_htlc_key keyset) (other_htlc_key keyset)
              (h_rhash htlc) (self_revocation_key keyset))
      else (htlc_success_tx S txid (of_nat i) (h_msatoshi htlc)
              (cc_to_self_delay (ch_config channel (other side))) feerate_per_kw keyset,
            bitcoin_wscript_htlc_receive S (h_expiry htlc) (self_htlc_key keyset)
              (other_htlc_key keyset) (h_rhash htlc) (self_revocation_key keyset)))"

primrec add_htlcs_from ::
    "('pk, 'sg) secp \<Rightarrow> 'pk channel \<Rightarrow> 'pk keyset \<Rightarrow> side \<Rightarrow> bytes \<Rightarrow> nat \<Rightarrow> htlc option list \<Rightarrow>
      bitcoin_tx list \<Rightarrow> bytes list \<Rightarrow> (bitcoin_tx list \<times> bytes list) option" where
  "add_htlcs_from S channel keyset side txid i [] txs wscripts = Some (txs, wscripts)"
| "add_htlcs_from S channel keyset side txid i (m # htlcmap) txs wscripts =
     (case m of
        None \<Rightarrow> add_htlcs_from S channel keyset side txid (Suc i) htlcmap txs wscripts
      | Some htlc \<Rightarrow>
          let (tx, wscript) = add_htlc_tx S channel keyset side txid i htlc in
          if length txs \<noteq> length wscripts then None
          else add_htlcs_from S channel keyset side txid (Suc i) htlcmap (txs @ [tx]) (wscripts @ [wscript]))"

definition add_htlcs ::
    "('pk, 'sg) secp \<Rightarrow> bitcoin_tx list \<Rightarrow> bytes list \<Rightarrow> htlc option list \<Rightarrow> 'pk channel \<Rightarrow> 'pk keyset \<Rightarrow> side \<Rightarrow>
      (bitcoin_tx list \<times> bytes list) option" where
  "add_htlcs S txs wscripts htlcmap channel keyset side =
     do {
       txid \<leftarrow> bitcoin_txid (txs ! 0);
       add_htlcs_from S channel keyset side txid 0 htlcmap txs wscripts
     }"

text \<open>The transactions with \<^verbatim>\<open>*htlcmap\<close> and \<^verbatim>\<open>*wscripts\<close>; \<open>Some None\<close> is NULL. \<open>uninit\<close> as in \<open>commit_tx\<close>.\<close>

definition channel_txs ::
    "('pk, 'sg) secp \<Rightarrow> (nat \<Rightarrow> u32) \<Rightarrow> 'pk channel \<Rightarrow> 'pk \<Rightarrow> u64 \<Rightarrow> side \<Rightarrow>
      (bitcoin_tx list \<times> htlc option list \<times> bytes list) option option" where
  "channel_txs S uninit channel per_commitment_point commitment_number side =
     (case derive_keyset S per_commitment_point (ch_basepoints channel side) (ch_basepoints channel (other side)) of
        None \<Rightarrow> Some None
      | Some keyset \<Rightarrow>
          do {
            let (committed, _, _) = gather_htlcs channel side;
            (tx, htlcmap) \<leftarrow>
              commit_tx S uninit (ch_funding_txid channel) (ch_funding_txout channel) (ch_funding_msat channel div 1000)
                (ch_funder channel) (cc_to_self_delay (ch_config channel (other side))) keyset
                (cv_feerate_per_kw (ch_view channel side)) (cc_dust_limit_satoshis (ch_config channel side))
                (cv_owed_msat (ch_view channel side) side) (cv_owed_msat (ch_view channel side) (other side))
                committed (commitment_number XOR ch_commitment_number_obscurer channel) side;
            let wscripts = [bitcoin_redeem_2of2 S (ch_funding_pubkey channel side) (ch_funding_pubkey channel (other side))];
            (txs, wscripts) \<leftarrow> add_htlcs S [tx] wscripts htlcmap channel keyset side;
            Some (Some (txs, htlcmap, wscripts))
          })"

section \<open>Adding an HTLC\<close>

definition set_owed :: "'pk channel \<Rightarrow> side \<Rightarrow> side \<Rightarrow> u64 \<Rightarrow> 'pk channel" where
  "set_owed channel v x owed =
     channel\<lparr>ch_view := (ch_view channel)(v := (ch_view channel v)
       \<lparr>cv_owed_msat := (cv_owed_msat (ch_view channel v))(x := owed)\<rparr>)\<rparr>"

definition set_changes_pending :: "'pk channel \<Rightarrow> side \<Rightarrow> bool \<Rightarrow> 'pk channel" where
  "set_changes_pending channel s b = channel\<lparr>ch_changes_pending := (ch_changes_pending channel)(s := b)\<rparr>"

text \<open>
  The untrimmed count of \<^verbatim>\<open>add_htlc\<close> and \<^verbatim>\<open>can_funder_afford_feerate\<close>, a \<^verbatim>\<open>size_t\<close>
  expression.
\<close>

definition pending_untrimmed :: "htlc list \<Rightarrow> htlc list \<Rightarrow> htlc list \<Rightarrow> u32 \<Rightarrow> u64 \<Rightarrow> side \<Rightarrow> nat" where
  "pending_untrimmed committed removing adding feerate dust side =
     unat (of_nat (commit_tx_num_untrimmed committed feerate dust side)
         + of_nat (commit_tx_num_untrimmed adding feerate dust side)
         - of_nat (commit_tx_num_untrimmed removing feerate dust side) :: u64)"

text \<open>
  The limits of the second half of \<^verbatim>\<open>add_htlc\<close>, from the count of HTLCs on: \<open>Some None\<close> if
  the HTLC is within them.
\<close>

definition add_htlc_limits ::
    "'pk channel \<Rightarrow> htlc \<Rightarrow> side \<Rightarrow> side \<Rightarrow> htlc list \<Rightarrow> htlc list \<Rightarrow> htlc list \<Rightarrow> bool \<Rightarrow> channel_add_err option option" where
  "add_htlc_limits channel htlc sender recipient committed removing adding enforce_aggregate_limits =
     (let view = ch_view channel recipient;
          config = ch_config channel recipient in
      if enforce_aggregate_limits \<and>
         (of_nat (length committed) - of_nat (length removing) + of_nat (length adding) :: u64)
           > ucast (cc_max_accepted_htlcs config)
      then Some (Some CHANNEL_ERR_TOO_MANY_HTLCS)
      else
        let msat_in_htlcs = total_offered_msatoshis committed (htlc_owner htlc)
              - total_offered_msatoshis removing (htlc_owner htlc)
              + total_offered_msatoshis adding (htlc_owner htlc) in
        if enforce_aggregate_limits \<and> msat_in_htlcs > cc_max_htlc_value_in_flight_msat config
        then Some (Some CHANNEL_ERR_MAX_HTLC_VALUE_EXCEEDED)
        else
          let fee_msat =
                (if ch_funder channel = htlc_owner htlc
                 then let feerate = cv_feerate_per_kw view;
                          dust = cc_dust_limit_satoshis config
                      in commit_tx_base_fee feerate (pending_untrimmed committed removing adding feerate dust recipient)
                 else 0 :: s64);
              balance_msat = cv_owed_msat view sender in
          if \<not> sint fee_msat \<ge> 0 then None
          else if \<not> sint balance_msat \<ge> 0 then None
          else
            let balance_msat = fold (\<lambda>h b. b + balance_removing_htlc h sender) removing balance_msat in
            if \<not> sint balance_msat \<ge> 0 then None
            else
              let balance_msat = fold (\<lambda>h b. b + balance_adding_htlc h sender) adding balance_msat in
              if enforce_aggregate_limits \<and>
                 sint (balance_msat - fee_msat) < sint (channel_reserve_msat channel sender)
              then Some (Some CHANNEL_ERR_CHANNEL_CAPACITY_EXCEEDED)
              else Some None)"

text \<open>
  The error, the channel and \<^verbatim>\<open>*htlcp\<close>. The first call, \<^verbatim>\<open>htlc_state_owner(state)\<close>, asserts that
  \<open>st\<close> is a state.
\<close>

definition add_htlc ::
    "'pk channel \<Rightarrow> htlc_state \<Rightarrow> u64 \<Rightarrow> u64 \<Rightarrow> u32 \<Rightarrow> bytes \<Rightarrow> bytes \<Rightarrow> bool \<Rightarrow>
      (channel_add_err \<times> 'pk channel \<times> htlc option) option" where
  "add_htlc channel st hid msatoshi cltv_expiry payment_hash routing enforce_aggregate_limits =
     (if \<not> htlc_state_owner_assert st then None
      else
        let sender = htlc_state_owner st;
            recipient = other sender;
            (ok, expiry) = blocks_to_abs_locktime cltv_expiry in
        if \<not> ok then Some (CHANNEL_ERR_INVALID_EXPIRY, channel, None)
        else
          let htlc = \<lparr>h_state = st, h_id = hid, h_msatoshi = msatoshi, h_expiry = expiry,
                h_rhash = payment_hash, h_r = None, h_shared_secret = None, h_routing = routing,
                h_fail = None, h_failcode = 0, h_failed_scid = None\<rparr> in
          case ch_htlcs channel of
            None \<Rightarrow> None
          | Some htlcs \<Rightarrow>
              case htlc_get htlcs (h_id htlc) (htlc_owner htlc) of
                Some old \<Rightarrow>
                  if h_state old \<noteq> h_state htlc \<or> h_msatoshi old \<noteq> h_msatoshi htlc \<or>
                     h_expiry old \<noteq> h_expiry htlc \<or> h_rhash old \<noteq> h_rhash htlc
                  then Some (CHANNEL_ERR_DUPLICATE_ID_DIFFERENT, channel, None)
                  else Some (CHANNEL_ERR_DUPLICATE, channel, None)
              | None \<Rightarrow>
                  if h_msatoshi htlc = 0 then Some (CHANNEL_ERR_HTLC_BELOW_MINIMUM, channel, None)
                  else if h_msatoshi htlc < cc_htlc_minimum_msat (ch_config channel recipient)
                  then Some (CHANNEL_ERR_HTLC_BELOW_MINIMUM, channel, None)
                  else if h_msatoshi htlc > cp_max_payment_msat (ch_chainparams channel)
                  then Some (CHANNEL_ERR_MAX_HTLC_VALUE_EXCEEDED, channel, None)
                  else
                    let (committed, removing, adding) = gather_htlcs channel recipient;
                        adding = adding @ [htlc]
                    in do {
                      e \<leftarrow> add_htlc_limits channel htlc sender recipient committed removing adding
                            enforce_aggregate_limits;
                      case e of
                        Some err \<Rightarrow> Some (err, channel, None)
                      | None \<Rightarrow>
                          let channel = channel\<lparr>ch_htlcs := Some (htlcs @ [htlc])\<rparr>;
                              channel = (if htlc_state_flags (h_state htlc) AND HTLC_LOCAL_F_PENDING \<noteq> 0
                                then set_changes_pending channel LOCAL True else channel);
                              channel = (if htlc_state_flags (h_state htlc) AND HTLC_REMOTE_F_PENDING \<noteq> 0
                                then set_changes_pending channel REMOTE True else channel)
                          in Some (CHANNEL_ERR_ADD_OK, channel, Some htlc)
                    })"

definition channel_add_htlc ::
    "'pk channel \<Rightarrow> side \<Rightarrow> u64 \<Rightarrow> u64 \<Rightarrow> u32 \<Rightarrow> bytes \<Rightarrow> bytes \<Rightarrow> (channel_add_err \<times> 'pk channel \<times> htlc option) option" where
  "channel_add_htlc channel sender hid msatoshi cltv_expiry payment_hash routing =
     (let st = (if sender = LOCAL then SENT_ADD_HTLC else RCVD_ADD_HTLC)
      in add_htlc channel st hid msatoshi cltv_expiry payment_hash routing True)"

section \<open>Fulfilling and failing\<close>

text \<open>Writing through the pointer that \<^verbatim>\<open>htlc_get\<close> returned.\<close>

primrec htlc_put :: "htlc_map \<Rightarrow> u64 \<Rightarrow> side \<Rightarrow> htlc \<Rightarrow> htlc_map" where
  "htlc_put [] hid owner h' = []"
| "htlc_put (h # hs) hid owner h' =
     (if htlc_cmp h hid \<and> h_id h = hid \<and> htlc_has h (HTLC_FLAG owner HTLC_F_OWNER) then h' # hs
      else h # htlc_put hs hid owner h')"

definition channel_get_htlc :: "'pk channel \<Rightarrow> side \<Rightarrow> u64 \<Rightarrow> htlc option option" where
  "channel_get_htlc channel sender hid =
     (case ch_htlcs channel of None \<Rightarrow> None | Some htlcs \<Rightarrow> Some (htlc_get htlcs hid sender))"

definition channel_put_htlc :: "'pk channel \<Rightarrow> side \<Rightarrow> u64 \<Rightarrow> htlc \<Rightarrow> 'pk channel" where
  "channel_put_htlc channel owner hid h =
     channel\<lparr>ch_htlcs := map_option (\<lambda>htlcs. htlc_put htlcs hid owner h) (ch_htlcs channel)\<rparr>"

text \<open>The state an irrevocably committed HTLC goes to when its removal starts.\<close>

definition remove_start :: "htlc_state \<Rightarrow> htlc_state option" where
  "remove_start st =
     (if st = SENT_ADD_ACK_REVOCATION then Some RCVD_REMOVE_HTLC
      else if st = RCVD_ADD_ACK_REVOCATION then Some SENT_REMOVE_HTLC
      else None)"

definition channel_fulfill_htlc ::
    "'pk channel \<Rightarrow> side \<Rightarrow> u64 \<Rightarrow> bytes \<Rightarrow> (channel_remove_err \<times> 'pk channel \<times> htlc option) option" where
  "channel_fulfill_htlc channel owner hid preimage =
     do {
       r \<leftarrow> channel_get_htlc channel owner hid;
       case r of
         None \<Rightarrow> Some (CHANNEL_ERR_NO_SUCH_ID, channel, None)
       | Some htlc \<Rightarrow>
           if h_r htlc \<noteq> None then Some (CHANNEL_ERR_ALREADY_FULFILLED, channel, None)
           else if sha256 preimage \<noteq> h_rhash htlc then Some (CHANNEL_ERR_BAD_PREIMAGE, channel, None)
           else
             let htlc = htlc\<lparr>h_r := Some preimage\<rparr>;
                 channel = channel_put_htlc channel owner hid htlc in
             if \<not> htlc_has htlc (HTLC_FLAG (other (htlc_owner htlc)) HTLC_F_COMMITTED)
             then Some (CHANNEL_ERR_HTLC_UNCOMMITTED, channel, None)
             else case remove_start (h_state htlc) of
                 None \<Rightarrow> Some (CHANNEL_ERR_HTLC_NOT_IRREVOCABLE, channel, None)
               | Some st \<Rightarrow>
                   let htlc = htlc\<lparr>h_state := st\<rparr>;
                       channel = channel_put_htlc channel owner hid htlc;
                       channel = set_changes_pending channel owner True
                   in Some (CHANNEL_ERR_REMOVE_OK, channel, Some htlc)
     }"

definition channel_fail_htlc ::
    "'pk channel \<Rightarrow> side \<Rightarrow> u64 \<Rightarrow> (channel_remove_err \<times> 'pk channel \<times> htlc option) option" where
  "channel_fail_htlc channel owner hid =
     do {
       r \<leftarrow> channel_get_htlc channel owner hid;
       case r of
         None \<Rightarrow> Some (CHANNEL_ERR_NO_SUCH_ID, channel, None)
       | Some htlc \<Rightarrow>
           if \<not> htlc_has htlc (HTLC_FLAG (other (htlc_owner htlc)) HTLC_F_COMMITTED)
           then Some (CHANNEL_ERR_HTLC_UNCOMMITTED, channel, None)
           else case remove_start (h_state htlc) of
               None \<Rightarrow> Some (CHANNEL_ERR_HTLC_NOT_IRREVOCABLE, channel, None)
             | Some st \<Rightarrow>
                 let htlc = htlc\<lparr>h_state := st\<rparr>;
                     channel = channel_put_htlc channel owner hid htlc;
                     channel = set_changes_pending channel owner True
                 in Some (CHANNEL_ERR_REMOVE_OK, channel, Some htlc)
     }"

section \<open>Changing states\<close>

definition htlc_incstate :: "'pk channel \<Rightarrow> htlc \<Rightarrow> side \<Rightarrow> ('pk channel \<times> htlc) option" where
  "htlc_incstate channel htlc sidechanged =
     (let committed_f = HTLC_FLAG sidechanged HTLC_F_COMMITTED in
      if \<not> htlc_state_flags_assert (h_state htlc) \<or> \<not> htlc_state_flags_assert (htlc_state_succ (h_state htlc)) then None
      else
        let preflags = htlc_state_flags (h_state htlc);
            postflags = htlc_state_flags (htlc_state_succ (h_state htlc)) in
        if preflags AND (HTLC_LOCAL_F_OWNER OR HTLC_REMOTE_F_OWNER) \<noteq>
           postflags AND (HTLC_LOCAL_F_OWNER OR HTLC_REMOTE_F_OWNER) then None
        else
          let htlc = htlc\<lparr>h_state := htlc_state_succ (h_state htlc)\<rparr>;
              owed = cv_owed_msat (ch_view channel sidechanged) in
          if preflags AND committed_f = 0 \<and> postflags AND committed_f \<noteq> 0
          then Some (set_owed (set_owed channel sidechanged LOCAL (owed LOCAL + balance_adding_htlc htlc LOCAL))
                       sidechanged REMOTE (owed REMOTE + balance_adding_htlc htlc REMOTE), htlc)
          else if preflags AND committed_f \<noteq> 0 \<and> postflags AND committed_f = 0
          then Some (set_owed (set_owed channel sidechanged LOCAL (owed LOCAL + balance_removing_htlc htlc LOCAL))
                       sidechanged REMOTE (owed REMOTE + balance_removing_htlc htlc REMOTE), htlc)
          else Some (channel, htlc))"

text \<open>
  The loop of \<^verbatim>\<open>change_htlcs\<close> over the states, for one HTLC, and the loop over the HTLCs:
  the channel, the HTLC or HTLCs, what was appended to \<^verbatim>\<open>*htlcs\<close> and the changed flags.
\<close>

primrec change_htlc_loop ::
    "side \<Rightarrow> htlc_state list \<Rightarrow> 'pk channel \<Rightarrow> htlc \<Rightarrow> htlc list \<Rightarrow> u32 \<Rightarrow> ('pk channel \<times> htlc \<times> htlc list \<times> u32) option" where
  "change_htlc_loop sidechanged [] channel h htlcs cflags = Some (channel, h, htlcs, cflags)"
| "change_htlc_loop sidechanged (st # htlc_states) channel h htlcs cflags =
     (if h_state h = st
      then do {
        (channel, h) \<leftarrow> htlc_incstate channel h sidechanged;
        change_htlc_loop sidechanged htlc_states channel h (htlcs @ [h])
          (cflags OR (htlc_state_flags st XOR htlc_state_flags (h_state h)))
      }
      else change_htlc_loop sidechanged htlc_states channel h htlcs cflags)"

primrec change_htlcs_loop ::
    "side \<Rightarrow> htlc_state list \<Rightarrow> htlc_map \<Rightarrow> 'pk channel \<Rightarrow> htlc list \<Rightarrow> u32 \<Rightarrow> ('pk channel \<times> htlc_map \<times> htlc list \<times> u32) option" where
  "change_htlcs_loop sidechanged htlc_states [] channel htlcs cflags = Some (channel, [], htlcs, cflags)"
| "change_htlcs_loop sidechanged htlc_states (h # hs) channel htlcs cflags =
     do {
       (channel, h, htlcs, cflags) \<leftarrow> change_htlc_loop sidechanged htlc_states channel h htlcs cflags;
       (channel, hs, htlcs, cflags) \<leftarrow> change_htlcs_loop sidechanged htlc_states hs channel htlcs cflags;
       Some (channel, h # hs, htlcs, cflags)
     }"

text \<open>The flags that changed, the channel and \<^verbatim>\<open>*htlcs\<close>.\<close>

definition change_htlcs ::
    "'pk channel \<Rightarrow> side \<Rightarrow> htlc_state list \<Rightarrow> htlc list option \<Rightarrow> (u32 \<times> 'pk channel \<times> htlc list option) option" where
  "change_htlcs channel sidechanged htlc_states htlcs =
     do {
       hs \<leftarrow> ch_htlcs channel;
       (channel, hs, changed, cflags) \<leftarrow> change_htlcs_loop sidechanged htlc_states hs channel [] 0;
       Some (cflags, channel\<lparr>ch_htlcs := Some hs\<rparr>, fold (\<lambda>h arr. htlc_arr_append arr h) changed htlcs)
     }"

section \<open>Fees\<close>

definition approx_max_feerate :: "'pk channel \<Rightarrow> u32" where
  "approx_max_feerate channel =
     (let (committed, removing, adding) = gather_htlcs channel (other (ch_funder channel));
          num = of_nat (length committed) + of_nat (length adding) - of_nat (length removing) :: u64;
          weight = 724 + 172 * num :: u64
      in ucast (cv_owed_msat (ch_view channel (other (ch_funder channel))) (ch_funder channel) div weight * 1000))"

definition can_funder_afford_feerate :: "'pk channel \<Rightarrow> u32 \<Rightarrow> bool" where
  "can_funder_afford_feerate channel feerate_per_kw =
     (let dust = cc_dust_limit_satoshis (ch_config channel (other (ch_funder channel)));
          (committed, removing, adding) = gather_htlcs channel (other (ch_funder channel));
          untrimmed = pending_untrimmed committed removing adding feerate_per_kw dust (other (ch_funder channel));
          fee_msat = commit_tx_base_fee feerate_per_kw untrimmed
      in cv_owed_msat (ch_view channel (other (ch_funder channel))) (ch_funder channel)
           \<ge> channel_reserve_msat channel (ch_funder channel) + fee_msat)"

definition set_feerate :: "'pk channel \<Rightarrow> side \<Rightarrow> u32 \<Rightarrow> 'pk channel" where
  "set_feerate channel s feerate =
     channel\<lparr>ch_view := (ch_view channel)(s := (ch_view channel s)\<lparr>cv_feerate_per_kw := feerate\<rparr>)\<rparr>"

definition channel_update_feerate :: "'pk channel \<Rightarrow> u32 \<Rightarrow> bool \<times> 'pk channel" where
  "channel_update_feerate channel feerate_per_kw =
     (if \<not> can_funder_afford_feerate channel feerate_per_kw then (False, channel)
      else (True, set_changes_pending (set_feerate channel (other (ch_funder channel)) feerate_per_kw)
                    (other (ch_funder channel)) True))"

definition channel_feerate :: "'pk channel \<Rightarrow> side \<Rightarrow> u32" where
  "channel_feerate channel side = cv_feerate_per_kw (ch_view channel side)"

section \<open>Commitments and revocations\<close>

text \<open>
  The return value, the channel and \<^verbatim>\<open>*htlcs\<close> (which a caller may leave NULL). With nothing
  pending, the assertion that nothing changes runs \<^verbatim>\<open>change_htlcs\<close>.
\<close>

definition sending_commit_states :: "htlc_state list" where
  "sending_commit_states = [SENT_ADD_HTLC, SENT_REMOVE_REVOCATION, SENT_ADD_REVOCATION, SENT_REMOVE_HTLC]"

definition channel_sending_commit :: "'pk channel \<Rightarrow> htlc list option \<Rightarrow> (bool \<times> 'pk channel \<times> htlc list option) option" where
  "channel_sending_commit channel htlcs =
     do {
       (change, channel', htlcs') \<leftarrow> change_htlcs channel REMOTE sending_commit_states htlcs;
       if \<not> ch_changes_pending channel REMOTE
       then if change = 0 then Some (False, channel', htlcs') else None
       else Some (True, set_changes_pending channel' REMOTE False, htlcs')
     }"

definition rcvd_revoke_and_ack_states :: "htlc_state list" where
  "rcvd_revoke_and_ack_states = [SENT_ADD_COMMIT, SENT_REMOVE_ACK_COMMIT, SENT_ADD_ACK_COMMIT, SENT_REMOVE_COMMIT]"

definition channel_rcvd_revoke_and_ack ::
    "'pk channel \<Rightarrow> htlc list option \<Rightarrow> (bool \<times> 'pk channel \<times> htlc list option) option" where
  "channel_rcvd_revoke_and_ack channel htlcs =
     do {
       (change, channel, htlcs) \<leftarrow> change_htlcs channel LOCAL rcvd_revoke_and_ack_states htlcs;
       let channel = (if change AND HTLC_LOCAL_F_PENDING \<noteq> 0 then set_changes_pending channel LOCAL True else channel);
       let channel = (if ch_funder channel = LOCAL \<and>
                         cv_feerate_per_kw (ch_view channel LOCAL) \<noteq> cv_feerate_per_kw (ch_view channel REMOTE)
                      then set_changes_pending (set_feerate channel LOCAL (cv_feerate_per_kw (ch_view channel REMOTE))) LOCAL True
                      else channel);
       Some (ch_changes_pending channel LOCAL, channel, htlcs)
     }"

definition rcvd_commit_states :: "htlc_state list" where
  "rcvd_commit_states = [RCVD_ADD_REVOCATION, RCVD_REMOVE_HTLC, RCVD_ADD_HTLC, RCVD_REMOVE_REVOCATION]"

definition channel_rcvd_commit :: "'pk channel \<Rightarrow> htlc list option \<Rightarrow> (bool \<times> 'pk channel \<times> htlc list option) option" where
  "channel_rcvd_commit channel htlcs =
     do {
       (change, channel', htlcs') \<leftarrow> change_htlcs channel LOCAL rcvd_commit_states htlcs;
       if \<not> ch_changes_pending channel LOCAL
       then if change = 0 then Some (False, channel', htlcs') else None
       else Some (True, set_changes_pending channel' LOCAL False, htlcs')
     }"

definition sending_revoke_and_ack_states :: "htlc_state list" where
  "sending_revoke_and_ack_states = [RCVD_ADD_ACK_COMMIT, RCVD_REMOVE_COMMIT, RCVD_ADD_COMMIT, RCVD_REMOVE_ACK_COMMIT]"

definition channel_sending_revoke_and_ack :: "'pk channel \<Rightarrow> (bool \<times> 'pk channel) option" where
  "channel_sending_revoke_and_ack channel =
     do {
       (change, channel, _) \<leftarrow> change_htlcs channel REMOTE sending_revoke_and_ack_states None;
       let channel = (if change AND HTLC_REMOTE_F_PENDING \<noteq> 0 then set_changes_pending channel REMOTE True else channel);
       let channel = (if ch_funder channel = REMOTE \<and>
                         cv_feerate_per_kw (ch_view channel LOCAL) \<noteq> cv_feerate_per_kw (ch_view channel REMOTE)
                      then set_changes_pending (set_feerate channel REMOTE (cv_feerate_per_kw (ch_view channel LOCAL))) REMOTE True
                      else channel);
       Some (ch_changes_pending channel REMOTE, channel)
     }"

definition num_channel_htlcs :: "'pk channel \<Rightarrow> nat option" where
  "num_channel_htlcs channel =
     map_option (\<lambda>htlcs. fold (\<lambda>h n. if \<not> htlc_is_dead h then n + 1 else n) htlcs 0) (ch_htlcs channel)"

section \<open>Restoring\<close>

text \<open>\<^verbatim>\<open>common/htlc_wire.h\<close>\<close>

record added_htlc =
  ad_id :: u64
  ad_amount_msat :: u64
  ad_payment_hash :: bytes
  ad_cltv_expiry :: u32
  ad_onion_routing_packet :: bytes

record fulfilled_htlc =
  fu_id :: u64
  fu_payment_preimage :: bytes

record failed_htlc =
  fa_id :: u64
  fa_failcode :: u16
  fa_failreason :: "bytes option"
  fa_scid :: "u64 option"

definition add_owed :: "'pk channel \<Rightarrow> side \<Rightarrow> s64 \<Rightarrow> s64 \<Rightarrow> 'pk channel" where
  "add_owed channel v l r =
     (let owed = cv_owed_msat (ch_view channel v)
      in set_owed (set_owed channel v LOCAL (owed LOCAL + l)) v REMOTE (owed REMOTE + r))"

text \<open>One turn of the loop over the sides; the result with \<open>False\<close> is an early return.\<close>

definition adjust_balance_side :: "'pk channel \<Rightarrow> htlc \<Rightarrow> side \<Rightarrow> bool \<times> 'pk channel" where
  "adjust_balance_side channel htlc side =
     (if \<not> htlc_has htlc (HTLC_FLAG side HTLC_F_WAS_COMMITTED) then (True, channel)
      else
        let channel = add_owed channel side (balance_adding_htlc htlc LOCAL) (balance_adding_htlc htlc REMOTE) in
        if htlc_has htlc (HTLC_FLAG side HTLC_F_COMMITTED) then (True, channel)
        else if h_fail htlc = None \<and> h_failcode htlc = 0 \<and> h_r htlc = None then (False, channel)
        else (True, add_owed channel side (balance_removing_htlc htlc LOCAL) (balance_removing_htlc htlc REMOTE)))"

definition adjust_balance :: "'pk channel \<Rightarrow> htlc \<Rightarrow> bool \<times> 'pk channel" where
  "adjust_balance channel htlc =
     (case adjust_balance_side channel htlc LOCAL of
        (False, channel) \<Rightarrow> (False, channel)
      | (True, channel) \<Rightarrow> adjust_balance_side channel htlc REMOTE)"

text \<open>The four loops of \<^verbatim>\<open>channel_force_htlcs\<close>; each stops at its first \<open>False\<close>.\<close>

primrec force_add :: "'pk channel \<Rightarrow> (added_htlc \<times> htlc_state) list \<Rightarrow> (bool \<times> 'pk channel) option" where
  "force_add channel [] = Some (True, channel)"
| "force_add channel (a # as) =
     do {
       (e, channel, htlc) \<leftarrow> add_htlc channel (snd a) (ad_id (fst a)) (ad_amount_msat (fst a)) (ad_cltv_expiry (fst a))
          (ad_payment_hash (fst a)) (ad_onion_routing_packet (fst a)) False;
       if e \<noteq> CHANNEL_ERR_ADD_OK then Some (False, channel) else force_add channel as
     }"

primrec force_fulfill :: "'pk channel \<Rightarrow> (fulfilled_htlc \<times> side) list \<Rightarrow> (bool \<times> 'pk channel) option" where
  "force_fulfill channel [] = Some (True, channel)"
| "force_fulfill channel (f # fs) =
     do {
       r \<leftarrow> channel_get_htlc channel (snd f) (fu_id (fst f));
       case r of
         None \<Rightarrow> Some (False, channel)
       | Some htlc \<Rightarrow>
           if h_r htlc \<noteq> None \<or> h_fail htlc \<noteq> None \<or> h_failcode htlc \<noteq> 0 \<or> \<not> htlc_has htlc HTLC_REMOVING
           then Some (False, channel)
           else force_fulfill
                  (channel_put_htlc channel (snd f) (fu_id (fst f)) (htlc\<lparr>h_r := Some (fu_payment_preimage (fst f))\<rparr>)) fs
     }"

text \<open>
  The message about an HTLC that is not being removed prints \<^verbatim>\<open>fulfilled[i].id\<close>, which exists
  only if \<open>i\<close> is below the number \<open>nf\<close> of fulfilled HTLCs.
\<close>

primrec force_fail :: "nat \<Rightarrow> 'pk channel \<Rightarrow> nat \<Rightarrow> (failed_htlc \<times> side) list \<Rightarrow> (bool \<times> 'pk channel) option" where
  "force_fail nf channel i [] = Some (True, channel)"
| "force_fail nf channel i (f # fs) =
     do {
       r \<leftarrow> channel_get_htlc channel (snd f) (fa_id (fst f));
       case r of
         None \<Rightarrow> Some (False, channel)
       | Some htlc \<Rightarrow>
           if h_r htlc \<noteq> None \<or> h_fail htlc \<noteq> None \<or> h_failcode htlc \<noteq> 0 then Some (False, channel)
           else if \<not> htlc_has htlc HTLC_REMOVING then (if i < nf then Some (False, channel) else None)
           else force_fail nf
                  (channel_put_htlc channel (snd f) (fa_id (fst f))
                     (htlc\<lparr>h_failcode := fa_failcode (fst f), h_fail := fa_failreason (fst f), h_failed_scid := fa_scid (fst f)\<rparr>))
                  (Suc i) fs
     }"

primrec force_adjust :: "'pk channel \<Rightarrow> (added_htlc \<times> htlc_state) list \<Rightarrow> (bool \<times> 'pk channel) option" where
  "force_adjust channel [] = Some (True, channel)"
| "force_adjust channel (a # as) =
     do {
       r \<leftarrow> channel_get_htlc channel (htlc_state_owner (snd a)) (ad_id (fst a));
       htlc \<leftarrow> r;
       case adjust_balance channel htlc of
         (False, channel) \<Rightarrow> Some (False, channel)
       | (True, channel) \<Rightarrow> force_adjust channel as
     }"

definition channel_force_htlcs ::
    "'pk channel \<Rightarrow> added_htlc list \<Rightarrow> htlc_state list \<Rightarrow> fulfilled_htlc list \<Rightarrow> side list \<Rightarrow> failed_htlc list \<Rightarrow> side list \<Rightarrow>
      (bool \<times> 'pk channel) option" where
  "channel_force_htlcs channel htlcs hstates fulfilled fulfilled_sides failed failed_sides =
     (if length hstates \<noteq> length htlcs then Some (False, channel)
      else if length fulfilled \<noteq> length fulfilled_sides then Some (False, channel)
      else if length failed \<noteq> length failed_sides then Some (False, channel)
      else do {
        (ok, channel) \<leftarrow> force_add channel (zip htlcs hstates);
        if \<not> ok then Some (False, channel)
        else do {
          (ok, channel) \<leftarrow> force_fulfill channel (zip fulfilled fulfilled_sides);
          if \<not> ok then Some (False, channel)
          else do {
            (ok, channel) \<leftarrow> force_fail (length fulfilled) channel 0 (zip failed failed_sides);
            if \<not> ok then Some (False, channel)
            else force_adjust channel (zip htlcs hstates)
          }
        }
      })"

section \<open>Gathering\<close>

lemma htlc_has_is:
  "htlc_has h (HTLC_FLAG sd HTLC_F_PENDING) \<longleftrightarrow> is_pending sd (h_state h)"
  "htlc_has h (HTLC_FLAG sd HTLC_F_COMMITTED) \<longleftrightarrow> is_committed sd (h_state h)"
  "htlc_has h (HTLC_FLAG sd HTLC_F_WAS_COMMITTED) \<longleftrightarrow> is_was_committed sd (h_state h)"
  by (simp_all add: htlc_has_def is_pending_def is_committed_def is_was_committed_def)

lemma gather_fold:
  "fold (\<lambda>htlc (c, r, a). if P htlc then (c @ [htlc], if Q htlc then r @ [htlc] else r, a)
       else if Q htlc then (c, r, a @ [htlc]) else (c, r, a)) hs (c, r, a) =
   (c @ filter P hs, r @ filter (\<lambda>h. P h \<and> Q h) hs, a @ filter (\<lambda>h. \<not> P h \<and> Q h) hs)"
  by (induction hs arbitrary: c r a) auto

lemma gather_htlcs_filter:
  assumes "ch_htlcs channel = Some hs"
  shows "gather_htlcs channel side =
    (filter (\<lambda>h. is_committed side (h_state h)) hs,
     filter (\<lambda>h. is_committed side (h_state h) \<and> is_pending side (h_state h)) hs,
     filter (\<lambda>h. \<not> is_committed side (h_state h) \<and> is_pending side (h_state h)) hs)"
  using gather_fold [of "\<lambda>h. is_committed side (h_state h)" "\<lambda>h. is_pending side (h_state h)" hs "[]" "[]" "[]"]
  unfolding gather_htlcs_def Let_def htlc_has_is by (simp add: assms)

section \<open>Balances\<close>

text \<open>
  What an HTLC contributes to the balance of \<open>X\<close> in the commitment of \<open>V\<close>, given its state:
  the code adds exactly this in \<open>adjust_balance\<close>, and keeps it up to date in
  \<open>htlc_incstate\<close>.
\<close>

definition contribution :: "side \<Rightarrow> htlc \<Rightarrow> side \<Rightarrow> s64" where
  "contribution V h X =
     (if is_was_committed V (h_state h) then balance_adding_htlc h X else 0) +
     (if is_was_committed V (h_state h) \<and> \<not> is_committed V (h_state h) then balance_removing_htlc h X else 0)"

definition shift_owed :: "(side \<Rightarrow> side \<Rightarrow> s64) \<Rightarrow> 'pk channel \<Rightarrow> 'pk channel" where
  "shift_owed f channel =
     channel\<lparr>ch_view := \<lambda>v. (ch_view channel v)\<lparr>cv_owed_msat := \<lambda>x. cv_owed_msat (ch_view channel v) x + f v x\<rparr>\<rparr>"

lemma shift_owed_simps [simp]:
  "cv_owed_msat (ch_view (shift_owed f c) v) x = cv_owed_msat (ch_view c v) x + f v x"
  "cv_feerate_per_kw (ch_view (shift_owed f c) v) = cv_feerate_per_kw (ch_view c v)"
  "ch_htlcs (shift_owed f c) = ch_htlcs c"
  "ch_config (shift_owed f c) = ch_config c"
  "ch_funder (shift_owed f c) = ch_funder c"
  "ch_funding_msat (shift_owed f c) = ch_funding_msat c"
  "ch_chainparams (shift_owed f c) = ch_chainparams c"
  "ch_changes_pending (shift_owed f c) = ch_changes_pending c"
  "shift_owed (\<lambda>_ _. 0) c = c"
  by (simp_all add: shift_owed_def)

lemma shift_owed_shift_owed [simp]: "shift_owed f (shift_owed g c) = shift_owed (\<lambda>v x. f v x + g v x) c"
  by (simp add: shift_owed_def add_ac)

lemma shift_owed_cong: "(\<And>v x. f v x = g v x) \<Longrightarrow> shift_owed f c = shift_owed g c"
  by (simp add: shift_owed_def)

lemma shift_owed_0: "(\<And>v x. f v x = 0) \<Longrightarrow> shift_owed f c = c"
  by (simp add: shift_owed_def)

lemma set_owed_shift:
  "set_owed (set_owed c v LOCAL (cv_owed_msat (ch_view c v) LOCAL + l)) v REMOTE (cv_owed_msat (ch_view c v) REMOTE + r) =
     shift_owed (\<lambda>v' x. if v' = v then both l r x else 0) c"
proof -
  have "(\<lambda>v'. if v' = v then (ch_view c v)\<lparr>cv_owed_msat := (cv_owed_msat (ch_view c v))
          (LOCAL := cv_owed_msat (ch_view c v) LOCAL + l, REMOTE := cv_owed_msat (ch_view c v) REMOTE + r)\<rparr>
        else ch_view c v') =
      (\<lambda>v'. (ch_view c v')\<lparr>cv_owed_msat := \<lambda>x. cv_owed_msat (ch_view c v') x + (if v' = v then both l r x else 0)\<rparr>)"
    by (rule ext) (auto simp: both_def fun_eq_iff split: side.splits)
  then show ?thesis
    by (simp add: set_owed_def shift_owed_def fun_upd_def cong: if_cong)
qed

lemma add_owed_shift: "add_owed c v l r = shift_owed (\<lambda>v' x. if v' = v then both l r x else 0) c"
  by (simp add: add_owed_def Let_def set_owed_shift)

lemma both_eta: "both (f LOCAL) (f REMOTE) x = f x"
  by (cases x) simp_all

lemma adjust_balance_contribution:
  assumes "\<And>v. is_was_committed v (h_state h) \<and> \<not> is_committed v (h_state h) \<Longrightarrow>
      h_fail h \<noteq> None \<or> h_failcode h \<noteq> 0 \<or> h_r h \<noteq> None"
  shows "adjust_balance c h = (True, shift_owed (\<lambda>v x. contribution v h x) c)"
proof -
  have *: "adjust_balance_side c h sd = (True, shift_owed (\<lambda>v x. if v = sd then contribution v h x else 0) c)" for c :: "'a channel" and sd
    using assms [of sd]
    by (auto simp: adjust_balance_side_def htlc_has_is add_owed_shift contribution_def both_eta Let_def
        intro!: shift_owed_cong shift_owed_0 [symmetric])
  have "(if v = REMOTE then contribution v h x else 0) + (if v = LOCAL then contribution v h x else 0) = contribution v h x" for v x
    by (cases v) simp_all
  then show ?thesis by (simp add: adjust_balance_def *)
qed

section \<open>Steps of the commitment protocol\<close>

text \<open>
  What the four lists of states have in common that \<open>change_htlcs\<close> is called with: the next
  state of a listed state is a state of the same owner and not listed itself, and only the
  commitment of the side \<open>sd\<close> that is passed changes.
\<close>

lemma owner_flags_eq:
  "s \<noteq> HTLC_STATE_INVALID \<Longrightarrow> s' \<noteq> HTLC_STATE_INVALID \<Longrightarrow>
     htlc_state_flags s AND (HTLC_LOCAL_F_OWNER OR HTLC_REMOTE_F_OWNER) =
     htlc_state_flags s' AND (HTLC_LOCAL_F_OWNER OR HTLC_REMOTE_F_OWNER) \<longleftrightarrow>
     htlc_state_owner s = htlc_state_owner s'"
proof -
  have *: "s \<noteq> HTLC_STATE_INVALID \<Longrightarrow> htlc_state_flags s AND (HTLC_LOCAL_F_OWNER OR HTLC_REMOTE_F_OWNER) =
      (if htlc_state_owner s = LOCAL then HTLC_LOCAL_F_OWNER else HTLC_REMOTE_F_OWNER)" for s
    by (cases s) (simp_all add: htlc_state_owner_def htlc_state_flags_def flag_simps)
  have "HTLC_LOCAL_F_OWNER \<noteq> HTLC_REMOTE_F_OWNER" by (simp add: flag_simps)
  moreover assume "s \<noteq> HTLC_STATE_INVALID" "s' \<noteq> HTLC_STATE_INVALID"
  ultimately show ?thesis by (cases "htlc_state_owner s"; cases "htlc_state_owner s'") (simp_all add: *)
qed

lemma balance_same_owner:
  assumes "htlc_state_owner st = htlc_state_owner (h_state h)"
  shows "balance_adding_htlc (h\<lparr>h_state := st\<rparr>) X = balance_adding_htlc h X"
    "balance_removing_htlc (h\<lparr>h_state := st\<rparr>) X = balance_removing_htlc h X"
  using assms by (simp_all add: balance_adding_htlc_def balance_removing_htlc_def htlc_owner_def)

definition advance :: "htlc_state list \<Rightarrow> htlc \<Rightarrow> htlc" where
  "advance states h = (if h_state h \<in> set states then h\<lparr>h_state := htlc_state_succ (h_state h)\<rparr> else h)"

locale commitment_step =
  fixes sd :: side and states :: "htlc_state list"
  assumes succ_valid: "s \<in> set states \<Longrightarrow> s \<noteq> HTLC_STATE_INVALID \<and> htlc_state_succ s \<noteq> HTLC_STATE_INVALID"
    and succ_owner: "s \<in> set states \<Longrightarrow> htlc_state_owner (htlc_state_succ s) = htlc_state_owner s"
    and succ_fresh: "s \<in> set states \<Longrightarrow> htlc_state_succ s \<notin> set states"
    and states_distinct: "distinct states"
    and succ_other: "s \<in> set states \<Longrightarrow> is_was_committed (other sd) (htlc_state_succ s) = is_was_committed (other sd) s"
      "s \<in> set states \<Longrightarrow> is_committed (other sd) (htlc_state_succ s) = is_committed (other sd) s"
    and succ_was: "s \<in> set states \<Longrightarrow>
      is_was_committed sd (htlc_state_succ s) \<longleftrightarrow> is_was_committed sd s \<or> is_committed sd (htlc_state_succ s)"
    and succ_once: "s \<in> set states \<Longrightarrow> is_committed sd (htlc_state_succ s) \<Longrightarrow> is_committed sd s = is_was_committed sd s"
begin

lemma htlc_incstate_advance:
  assumes s: "h_state h \<in> set states"
  shows "htlc_incstate c h sd =
    Some (shift_owed (\<lambda>v x. contribution v (advance states h) x - contribution v h x) c, advance states h)"
proof -
  let ?s = "h_state h" and ?h = "h\<lparr>h_state := htlc_state_succ (h_state h)\<rparr>"
  note b = balance_same_owner [OF succ_owner [OF s]]
  have o: "contribution v ?h x - contribution v h x = 0" if "v \<noteq> sd" for v x
    using that side_cases [of v sd] by (simp add: contribution_def succ_other s b)
  have a: "advance states h = ?h" by (simp add: advance_def s)
  have i: "htlc_incstate c h sd = Some (
    if \<not> is_committed sd ?s \<and> is_committed sd (htlc_state_succ ?s)
      then shift_owed (\<lambda>v x. if v = sd then balance_adding_htlc h x else 0) c
    else if is_committed sd ?s \<and> \<not> is_committed sd (htlc_state_succ ?s)
      then shift_owed (\<lambda>v x. if v = sd then balance_removing_htlc h x else 0) c
    else c, ?h)"
    unfolding htlc_incstate_def Let_def set_owed_shift b
      both_eta [of "balance_adding_htlc h"] both_eta [of "balance_removing_htlc h"]
    using succ_valid [OF s] succ_owner [OF s] by (simp add: owner_flags_eq is_committed_def)
  have w: "is_committed v ?s \<Longrightarrow> is_was_committed v ?s" for v
    by (cases v; cases ?s) (simp_all add: is_committed_def is_was_committed_def htlc_state_flags_def flag_simps)
  have "contribution sd ?h x - contribution sd h x =
    (if \<not> is_committed sd ?s \<and> is_committed sd (htlc_state_succ ?s) then balance_adding_htlc h x
     else if is_committed sd ?s \<and> \<not> is_committed sd (htlc_state_succ ?s) then balance_removing_htlc h x
     else 0)" for x
    using succ_was [OF s] succ_once [OF s] w [of sd] by (auto simp: contribution_def b)
  then have "contribution v ?h x - contribution v h x =
    (if v = sd then (if \<not> is_committed sd ?s \<and> is_committed sd (htlc_state_succ ?s) then balance_adding_htlc h x
     else if is_committed sd ?s \<and> \<not> is_committed sd (htlc_state_succ ?s) then balance_removing_htlc h x
     else 0) else 0)" for v x
    using o by simp
  then show ?thesis unfolding i a by (auto intro!: shift_owed_cong shift_owed_0 [symmetric])
qed

lemma change_htlc_loop_miss:
  "h_state h \<notin> set sts \<Longrightarrow> change_htlc_loop sd sts c h arr fl = Some (c, h, arr, fl)"
  by (induction sts) auto

lemma change_htlc_loop_advance:
  assumes "set sts \<subseteq> set states" "distinct sts" "h_state h \<in> set sts"
  shows "change_htlc_loop sd sts c h arr fl =
    Some (shift_owed (\<lambda>v x. contribution v (advance states h) x - contribution v h x) c, advance states h,
      arr @ [advance states h],
      fl OR (htlc_state_flags (h_state h) XOR htlc_state_flags (htlc_state_succ (h_state h))))"
  using assms
proof (induction sts)
  case (Cons s sts)
  show ?case
  proof (cases "h_state h = s")
    case True
    then have s: "h_state h \<in> set states" using Cons.prems by simp
    have a: "h_state (advance states h) = htlc_state_succ s" by (simp add: advance_def s True [symmetric])
    then have "h_state (advance states h) \<notin> set sts" using succ_fresh [OF s] True Cons.prems(1) by auto
    then show ?thesis by (simp add: True htlc_incstate_advance [OF s] change_htlc_loop_miss a)
  next
    case False
    then show ?thesis using Cons by simp
  qed
qed simp

lemma change_htlcs_loop_advance:
  "change_htlcs_loop sd states hs c arr fl =
     Some (shift_owed (\<lambda>v x. \<Sum>h\<leftarrow>hs. contribution v (advance states h) x - contribution v h x) c, map (advance states) hs,
       arr @ map (advance states) (filter (\<lambda>h. h_state h \<in> set states) hs),
       fold (\<lambda>h fl. fl OR (htlc_state_flags (h_state h) XOR htlc_state_flags (htlc_state_succ (h_state h))))
         (filter (\<lambda>h. h_state h \<in> set states) hs) fl)"
proof (induction hs arbitrary: c arr fl)
  case (Cons h hs)
  show ?case
  proof (cases "h_state h \<in> set states")
    case True
    show ?thesis
      using Cons by (simp add: change_htlc_loop_advance [OF subset_refl states_distinct True] True add_ac)
  next
    case False
    then have "advance states h = h" by (simp add: advance_def)
    then show ?thesis using Cons False by (simp add: change_htlc_loop_miss)
  qed
qed simp

end


definition changed_flags :: "htlc_state list \<Rightarrow> htlc list \<Rightarrow> u32" where
  "changed_flags states hs =
     fold (\<lambda>h fl. fl OR (htlc_state_flags (h_state h) XOR htlc_state_flags (htlc_state_succ (h_state h))))
       (filter (\<lambda>h. h_state h \<in> set states) hs) 0"

lemma fold_OR_mask: "fold (\<lambda>h fl. fl OR f h) hs fl AND m = 0 \<longleftrightarrow> fl AND m = 0 \<and> (\<forall>h\<in>set hs. f h AND m = 0)"
  for fl m :: u32
proof (induction hs arbitrary: fl)
  case (Cons h hs)
  have "(fl OR f h) AND m = (fl AND m) OR (f h AND m)" by (simp add: bit_eq_iff bit_simps) blast
  moreover have "a OR b = 0 \<longleftrightarrow> a = 0 \<and> b = 0" for a b :: u32 by (auto simp: bit_eq_iff bit_simps)
  ultimately show ?case using Cons by auto
qed simp

lemma changed_flags_mask:
  "changed_flags states hs AND m = 0 \<longleftrightarrow>
     (\<forall>h\<in>set hs. h_state h \<in> set states \<longrightarrow>
        (htlc_state_flags (h_state h) XOR htlc_state_flags (htlc_state_succ (h_state h))) AND m = 0)"
  by (auto simp: changed_flags_def fold_OR_mask)

lemma changed_flags_0:
  assumes "\<And>s. s \<in> set states \<Longrightarrow> htlc_state_flags s \<noteq> htlc_state_flags (htlc_state_succ s)"
  shows "changed_flags states hs = 0 \<longleftrightarrow> (\<forall>h\<in>set hs. h_state h \<notin> set states)"
proof -
  have "a XOR b = 0 \<longleftrightarrow> a = b" for a b :: u32 by (auto simp: bit_eq_iff bit_simps)
  with changed_flags_mask [of states hs "- 1"] assms show ?thesis by auto
qed

lemma fold_arr_append: "fold (\<lambda>h arr. htlc_arr_append arr h) hs arr = map_option (\<lambda>a. a @ hs) arr"
  by (induction hs arbitrary: arr) (auto simp: htlc_arr_append_def option.map_ident split: option.splits)

context commitment_step
begin

lemma change_htlcs_advance:
  assumes "ch_htlcs c = Some hs"
  shows "change_htlcs c sd states arr =
    Some (changed_flags states hs,
      (shift_owed (\<lambda>v x. \<Sum>h\<leftarrow>hs. contribution v (advance states h) x - contribution v h x) c)
        \<lparr>ch_htlcs := Some (map (advance states) hs)\<rparr>,
      map_option (\<lambda>a. a @ map (advance states) (filter (\<lambda>h. h_state h \<in> set states) hs)) arr)"
  by (simp add: change_htlcs_def assms change_htlcs_loop_advance fold_arr_append changed_flags_def)

end

lemmas state_table_simps =
  is_pending_def is_committed_def is_was_committed_def htlc_state_flags_def htlc_state_owner_def flag_simps

interpretation sending: commitment_step REMOTE sending_commit_states
  by unfold_locales (auto simp: sending_commit_states_def state_table_simps)

interpretation revoked: commitment_step LOCAL rcvd_revoke_and_ack_states
  by unfold_locales (auto simp: rcvd_revoke_and_ack_states_def state_table_simps)

interpretation rcvd: commitment_step LOCAL rcvd_commit_states
  by unfold_locales (auto simp: rcvd_commit_states_def state_table_simps)

interpretation revoking: commitment_step REMOTE sending_revoke_and_ack_states
  by unfold_locales (auto simp: sending_revoke_and_ack_states_def state_table_simps)

text \<open>The states the two commitment operations list are those with a change pending on that side.\<close>

lemma commit_states_pending:
  "s \<in> set sending_commit_states \<longleftrightarrow> is_pending REMOTE s"
  "s \<in> set rcvd_commit_states \<longleftrightarrow> is_pending LOCAL s"
  by (cases s; simp add: sending_commit_states_def rcvd_commit_states_def state_table_simps)+

lemma commit_states_change:
  "s \<in> set sending_commit_states \<Longrightarrow> htlc_state_flags s \<noteq> htlc_state_flags (htlc_state_succ s)"
  "s \<in> set rcvd_commit_states \<Longrightarrow> htlc_state_flags s \<noteq> htlc_state_flags (htlc_state_succ s)"
  by (cases s; simp add: sending_commit_states_def rcvd_commit_states_def state_table_simps)+


end
