(* ===== verification/ChannelBalance.thy ===== *)
theory ChannelBalance
  imports FullChannel
begin

text \<open>
  Balances of a channel. The code keeps the amounts \<^verbatim>\<open>owed_msat\<close> in both commitments as
  64-bit numbers and updates them HTLC by HTLC. Here they are compared with a reference
  balance: an integer computed from the opening balance and the HTLCs alone.

  A balance of \<open>X\<close> is taken at a cut \<open>(a, f, g)\<close>: HTLCs that \<open>X\<close> offered count from stage \<open>a\<close>
  on, come back from stage \<open>f\<close> on if they failed, and HTLCs that \<open>X\<close> received are paid from
  stage \<open>g\<close> on if they were fulfilled. The ten stages are the ten states of one owner. The
  cuts of interest are those of the two commitments, with and without the pending changes,
  and that of the last revoked commitment.
\<close>

section \<open>Stages\<close>

definition stage :: "htlc_state \<Rightarrow> nat" where
  "stage s = htlc_state_num s mod 10"

lemmas stage_simps = stage_def htlc_state_owner_def

lemma committed_stage:
  assumes "s \<noteq> HTLC_STATE_INVALID"
  shows "is_was_committed v s \<longleftrightarrow> (if htlc_state_owner s = v then 3 else 1) \<le> stage s"
    and "is_committed v s \<longleftrightarrow> (if htlc_state_owner s = v then 3 \<le> stage s \<and> stage s < 6 else 1 \<le> stage s \<and> stage s < 8)"
    and "is_pending v s \<longleftrightarrow> (if htlc_state_owner s = v then stage s = 2 \<or> stage s = 5 else stage s = 0 \<or> stage s = 7)"
  using assms by (cases s; cases v; simp add: state_table_simps stage_def)+

section \<open>The reference balance\<close>

type_synonym cut = "nat \<times> nat \<times> nat"

fun share :: "cut \<Rightarrow> side \<Rightarrow> htlc \<Rightarrow> int" where
  "share (a, f, g) X h =
     (if htlc_owner h = X
      then (if a \<le> stage (h_state h) then - uint (h_msatoshi h) else 0) +
           (if f \<le> stage (h_state h) \<and> h_r h = None then uint (h_msatoshi h) else 0)
      else (if g \<le> stage (h_state h) \<and> h_r h \<noteq> None then uint (h_msatoshi h) else 0))"

definition balance :: "(side \<Rightarrow> u64) \<Rightarrow> htlc list \<Rightarrow> side \<Rightarrow> cut \<Rightarrow> int" where
  "balance base hs X c = uint (base X) + (\<Sum>h\<leftarrow>hs. share c X h)"

text \<open>The cut of the balance of \<open>X\<close> in the commitment of \<open>v\<close>.\<close>

definition view_cut :: "side \<Rightarrow> side \<Rightarrow> cut" where
  "view_cut v X = (if v = X then (3, 6, 8) else (1, 8, 6))"

lemma contribution_share:
  assumes "h_state h \<noteq> HTLC_STATE_INVALID"
  shows "contribution v h X = of_int (share (view_cut v X) X h)"
  by (cases v; cases X; cases "htlc_state_owner (h_state h)"; cases "h_r h")
    (auto simp: contribution_def committed_stage [OF assms] view_cut_def balance_adding_htlc_def
      balance_removing_htlc_def htlc_owner_def)

lemma balance_of_word:
  assumes "\<forall>h\<in>set hs. h_state h \<noteq> HTLC_STATE_INVALID"
  shows "base X + (\<Sum>h\<leftarrow>hs. contribution v h X) = of_int (balance base hs X (view_cut v X))"
proof -
  have "(\<Sum>h\<leftarrow>hs. contribution v h X) = of_int (\<Sum>h\<leftarrow>hs. share (view_cut v X) X h)"
    using assms by (induction hs) (simp_all add: contribution_share)
  then show ?thesis by (simp add: balance_def)
qed

text \<open>In a commitment, what the two sides own and what the HTLCs in it hold is what there was at the opening.\<close>

definition in_htlcs :: "side \<Rightarrow> htlc list \<Rightarrow> int" where
  "in_htlcs v hs = (\<Sum>h \<leftarrow> filter (\<lambda>h. is_committed v (h_state h)) hs. uint (h_msatoshi h))"

lemma share_conservation:
  assumes "h_state h \<noteq> HTLC_STATE_INVALID"
  shows "share (view_cut v LOCAL) LOCAL h + share (view_cut v REMOTE) REMOTE h =
    (if is_committed v (h_state h) then - uint (h_msatoshi h) else 0)"
  by (cases v; cases "htlc_owner h"; cases "h_r h")
    (auto simp: view_cut_def committed_stage(2) [OF assms] htlc_owner_def)

lemma balance_conservation:
  assumes "\<forall>h\<in>set hs. h_state h \<noteq> HTLC_STATE_INVALID"
  shows "balance base hs LOCAL (view_cut v LOCAL) + balance base hs REMOTE (view_cut v REMOTE) + in_htlcs v hs =
    uint (base LOCAL) + uint (base REMOTE)"
  using assms
proof (induction hs)
  case (Cons h hs)
  then show ?case using share_conservation [of h v] by (auto simp: balance_def in_htlcs_def)
qed (simp add: balance_def in_htlcs_def)

lemma in_htlcs_nonneg: "0 \<le> in_htlcs v hs"
  unfolding in_htlcs_def by (rule sum_list_nonneg) auto

section \<open>Solvency\<close>

text \<open>
  Nobody's balance is negative: with the changes pending on the peer's commitment
  \<open>(0, 7, 5)\<close>, in the peer's commitment, in the peer's last revoked commitment \<open>(2, 9, 7)\<close>,
  in the own commitment, and in the own last revoked commitment \<open>(4, 7, 9)\<close>.
\<close>

definition cuts :: "cut set" where
  "cuts = {(0, 7, 5), (1, 8, 6), (2, 9, 7), (3, 6, 8), (4, 7, 9)}"

definition solvent :: "(side \<Rightarrow> u64) \<Rightarrow> htlc list \<Rightarrow> bool" where
  "solvent base hs \<longleftrightarrow> (\<forall>X. \<forall>c \<in> cuts. 0 \<le> balance base hs X c)"

lemma solventD:
  assumes "solvent base hs"
  shows "0 \<le> balance base hs X (0, 7, 5)" "0 \<le> balance base hs X (view_cut v X)"
  using assms by (auto simp: solvent_def view_cut_def cuts_def)

lemma balance_mono:
  assumes "\<And>h. h \<in> set hs \<Longrightarrow> share c X h \<le> share c' X (F h)"
  shows "balance base hs X c \<le> balance base (map F hs) X c'"
proof -
  have "(\<Sum>h\<leftarrow>hs. share c X h) \<le> (\<Sum>h\<leftarrow>hs. share c' X (F h))" by (rule sum_list_mono) (rule assms)
  then show ?thesis by (simp add: balance_def o_def)
qed

text \<open>
  Each of the four steps moves one balance to the next cut: a commitment to \<open>V\<close> applies what
  was pending on it, a revocation by \<open>V\<close> makes its commitment the last revoked one. So
  every balance after the step is at least some balance before it.
\<close>

locale solvent_step = commitment_step +
  fixes source :: "side \<Rightarrow> cut \<Rightarrow> cut"
  assumes source_cut: "c \<in> cuts \<Longrightarrow> source X c \<in> cuts"
    and source_share: "c \<in> cuts \<Longrightarrow> h_state h \<noteq> HTLC_STATE_INVALID \<Longrightarrow>
      share (source X c) X h \<le> share c X (advance states h)"
begin

lemma solvent_advance:
  assumes "\<forall>h\<in>set hs. h_state h \<noteq> HTLC_STATE_INVALID" and "solvent base hs"
  shows "solvent base (map (advance states) hs)"
  unfolding solvent_def
proof (intro allI ballI)
  fix X c assume c: "c \<in> cuts"
  have "0 \<le> balance base hs X (source X c)" using assms(2) source_cut [OF c] by (simp add: solvent_def)
  also have "\<dots> \<le> balance base (map (advance states) hs) X c"
    by (rule balance_mono) (use assms(1) source_share [OF c] in blast)
  finally show "0 \<le> balance base (map (advance states) hs) X c" .
qed

end

definition commit_source :: "side \<Rightarrow> side \<Rightarrow> cut \<Rightarrow> cut" where
  "commit_source v X c =
     (if X \<noteq> v \<and> c = (1, 8, 6) then (0, 7, 5) else if X = v \<and> c = (3, 6, 8) then (2, 9, 7) else c)"

definition revoke_source :: "side \<Rightarrow> side \<Rightarrow> cut \<Rightarrow> cut" where
  "revoke_source v X c =
     (if X \<noteq> v \<and> c = (2, 9, 7) then (1, 8, 6) else if X = v \<and> c = (4, 7, 9) then (3, 6, 8) else c)"

definition moved :: "nat set \<Rightarrow> nat set \<Rightarrow> side \<Rightarrow> htlc_state \<Rightarrow> nat" where
  "moved A B v s = (if stage s \<in> (if htlc_state_owner s = v then A else B) then Suc (stage s) else stage s)"

lemma advance_stage:
  assumes "h_state h \<noteq> HTLC_STATE_INVALID"
  shows
    "stage (h_state (advance sending_commit_states h)) = moved {2, 5} {0, 7} REMOTE (h_state h)"
    "stage (h_state (advance rcvd_commit_states h)) = moved {2, 5} {0, 7} LOCAL (h_state h)"
    "stage (h_state (advance rcvd_revoke_and_ack_states h)) = moved {3, 6} {1, 8} REMOTE (h_state h)"
    "stage (h_state (advance sending_revoke_and_ack_states h)) = moved {3, 6} {1, 8} LOCAL (h_state h)"
  using assms by (cases "h_state h"; simp add: moved_def advance_def sending_commit_states_def rcvd_commit_states_def
      rcvd_revoke_and_ack_states_def sending_revoke_and_ack_states_def stage_simps)+

lemma share_moved:
  assumes "htlc_owner h' = htlc_owner h" "h_r h' = h_r h" "h_msatoshi h' = h_msatoshi h" "c \<in> cuts"
  shows "stage (h_state h') = moved {2, 5} {0, 7} v (h_state h) \<Longrightarrow> share (commit_source v X c) X h \<le> share c X h'"
    "stage (h_state h') = moved {3, 6} {1, 8} v (h_state h) \<Longrightarrow> share (revoke_source v X c) X h \<le> share c X h'"
proof -
  obtain n where n: "stage (h_state h) = n" by simp
  have c: "c = (0, 7, 5) \<or> c = (1, 8, 6) \<or> c = (2, 9, 7) \<or> c = (3, 6, 8) \<or> c = (4, 7, 9)" using assms(4) by (simp add: cuts_def)
  have o: "htlc_state_owner (h_state h) = htlc_owner h" by (simp add: htlc_owner_def)
  show "share (commit_source v X c) X h \<le> share c X h'" if m: "stage (h_state h') = moved {2, 5} {0, 7} v (h_state h)"
    using c by (elim disjE; cases "htlc_owner h"; cases X; cases v; cases "h_r h")
      (auto simp: assms(1-3) m moved_def commit_source_def n o)
  show "share (revoke_source v X c) X h \<le> share c X h'" if m: "stage (h_state h') = moved {3, 6} {1, 8} v (h_state h)"
    using c by (elim disjE; cases "htlc_owner h"; cases X; cases v; cases "h_r h")
      (auto simp: assms(1-3) m moved_def revoke_source_def n o)
qed

context commitment_step
begin

lemma advance_simps:
  "htlc_owner (advance states h) = htlc_owner h" "h_r (advance states h) = h_r h"
  "h_msatoshi (advance states h) = h_msatoshi h" "h_id (advance states h) = h_id h"
  "h_expiry (advance states h) = h_expiry h" "h_rhash (advance states h) = h_rhash h"
  by (simp_all add: advance_def htlc_owner_def succ_owner)

lemma advance_valid: "h_state h \<noteq> HTLC_STATE_INVALID \<Longrightarrow> h_state (advance states h) \<noteq> HTLC_STATE_INVALID"
  by (simp add: advance_def succ_valid)

end

lemma sources_cuts: "c \<in> cuts \<Longrightarrow> commit_source v X c \<in> cuts" "c \<in> cuts \<Longrightarrow> revoke_source v X c \<in> cuts"
  by (auto simp: cuts_def commit_source_def revoke_source_def)

interpretation s_sending: solvent_step REMOTE sending_commit_states "commit_source REMOTE"
  by unfold_locales (simp_all add: sources_cuts share_moved(1) sending.advance_simps advance_stage)

interpretation s_rcvd: solvent_step LOCAL rcvd_commit_states "commit_source LOCAL"
  by unfold_locales (simp_all add: sources_cuts share_moved(1) rcvd.advance_simps advance_stage)

interpretation s_revoked: solvent_step LOCAL rcvd_revoke_and_ack_states "revoke_source REMOTE"
  by unfold_locales (simp_all add: sources_cuts share_moved(2) revoked.advance_simps advance_stage)

interpretation s_revoking: solvent_step REMOTE sending_revoke_and_ack_states "revoke_source LOCAL"
  by unfold_locales (simp_all add: sources_cuts share_moved(2) revoking.advance_simps advance_stage)

section \<open>The invariant\<close>

text \<open>
  Every HTLC is in a state, within the limits of the recipient and the chain, and if it has a
  preimage, then it is the right one and the HTLC is being removed.
\<close>

definition htlc_ok :: "'pk channel \<Rightarrow> htlc \<Rightarrow> bool" where
  "htlc_ok c h \<longleftrightarrow> h_state h \<noteq> HTLC_STATE_INVALID \<and> h_msatoshi h \<noteq> 0 \<and>
     cc_htlc_minimum_msat (ch_config c (other (htlc_owner h))) \<le> h_msatoshi h \<and>
     h_msatoshi h \<le> cp_max_payment_msat (ch_chainparams c) \<and> h_expiry h < SECONDS_POINT \<and>
     (case h_r h of None \<Rightarrow> True | Some r \<Rightarrow> 5 \<le> stage (h_state h) \<and> sha256 r = h_rhash h)"

definition htlc_ident :: "htlc \<Rightarrow> u64 \<times> side" where
  "htlc_ident h = (h_id h, htlc_owner h)"

definition owed_ok :: "(side \<Rightarrow> u64) \<Rightarrow> htlc list \<Rightarrow> 'pk channel \<Rightarrow> bool" where
  "owed_ok base hs c \<longleftrightarrow>
     (\<forall>v X. cv_owed_msat (ch_view c v) X = base X + (\<Sum>h\<leftarrow>hs. contribution v h X))"

definition flags_ok :: "htlc list \<Rightarrow> (side \<Rightarrow> bool) \<Rightarrow> bool" where
  "flags_ok hs pend \<longleftrightarrow> (\<forall>v. (\<exists>h\<in>set hs. is_pending v (h_state h)) \<longrightarrow> pend v)"

definition channel_inv :: "(side \<Rightarrow> u64) \<Rightarrow> 'pk channel \<Rightarrow> bool" where
  "channel_inv base c \<longleftrightarrow> (case ch_htlcs c of None \<Rightarrow> False | Some hs \<Rightarrow>
     (\<forall>h\<in>set hs. htlc_ok c h) \<and> distinct (map htlc_ident hs) \<and> owed_ok base hs c \<and> solvent base hs \<and>
     flags_ok hs (ch_changes_pending c))"

text \<open>
  The parameters of a channel, which no operation changes, and the bounds the arithmetic needs:
  all amounts as signed 64-bit numbers.
\<close>

definition params_ok :: "(side \<Rightarrow> u64) \<Rightarrow> 'pk channel \<Rightarrow> bool" where
  "params_ok base c \<longleftrightarrow>
     uint (base LOCAL) + uint (base REMOTE) = uint (ch_funding_msat c) \<and> uint (ch_funding_msat c) < 2 ^ 63 \<and>
     uint (cp_max_payment_msat (ch_chainparams c)) < 2 ^ 62 \<and>
     (\<forall>X. uint (channel_reserve_msat c X) < 2 ^ 63)"

definition same_params :: "'pk channel \<Rightarrow> 'pk channel \<Rightarrow> bool" where
  "same_params c c' \<longleftrightarrow> ch_funding_msat c' = ch_funding_msat c \<and> ch_config c' = ch_config c \<and>
     ch_chainparams c' = ch_chainparams c \<and> ch_funder c' = ch_funder c \<and>
     ch_funding_txid c' = ch_funding_txid c \<and> ch_funding_txout c' = ch_funding_txout c \<and>
     ch_funding_pubkey c' = ch_funding_pubkey c \<and> ch_basepoints c' = ch_basepoints c \<and>
     ch_commitment_number_obscurer c' = ch_commitment_number_obscurer c"

lemma channel_invE:
  assumes "channel_inv base c"
  obtains hs where "ch_htlcs c = Some hs" "\<forall>h\<in>set hs. htlc_ok c h" "distinct (map htlc_ident hs)" "owed_ok base hs c"
    "solvent base hs" "flags_ok hs (ch_changes_pending c)"
  using assms by (auto simp: channel_inv_def split: option.splits)

lemma channel_invI:
  assumes "ch_htlcs c = Some hs" "\<forall>h\<in>set hs. htlc_ok c h" "distinct (map htlc_ident hs)" "owed_ok base hs c"
    "solvent base hs" "flags_ok hs (ch_changes_pending c)"
  shows "channel_inv base c"
  using assms by (simp add: channel_inv_def)

lemma htlc_ok_valid: "htlc_ok c h \<Longrightarrow> h_state h \<noteq> HTLC_STATE_INVALID"
  by (simp add: htlc_ok_def)

lemma htlc_ok_cong: "ch_config c' = ch_config c \<Longrightarrow> ch_chainparams c' = ch_chainparams c \<Longrightarrow> htlc_ok c' h = htlc_ok c h"
  by (simp add: htlc_ok_def)

lemma owed_ok_cong:
  assumes "\<And>v. cv_owed_msat (ch_view c' v) = cv_owed_msat (ch_view c v)"
  shows "owed_ok base hs c' = owed_ok base hs c"
  by (simp add: owed_ok_def assms)

subsection \<open>What the invariant says about amounts\<close>

lemma owed_balance:
  assumes "channel_inv base c" "ch_htlcs c = Some hs" "params_ok base c"
  shows "uint (cv_owed_msat (ch_view c v) X) = balance base hs X (view_cut v X)"
    and "0 \<le> balance base hs X (view_cut v X)" and "balance base hs X (view_cut v X) < 2 ^ 63"
proof -
  have i: "\<forall>h\<in>set hs. h_state h \<noteq> HTLC_STATE_INVALID" and o: "owed_ok base hs c" and s: "solvent base hs"
    using assms(1,2) by (auto simp: channel_inv_def htlc_ok_valid)
  show p: "0 \<le> balance base hs X (view_cut v X)" for X using solventD(2) [OF s] .
  have "balance base hs LOCAL (view_cut v LOCAL) + balance base hs REMOTE (view_cut v REMOTE) < 2 ^ 63"
    using balance_conservation [OF i, of base v] in_htlcs_nonneg [of v hs] assms(3) by (simp add: params_ok_def)
  then show b: "balance base hs X (view_cut v X) < 2 ^ 63"
    using p [of LOCAL] p [of REMOTE] by (cases X) auto
  have "cv_owed_msat (ch_view c v) X = of_int (balance base hs X (view_cut v X))"
    using o balance_of_word [OF i, of base X v] by (simp add: owed_ok_def)
  then show "uint (cv_owed_msat (ch_view c v) X) = balance base hs X (view_cut v X)"
    using b p [of X] by (simp add: uint_word_of_int_eq take_bit_int_eq_self)
qed

lemma owed_within_funding:
  assumes "channel_inv base c" "params_ok base c" "ch_htlcs c = Some hs"
  shows "uint (cv_owed_msat (ch_view c v) X) + uint (cv_owed_msat (ch_view c v) (other X)) + in_htlcs v hs = uint (ch_funding_msat c)"
proof -
  have "\<forall>h\<in>set hs. h_state h \<noteq> HTLC_STATE_INVALID" using assms(1,3) by (auto simp: channel_inv_def htlc_ok_valid)
  from balance_conservation [OF this, of base v] show ?thesis
    using assms(2) by (cases X) (simp_all add: owed_balance(1) [OF assms(1,3,2)] params_ok_def)
qed

section \<open>The commitment protocol keeps the invariant\<close>

lemma stage_succ:
  assumes "s \<noteq> HTLC_STATE_INVALID" "htlc_state_succ s \<noteq> HTLC_STATE_INVALID"
    "htlc_state_owner (htlc_state_succ s) = htlc_state_owner s"
  shows "stage (htlc_state_succ s) = Suc (stage s)"
  using assms by (cases s) (simp_all add: stage_simps)

lemma channel_update_simps [simp]:
  "ch_htlcs (set_changes_pending c s b) = ch_htlcs c" "ch_view (set_changes_pending c s b) = ch_view c"
  "ch_config (set_changes_pending c s b) = ch_config c" "ch_chainparams (set_changes_pending c s b) = ch_chainparams c"
  "ch_funder (set_changes_pending c s b) = ch_funder c" "ch_funding_msat (set_changes_pending c s b) = ch_funding_msat c"
  "ch_changes_pending (set_changes_pending c s b) = (ch_changes_pending c)(s := b)"
  "ch_htlcs (set_feerate c s f) = ch_htlcs c" "cv_owed_msat (ch_view (set_feerate c s f) v) = cv_owed_msat (ch_view c v)"
  "ch_config (set_feerate c s f) = ch_config c" "ch_chainparams (set_feerate c s f) = ch_chainparams c"
  "ch_funder (set_feerate c s f) = ch_funder c" "ch_funding_msat (set_feerate c s f) = ch_funding_msat c"
  "ch_changes_pending (set_feerate c s f) = ch_changes_pending c"
  "cv_feerate_per_kw (ch_view (set_feerate c s f) v) = (if v = s then f else cv_feerate_per_kw (ch_view c v))"
  by (simp_all add: set_changes_pending_def set_feerate_def)

lemma opening_fields [simp]:
  "ch_funding_txid (set_changes_pending c s b) = ch_funding_txid c" "ch_funding_txid (set_feerate c s r) = ch_funding_txid c"
  "ch_funding_txid (shift_owed g c) = ch_funding_txid c"
  "ch_funding_txout (set_changes_pending c s b) = ch_funding_txout c" "ch_funding_txout (set_feerate c s r) = ch_funding_txout c"
  "ch_funding_txout (shift_owed g c) = ch_funding_txout c"
  "ch_funding_pubkey (set_changes_pending c s b) = ch_funding_pubkey c" "ch_funding_pubkey (set_feerate c s r) = ch_funding_pubkey c"
  "ch_funding_pubkey (shift_owed g c) = ch_funding_pubkey c"
  "ch_basepoints (set_changes_pending c s b) = ch_basepoints c" "ch_basepoints (set_feerate c s r) = ch_basepoints c"
  "ch_basepoints (shift_owed g c) = ch_basepoints c"
  "ch_commitment_number_obscurer (set_changes_pending c s b) = ch_commitment_number_obscurer c" "ch_commitment_number_obscurer (set_feerate c s r) = ch_commitment_number_obscurer c"
  "ch_commitment_number_obscurer (shift_owed g c) = ch_commitment_number_obscurer c"
  by (simp_all add: set_changes_pending_def set_feerate_def shift_owed_def)

context solvent_step
begin

lemma htlc_ok_advance: "htlc_ok c h \<Longrightarrow> htlc_ok c (advance states h)"
proof -
  have "stage (h_state h) \<le> stage (h_state (advance states h))"
    using stage_succ [of "h_state h"] succ_valid [of "h_state h"] succ_owner [of "h_state h"] by (simp add: advance_def)
  then show "htlc_ok c h \<Longrightarrow> htlc_ok c (advance states h)"
    unfolding htlc_ok_def advance_simps using advance_valid by (auto split: option.splits)
qed

lemma owed_ok_advance:
  assumes "owed_ok base hs c"
  shows "owed_ok base (map (advance states) hs)
    (shift_owed (\<lambda>v x. \<Sum>h\<leftarrow>hs. contribution v (advance states h) x - contribution v h x) c)"
proof -
  have "(\<Sum>h\<leftarrow>hs. contribution v (advance states h) x - contribution v h x) =
      (\<Sum>h\<leftarrow>map (advance states) hs. contribution v h x) - (\<Sum>h\<leftarrow>hs. contribution v h x)" for v x
    by (induction hs) simp_all
  then show ?thesis using assms by (simp add: owed_ok_def)
qed

text \<open>After \<open>change_htlcs\<close>, only the flags are left to set.\<close>

lemma change_htlcs_inv:
  assumes inv: "channel_inv base c" and h: "ch_htlcs c = Some hs"
  obtains c' where
    "change_htlcs c sd states arr =
       Some (changed_flags states hs, c', map_option (\<lambda>a. a @ map (advance states) (filter (\<lambda>h. h_state h \<in> set states) hs)) arr)"
    "ch_htlcs c' = Some (map (advance states) hs)" "same_params c c'" "ch_changes_pending c' = ch_changes_pending c"
    "\<And>v. cv_feerate_per_kw (ch_view c' v) = cv_feerate_per_kw (ch_view c v)"
    "\<And>c''. same_params c' c'' \<Longrightarrow> ch_htlcs c'' = ch_htlcs c' \<Longrightarrow> (\<And>v. cv_owed_msat (ch_view c'' v) = cv_owed_msat (ch_view c' v)) \<Longrightarrow>
       flags_ok (map (advance states) hs) (ch_changes_pending c'') \<Longrightarrow> channel_inv base c''"
proof
  let ?c = "(shift_owed (\<lambda>v x. \<Sum>h\<leftarrow>hs. contribution v (advance states h) x - contribution v h x) c)
        \<lparr>ch_htlcs := Some (map (advance states) hs)\<rparr>"
  show "change_htlcs c sd states arr = Some (changed_flags states hs, ?c,
      map_option (\<lambda>a. a @ map (advance states) (filter (\<lambda>h. h_state h \<in> set states) hs)) arr)"
    by (rule change_htlcs_advance [OF h])
  show "ch_htlcs ?c = Some (map (advance states) hs)" "same_params c ?c" "ch_changes_pending ?c = ch_changes_pending c"
    "\<And>v. cv_feerate_per_kw (ch_view ?c v) = cv_feerate_per_kw (ch_view c v)"
    by (simp_all add: same_params_def)
  have i: "\<forall>h\<in>set hs. htlc_ok c h" "distinct (map htlc_ident hs)" "owed_ok base hs c" "solvent base hs"
    using inv h by (simp_all add: channel_inv_def)
  have "map htlc_ident (map (advance states) hs) = map htlc_ident hs"
    by (simp add: htlc_ident_def advance_simps)
  then have d: "distinct (map htlc_ident (map (advance states) hs))" using i(2) by (simp only:)
  have s: "solvent base (map (advance states) hs)"
    using i(1,4) by (intro solvent_advance) (auto dest: htlc_ok_valid)
  fix c'' assume *: "same_params ?c c''" "ch_htlcs c'' = ch_htlcs ?c"
    "\<And>v. cv_owed_msat (ch_view c'' v) = cv_owed_msat (ch_view ?c v)" "flags_ok (map (advance states) hs) (ch_changes_pending c'')"
  have "owed_ok base (map (advance states) hs) c''"
    using owed_ok_advance [OF i(3)] *(3) by (simp add: owed_ok_def)
  moreover have "\<forall>h\<in>set hs. htlc_ok c'' (advance states h)"
    using i(1) *(1) htlc_ok_advance [of c] htlc_ok_cong [of c'' c] by (simp add: same_params_def)
  ultimately show "channel_inv base c''"
    using * d s by (intro channel_invI) simp_all
qed

end

lemma changed_pending:
  assumes "h \<in> set hs"
  shows "h_state h \<in> set rcvd_revoke_and_ack_states \<Longrightarrow> is_pending LOCAL (htlc_state_succ (h_state h)) \<Longrightarrow>
      changed_flags rcvd_revoke_and_ack_states hs AND HTLC_LOCAL_F_PENDING \<noteq> 0"
    and "h_state h \<in> set sending_revoke_and_ack_states \<Longrightarrow> is_pending REMOTE (htlc_state_succ (h_state h)) \<Longrightarrow>
      changed_flags sending_revoke_and_ack_states hs AND HTLC_REMOTE_F_PENDING \<noteq> 0"
proof -
  have "s \<in> set rcvd_revoke_and_ack_states \<Longrightarrow> is_pending LOCAL (htlc_state_succ s) \<Longrightarrow>
      (htlc_state_flags s XOR htlc_state_flags (htlc_state_succ s)) AND HTLC_LOCAL_F_PENDING \<noteq> 0" for s
    by (auto simp: rcvd_revoke_and_ack_states_def state_table_simps)
  then show "h_state h \<in> set rcvd_revoke_and_ack_states \<Longrightarrow> is_pending LOCAL (htlc_state_succ (h_state h)) \<Longrightarrow>
      changed_flags rcvd_revoke_and_ack_states hs AND HTLC_LOCAL_F_PENDING \<noteq> 0"
    using assms changed_flags_mask [of rcvd_revoke_and_ack_states hs HTLC_LOCAL_F_PENDING] by blast
  have "s \<in> set sending_revoke_and_ack_states \<Longrightarrow> is_pending REMOTE (htlc_state_succ s) \<Longrightarrow>
      (htlc_state_flags s XOR htlc_state_flags (htlc_state_succ s)) AND HTLC_REMOTE_F_PENDING \<noteq> 0" for s
    by (auto simp: sending_revoke_and_ack_states_def state_table_simps)
  then show "h_state h \<in> set sending_revoke_and_ack_states \<Longrightarrow> is_pending REMOTE (htlc_state_succ (h_state h)) \<Longrightarrow>
      changed_flags sending_revoke_and_ack_states hs AND HTLC_REMOTE_F_PENDING \<noteq> 0"
    using assms changed_flags_mask [of sending_revoke_and_ack_states hs HTLC_REMOTE_F_PENDING] by blast
qed

text \<open>A commitment leaves nothing pending on its side, and no step makes a change pending unannounced.\<close>

lemma advance_pending:
  "is_pending v (h_state (advance sending_commit_states h)) \<Longrightarrow> v = LOCAL \<and> is_pending v (h_state h)"
  "is_pending v (h_state (advance rcvd_commit_states h)) \<Longrightarrow> v = REMOTE \<and> is_pending v (h_state h)"
  "is_pending v (h_state (advance rcvd_revoke_and_ack_states h)) \<Longrightarrow> is_pending v (h_state h) \<or>
     v = LOCAL \<and> h_state h \<in> set rcvd_revoke_and_ack_states \<and> is_pending LOCAL (htlc_state_succ (h_state h))"
  "is_pending v (h_state (advance sending_revoke_and_ack_states h)) \<Longrightarrow> is_pending v (h_state h) \<or>
     v = REMOTE \<and> h_state h \<in> set sending_revoke_and_ack_states \<and> is_pending REMOTE (htlc_state_succ (h_state h))"
  by (cases "h_state h"; cases v; simp add: advance_def sending_commit_states_def rcvd_commit_states_def
    rcvd_revoke_and_ack_states_def sending_revoke_and_ack_states_def state_table_simps)+

lemma flags_ok_advance:
  assumes "flags_ok hs p"
  shows "flags_ok (map (advance sending_commit_states) hs) (p(REMOTE := b))"
    "flags_ok (map (advance rcvd_commit_states) hs) (p(LOCAL := b))"
    "flags_ok (map (advance rcvd_revoke_and_ack_states) hs)
       (if changed_flags rcvd_revoke_and_ack_states hs AND HTLC_LOCAL_F_PENDING \<noteq> 0 then p(LOCAL := True) else p)"
    "flags_ok (map (advance sending_revoke_and_ack_states) hs)
       (if changed_flags sending_revoke_and_ack_states hs AND HTLC_REMOTE_F_PENDING \<noteq> 0 then p(REMOTE := True) else p)"
  using assms unfolding flags_ok_def by (fastforce dest: advance_pending changed_pending)+

lemma flags_ok_mono: "flags_ok hs p \<Longrightarrow> (\<And>v. p v \<Longrightarrow> p' v) \<Longrightarrow> flags_ok hs p'"
  by (auto simp: flags_ok_def)

lemma nothing_pending:
  assumes "flags_ok hs p" "\<not> p v"
  shows "v = REMOTE \<Longrightarrow> changed_flags sending_commit_states hs = 0"
    "v = LOCAL \<Longrightarrow> changed_flags rcvd_commit_states hs = 0"
proof -
  have "changed_flags sending_commit_states hs = 0 \<longleftrightarrow> (\<forall>h\<in>set hs. h_state h \<notin> set sending_commit_states)"
    "changed_flags rcvd_commit_states hs = 0 \<longleftrightarrow> (\<forall>h\<in>set hs. h_state h \<notin> set rcvd_commit_states)"
    by (intro changed_flags_0 commit_states_change; assumption)+
  with assms show "v = REMOTE \<Longrightarrow> changed_flags sending_commit_states hs = 0"
    "v = LOCAL \<Longrightarrow> changed_flags rcvd_commit_states hs = 0"
    by (auto simp: commit_states_pending flags_ok_def)
qed

lemma same_params_simps [simp]:
  "same_params c c" "same_params c (set_changes_pending c' s b) = same_params c c'"
  "same_params c (set_feerate c' s f) = same_params c c'"
  by (simp_all add: same_params_def)

definition keeps_inv :: "(side \<Rightarrow> u64) \<Rightarrow> 'pk channel \<Rightarrow> 'pk channel \<Rightarrow> bool" where
  "keeps_inv base c c' \<longleftrightarrow> channel_inv base c' \<and> same_params c c'"

text \<open>A commitment to \<open>sd\<close>, with the assertion where nothing is pending, and a revocation by the other side.\<close>

locale commit_step = solvent_step +
  assumes commit_flags: "flags_ok hs p \<Longrightarrow> flags_ok (map (advance states) hs) (p(sd := b))"
    and commit_unchanged: "flags_ok hs p \<Longrightarrow> \<not> p sd \<Longrightarrow> changed_flags states hs = 0"
begin

lemma commit_inv:
  assumes inv: "channel_inv base c"
  shows "\<exists>c' arr'. Option.bind (change_htlcs c sd states arr) (\<lambda>(change, c', arr').
      if \<not> ch_changes_pending c sd then if change = 0 then Some (False, c', arr') else None
      else Some (True, set_changes_pending c' sd False, arr')) =
    Some (ch_changes_pending c sd, c', arr') \<and> keeps_inv base c c'"
proof -
  from inv obtain hs where h: "ch_htlcs c = Some hs" and f: "flags_ok hs (ch_changes_pending c)"
    by (rule channel_invE)
  note g = commit_flags [OF f, of "ch_changes_pending c sd"] commit_flags [OF f, of False]
  show ?thesis
  proof (rule change_htlcs_inv [OF inv h, of arr])
    fix c' assume c': "change_htlcs c sd states arr = Some (changed_flags states hs, c',
        map_option (\<lambda>a. a @ map (advance states) (filter (\<lambda>h. h_state h \<in> set states) hs)) arr)"
      "same_params c c'" "ch_changes_pending c' = ch_changes_pending c"
      and k: "\<And>c''. same_params c' c'' \<Longrightarrow> ch_htlcs c'' = ch_htlcs c' \<Longrightarrow>
        (\<And>v. cv_owed_msat (ch_view c'' v) = cv_owed_msat (ch_view c' v)) \<Longrightarrow>
        flags_ok (map (advance states) hs) (ch_changes_pending c'') \<Longrightarrow> channel_inv base c''"
    have "channel_inv base c'" using g(1) by (intro k) (simp_all add: c'(3))
    moreover have "channel_inv base (set_changes_pending c' sd False)" using g(2) by (intro k) (simp_all add: c'(3))
    ultimately show ?thesis using c' commit_unchanged [OF f] by (simp add: keeps_inv_def)
  qed
qed

end

locale revoke_step = solvent_step +
  assumes revoke_flags: "flags_ok hs p \<Longrightarrow> flags_ok (map (advance states) hs)
    (if changed_flags states hs AND HTLC_FLAG sd HTLC_F_PENDING \<noteq> 0 then p(sd := True) else p)"
begin

lemma revoke_inv:
  assumes inv: "channel_inv base c"
  shows "\<exists>b c' arr'. Option.bind (change_htlcs c sd states arr) (\<lambda>(change, c1, arr').
      let c2 = (if change AND HTLC_FLAG sd HTLC_F_PENDING \<noteq> 0 then set_changes_pending c1 sd True else c1);
          c3 = (if new_rate c2 then set_changes_pending (set_feerate c2 sd (rate c2)) sd True else c2)
      in Some (ch_changes_pending c3 sd, c3, arr')) = Some (b, c', arr') \<and> keeps_inv base c c'"
proof -
  from inv obtain hs where h: "ch_htlcs c = Some hs" and f: "flags_ok hs (ch_changes_pending c)"
    by (rule channel_invE)
  note g = revoke_flags [OF f]
  show ?thesis
  proof (rule change_htlcs_inv [OF inv h, of arr])
    fix c' assume c': "change_htlcs c sd states arr = Some (changed_flags states hs, c',
        map_option (\<lambda>a. a @ map (advance states) (filter (\<lambda>h. h_state h \<in> set states) hs)) arr)"
      "same_params c c'" "ch_changes_pending c' = ch_changes_pending c"
      and k: "\<And>c''. same_params c' c'' \<Longrightarrow> ch_htlcs c'' = ch_htlcs c' \<Longrightarrow>
        (\<And>v. cv_owed_msat (ch_view c'' v) = cv_owed_msat (ch_view c' v)) \<Longrightarrow>
        flags_ok (map (advance states) hs) (ch_changes_pending c'') \<Longrightarrow> channel_inv base c''"
    let ?c2 = "if changed_flags states hs AND HTLC_FLAG sd HTLC_F_PENDING \<noteq> 0 then set_changes_pending c' sd True else c'"
    have "channel_inv base ?c2" using g by (intro k) (simp_all add: c'(3) split: if_splits)
    moreover have "channel_inv base (set_changes_pending (set_feerate ?c2 sd r) sd True)" for r
      using g by (intro k) (auto simp: c'(3) elim!: flags_ok_mono split: if_splits)
    moreover have "same_params c ?c2" using c'(2) by simp
    ultimately show ?thesis using c'(1) by (simp add: keeps_inv_def Let_def)
  qed
qed

end

interpretation c_sending: commit_step REMOTE sending_commit_states "commit_source REMOTE"
  by unfold_locales (simp_all only: flags_ok_advance nothing_pending)

interpretation c_rcvd: commit_step LOCAL rcvd_commit_states "commit_source LOCAL"
  by unfold_locales (simp_all only: flags_ok_advance nothing_pending)

interpretation r_revoked: revoke_step LOCAL rcvd_revoke_and_ack_states "revoke_source REMOTE"
  by unfold_locales (use flags_ok_advance(3) in \<open>simp only: HTLC_LOCAL_F_PENDING_def\<close>)

interpretation r_revoking: revoke_step REMOTE sending_revoke_and_ack_states "revoke_source LOCAL"
  by unfold_locales (use flags_ok_advance(4) in \<open>simp only: HTLC_REMOTE_F_PENDING_def\<close>)

lemma sending_commit_inv:
  assumes "channel_inv base c"
  shows "\<exists>c' arr'. channel_sending_commit c arr = Some (ch_changes_pending c REMOTE, c', arr') \<and> keeps_inv base c c'"
  unfolding channel_sending_commit_def by (rule c_sending.commit_inv [OF assms])

lemma rcvd_commit_inv:
  assumes "channel_inv base c"
  shows "\<exists>c' arr'. channel_rcvd_commit c arr = Some (ch_changes_pending c LOCAL, c', arr') \<and> keeps_inv base c c'"
  unfolding channel_rcvd_commit_def by (rule c_rcvd.commit_inv [OF assms])

lemma rcvd_revoke_and_ack_inv:
  assumes "channel_inv base c"
  shows "\<exists>b c' arr'. channel_rcvd_revoke_and_ack c arr = Some (b, c', arr') \<and> keeps_inv base c c'"
  unfolding channel_rcvd_revoke_and_ack_def HTLC_LOCAL_F_PENDING_def by (rule r_revoked.revoke_inv [OF assms])

lemma sending_revoke_and_ack_inv:
  assumes "channel_inv base c"
  shows "\<exists>b c'. channel_sending_revoke_and_ack c = Some (b, c') \<and> keeps_inv base c c'"
  using r_revoking.revoke_inv [OF assms, of None "\<lambda>c. ch_funder c = REMOTE \<and>
      cv_feerate_per_kw (ch_view c LOCAL) \<noteq> cv_feerate_per_kw (ch_view c REMOTE)" "\<lambda>c. cv_feerate_per_kw (ch_view c LOCAL)"]
  unfolding channel_sending_revoke_and_ack_def HTLC_REMOTE_F_PENDING_def
  by (auto simp: Let_def split: Option.bind_splits)

lemma update_feerate_inv:
  assumes "channel_inv base c"
  shows "keeps_inv base c (snd (channel_update_feerate c f))"
proof -
  obtain hs where "ch_htlcs c = Some hs" "\<forall>h\<in>set hs. htlc_ok c h" "distinct (map htlc_ident hs)" "owed_ok base hs c"
    "solvent base hs" "flags_ok hs (ch_changes_pending c)"
    using assms by (rule channel_invE)
  then have "channel_inv base (set_changes_pending (set_feerate c s f) v True)" for s v
    by (intro channel_invI) (auto simp: htlc_ok_def owed_ok_def elim: flags_ok_mono)
  then show ?thesis using assms by (simp add: channel_update_feerate_def keeps_inv_def)
qed

section \<open>Adding and removing HTLCs keeps the invariant\<close>

definition htlc_match :: "u64 \<Rightarrow> side \<Rightarrow> htlc \<Rightarrow> bool" where
  "htlc_match i ow h \<longleftrightarrow> h_id h = i \<and> htlc_has h (HTLC_FLAG ow HTLC_F_OWNER)"

lemma htlc_match_ident: "h_state h \<noteq> HTLC_STATE_INVALID \<Longrightarrow> htlc_match i ow h \<longleftrightarrow> htlc_ident h = (i, ow)"
  by (auto simp: htlc_match_def htlc_has_owner htlc_ident_def)

lemma htlc_get_find: "htlc_get hs i ow = find (htlc_match i ow) hs"
  by (induction hs) (auto simp: htlc_get_def htlc_match_def htlc_cmp_def)

lemma htlc_put_split:
  "\<forall>x\<in>set xs. \<not> htlc_match i ow x \<Longrightarrow> htlc_match i ow h \<Longrightarrow> htlc_put (xs @ h # ys) i ow h' = xs @ h' # ys"
  by (induction xs) (auto simp: htlc_match_def htlc_cmp_def)

lemma htlc_get_split:
  assumes "htlc_get hs i ow = Some h"
  obtains xs ys where "hs = xs @ h # ys" "\<forall>x\<in>set xs. \<not> htlc_match i ow x" "htlc_match i ow h"
proof -
  from assms obtain n where n: "n < length hs" "htlc_match i ow (hs ! n)" "h = hs ! n" "\<forall>j<n. \<not> htlc_match i ow (hs ! j)"
    by (auto simp: htlc_get_find find_Some_iff)
  show thesis
  proof
    show "hs = take n hs @ h # drop (Suc n) hs" using n by (simp add: id_take_nth_drop)
    show "\<forall>x\<in>set (take n hs). \<not> htlc_match i ow x" using n by (auto simp: in_set_conv_nth)
    show "htlc_match i ow h" using n by simp
  qed
qed

lemma replace_htlc_inv:
  assumes inv: "channel_inv base c" and hs: "ch_htlcs c = Some (xs @ h # ys)"
    and h': "htlc_ok c h'" "htlc_ident h' = htlc_ident h"
      "\<And>v X. contribution v h' X = contribution v h X" "\<And>X k. k \<in> cuts \<Longrightarrow> share k X h \<le> share k X h'"
    and c': "ch_htlcs c' = Some (xs @ h' # ys)" "same_params c c'"
      "\<And>v. cv_owed_msat (ch_view c' v) = cv_owed_msat (ch_view c v)" "\<And>v. ch_changes_pending c v \<Longrightarrow> ch_changes_pending c' v"
    and pend: "\<And>v. is_pending v (h_state h') \<Longrightarrow> ch_changes_pending c' v"
  shows "keeps_inv base c c'"
proof -
  have i: "\<forall>x\<in>set (xs @ h # ys). htlc_ok c x" "distinct (map htlc_ident (xs @ h # ys))" "owed_ok base (xs @ h # ys) c"
    "solvent base (xs @ h # ys)" "flags_ok (xs @ h # ys) (ch_changes_pending c)"
    using inv hs by (simp_all add: channel_inv_def)
  have ok: "htlc_ok c' x = htlc_ok c x" for x using c'(2) by (intro htlc_ok_cong) (simp_all add: same_params_def)
  have "balance base (xs @ h # ys) X k \<le> balance base (xs @ h' # ys) X k" if "k \<in> cuts" for X k
    using h'(4) [OF that] by (simp add: balance_def)
  then have "solvent base (xs @ h' # ys)" using i(4) order_trans unfolding solvent_def by blast
  moreover have "owed_ok base (xs @ h' # ys) c'" using i(3) by (simp add: owed_ok_def c'(3) h'(3))
  moreover have "flags_ok (xs @ h' # ys) (ch_changes_pending c')" using i(5) c'(4) pend by (auto simp: flags_ok_def)
  ultimately show ?thesis
    unfolding keeps_inv_def using i(1,2) h'(1,2) c'(1,2) by (auto intro!: channel_invI simp: ok)
qed

lemma remove_start_stage:
  assumes "remove_start s = Some s'"
  shows "stage s = 4" "stage s' = 5" "htlc_state_owner s' = htlc_state_owner s" "s \<noteq> HTLC_STATE_INVALID" "s' \<noteq> HTLC_STATE_INVALID"
    "is_pending v s' \<longleftrightarrow> v = htlc_state_owner s"
  using assms by (auto simp: remove_start_def stage_simps state_table_simps split: if_splits; cases v; simp)+

text \<open>The start of a removal, with the preimage or without.\<close>

lemma start_removal_inv:
  assumes inv: "channel_inv base c" and hs: "ch_htlcs c = Some (xs @ h # ys)" and st: "remove_start (h_state h) = Some st"
    and r: "case r of None \<Rightarrow> True | Some p \<Rightarrow> sha256 p = h_rhash h"
    and c': "ch_htlcs c' = Some (xs @ h\<lparr>h_state := st, h_r := r\<rparr> # ys)" "same_params c c'" "ch_view c' = ch_view c"
      "ch_changes_pending c' = (ch_changes_pending c)(htlc_owner h := True)"
  shows "keeps_inv base c c'"
proof (rule replace_htlc_inv [OF inv hs])
  note s = remove_start_stage [OF st]
  have ok: "htlc_ok c h" using inv hs by (simp add: channel_inv_def)
  then have n: "h_r h = None" using s(1) by (auto simp: htlc_ok_def split: option.splits)
  let ?h = "h\<lparr>h_state := st, h_r := r\<rparr>"
  have o: "htlc_owner ?h = htlc_owner h" using s(3) by (simp add: htlc_owner_def)
  show "htlc_ok c ?h" using ok s r unfolding htlc_ok_def o by (auto split: option.splits)
  show "htlc_ident ?h = htlc_ident h" by (simp add: htlc_ident_def o)
  show "contribution v ?h X = contribution v h X" for v X
    using s by (simp add: contribution_def committed_stage balance_adding_htlc_def htlc_owner_def)
  show "share k X h \<le> share k X ?h" if "k \<in> cuts" for X k
    using that s n o by (auto simp: cuts_def)
  show "ch_changes_pending c' v" if "is_pending v (h_state ?h)" for v
    using that s(6) c'(4) by (simp add: htlc_owner_def)
qed (use c' in auto)

lemma put_htlc_simps [simp]:
  "ch_view (channel_put_htlc c ow i h) = ch_view c" "ch_changes_pending (channel_put_htlc c ow i h) = ch_changes_pending c"
  "same_params c' (channel_put_htlc c ow i h) = same_params c' c"
  by (simp_all add: channel_put_htlc_def same_params_def)

lemma get_htlc_inv:
  assumes inv: "channel_inv base c"
  shows "(\<exists>hs. ch_htlcs c = Some hs \<and> channel_get_htlc c ow i = Some None \<and> (\<forall>h\<in>set hs. htlc_ident h \<noteq> (i, ow))) \<or>
    (\<exists>xs h ys. ch_htlcs c = Some (xs @ h # ys) \<and> channel_get_htlc c ow i = Some (Some h) \<and> htlc_owner h = ow \<and> h_id h = i \<and>
      h_state h \<noteq> HTLC_STATE_INVALID \<and> htlc_match i ow h \<and> (\<forall>x\<in>set xs. \<not> htlc_match i ow x))"
proof -
  obtain hs where h: "ch_htlcs c = Some hs" and ok: "\<forall>h\<in>set hs. htlc_ok c h" using inv by (rule channel_invE)
  show ?thesis
  proof (cases "htlc_get hs i ow")
    case None
    moreover have "\<forall>h\<in>set hs. htlc_match i ow h \<longleftrightarrow> htlc_ident h = (i, ow)"
      using ok htlc_ok_valid htlc_match_ident by blast
    ultimately have "\<forall>h\<in>set hs. htlc_ident h \<noteq> (i, ow)" by (auto simp: htlc_get_find find_None_iff)
    then show ?thesis using None h by (simp add: channel_get_htlc_def)
  next
    case (Some x)
    then obtain xs ys where x: "hs = xs @ x # ys" "\<forall>y\<in>set xs. \<not> htlc_match i ow y" "htlc_match i ow x"
      by (rule htlc_get_split)
    then have v: "h_state x \<noteq> HTLC_STATE_INVALID" using ok htlc_ok_valid by auto
    then have "htlc_ident x = (i, ow)" using htlc_match_ident x(3) by blast
    then show ?thesis using Some h x v by (auto simp: channel_get_htlc_def htlc_ident_def)
  qed
qed

lemma put_htlc:
  assumes "ch_htlcs c = Some (xs @ h # ys)" "\<forall>x\<in>set xs. \<not> htlc_match i ow x" "htlc_match i ow h"
  shows "ch_htlcs (channel_put_htlc c ow i h') = Some (xs @ h' # ys)"
  using assms by (simp add: channel_put_htlc_def htlc_put_split)

lemma fulfill_inv:
  assumes inv: "channel_inv base c"
  shows "\<exists>e c' hp. channel_fulfill_htlc c ow i p = Some (e, c', hp) \<and> (e = CHANNEL_ERR_REMOVE_OK \<longrightarrow> keeps_inv base c c')"
  using get_htlc_inv [OF inv, of ow i]
proof (elim disjE exE conjE)
  fix xs h ys
  assume h: "ch_htlcs c = Some (xs @ h # ys)" "channel_get_htlc c ow i = Some (Some h)" "htlc_owner h = ow" "h_id h = i"
    and m: "htlc_match i ow h" "\<forall>x\<in>set xs. \<not> htlc_match i ow x"
  let ?h = "h\<lparr>h_r := Some p\<rparr>"
  have m': "htlc_match i ow ?h" using m by (simp add: htlc_match_def htlc_has_def)
  have "keeps_inv base c (set_changes_pending (channel_put_htlc (channel_put_htlc c ow i ?h) ow i (?h\<lparr>h_state := st\<rparr>)) ow True)"
    if "sha256 p = h_rhash h" "remove_start (h_state h) = Some st" for st
    using that h(3) put_htlc [OF put_htlc [OF h(1) m(2,1), of ?h] m(2) m', of "?h\<lparr>h_state := st\<rparr>"]
    by (intro start_removal_inv [OF inv h(1), of st "Some p"]) simp_all
  then show ?thesis by (auto simp: channel_fulfill_htlc_def h(2) Let_def split: option.splits)
qed (simp add: channel_fulfill_htlc_def)

lemma fail_inv:
  assumes inv: "channel_inv base c"
  shows "\<exists>e c' hp. channel_fail_htlc c ow i = Some (e, c', hp) \<and> keeps_inv base c c'"
  using get_htlc_inv [OF inv, of ow i]
proof (elim disjE exE conjE)
  fix xs h ys
  assume h: "ch_htlcs c = Some (xs @ h # ys)" "channel_get_htlc c ow i = Some (Some h)" "htlc_owner h = ow" "h_id h = i"
    and m: "htlc_match i ow h" "\<forall>x\<in>set xs. \<not> htlc_match i ow x"
  have "keeps_inv base c (set_changes_pending (channel_put_htlc c ow i (h\<lparr>h_state := st\<rparr>)) ow True)"
    if "remove_start (h_state h) = Some st" for st
  proof -
    have "h_r h = None" using inv h(1) remove_start_stage(1) [OF that]
      by (auto simp: channel_inv_def htlc_ok_def split: option.splits)
    then have "h\<lparr>h_state := st, h_r := None\<rparr> = h\<lparr>h_state := st\<rparr>" by simp
    then show ?thesis using that h(3) put_htlc [OF h(1) m(2,1), of "h\<lparr>h_state := st\<rparr>"]
      by (intro start_removal_inv [OF inv h(1), of st None]) simp_all
  qed
  then show ?thesis using inv by (auto simp: channel_fail_htlc_def h(2) Let_def keeps_inv_def split: option.splits)
qed (use inv in \<open>simp add: channel_fail_htlc_def keeps_inv_def\<close>)

lemma fold_plus_sum: "fold (\<lambda>h b. b + f h) xs b = b + (\<Sum>h\<leftarrow>xs. f h)" for b :: "'a :: comm_monoid_add"
  by (induction xs arbitrary: b) (simp_all add: add_ac)

lemma sint_of_int_u64: "- (2 ^ 63) \<le> i \<Longrightarrow> i < 2 ^ 63 \<Longrightarrow> sint (of_int i :: u64) = i"
  by (simp add: sint_sbintrunc' signed_take_bit_int_eq_self)

text \<open>What \<open>add_htlc\<close> computes as the balance of the sender, after the removals and after the additions pending on the recipient.\<close>

lemma pending_share:
  assumes "h_state h \<noteq> HTLC_STATE_INVALID" and r_def: "r = other X"
  shows "contribution r h X +
      (if is_committed r (h_state h) \<and> is_pending r (h_state h) then balance_removing_htlc h X else 0) =
      of_int (share (1, 7, 5) X h)"
    and "of_int (share (1, 7, 5) X h) +
      (if \<not> is_committed r (h_state h) \<and> is_pending r (h_state h) then balance_adding_htlc h X else 0) =
      (of_int (share (0, 7, 5) X h) :: u64)"
  unfolding r_def
  by (cases X; cases "htlc_state_owner (h_state h)"; cases "h_r h";
      auto simp: contribution_def committed_stage [OF assms(1)] balance_adding_htlc_def balance_removing_htlc_def htlc_owner_def)+

lemma pending_balance:
  assumes "\<forall>h\<in>set hs. h_state h \<noteq> HTLC_STATE_INVALID" "owed_ok base hs c" and r_def: "r = other X"
    and b_def: "b = fold (\<lambda>h b. b + balance_removing_htlc h X)
      (filter (\<lambda>h. is_committed r (h_state h) \<and> is_pending r (h_state h)) hs) (cv_owed_msat (ch_view c r) X)"
  shows "b = of_int (balance base hs X (1, 7, 5))"
    and "fold (\<lambda>h b. b + balance_adding_htlc h X)
      (filter (\<lambda>h. \<not> is_committed r (h_state h) \<and> is_pending r (h_state h)) hs) b = of_int (balance base hs X (0, 7, 5))"
proof -
  have o: "cv_owed_msat (ch_view c r) X = base X + (\<Sum>h\<leftarrow>hs. contribution r h X)" using assms(2) by (simp add: owed_ok_def)
  show b: "b = of_int (balance base hs X (1, 7, 5))"
    using assms(1) unfolding b_def o fold_plus_sum balance_def
  proof (induction hs)
    case (Cons h hs)
    then show ?case using pending_share(1) [OF _ r_def, of h]
      by (cases "is_committed r (h_state h) \<and> is_pending r (h_state h)") (auto simp: algebra_simps simp del: share.simps)
  qed simp
  show "fold (\<lambda>h b. b + balance_adding_htlc h X)
      (filter (\<lambda>h. \<not> is_committed r (h_state h) \<and> is_pending r (h_state h)) hs) b = of_int (balance base hs X (0, 7, 5))"
    using assms(1) unfolding b fold_plus_sum balance_def
  proof (induction hs)
    case (Cons h hs)
    then show ?case using pending_share(2) [OF _ r_def, of h]
      by (cases "\<not> is_committed r (h_state h) \<and> is_pending r (h_state h)") (auto simp: algebra_simps simp del: share.simps)
  qed simp
qed

lemma share_pending_bound:
  assumes "h_state h \<noteq> HTLC_STATE_INVALID"
  shows "share (0, 7, 5) X h \<le> share (1, 7, 5) X h"
    "share (1, 7, 5) X h \<le> share (1, 8, 6) X h + (if is_committed (other X) (h_state h) then uint (h_msatoshi h) else 0)"
  by (cases X; cases "htlc_state_owner (h_state h)"; cases "h_r h";
      auto simp: committed_stage(2) [OF assms] htlc_owner_def)+

lemma balance_pending_bound:
  assumes "\<forall>h\<in>set hs. h_state h \<noteq> HTLC_STATE_INVALID"
  shows "balance base hs X (0, 7, 5) \<le> balance base hs X (1, 7, 5)"
    "balance base hs X (1, 7, 5) \<le> balance base hs X (1, 8, 6) + in_htlcs (other X) hs"
proof -
  show "balance base hs X (0, 7, 5) \<le> balance base hs X (1, 7, 5)"
    using assms share_pending_bound(1) by (auto simp: balance_def simp del: share.simps intro!: sum_list_mono)
  show "balance base hs X (1, 7, 5) \<le> balance base hs X (1, 8, 6) + in_htlcs (other X) hs"
    using assms
  proof (induction hs)
    case (Cons h hs)
    then show ?case using share_pending_bound(2) [of h X]
      by (simp add: balance_def in_htlcs_def del: share.simps split: if_splits)
  qed (simp add: balance_def in_htlcs_def)
qed

lemma pending_range:
  assumes inv: "channel_inv base c" and h: "ch_htlcs c = Some hs" and p: "params_ok base c"
  shows "0 \<le> balance base hs X (0, 7, 5)" "balance base hs X (0, 7, 5) \<le> balance base hs X (1, 7, 5)"
    "balance base hs X (1, 7, 5) < 2 ^ 63"
proof -
  have i: "\<forall>h\<in>set hs. h_state h \<noteq> HTLC_STATE_INVALID" and s: "solvent base hs"
    using inv h by (auto simp: channel_inv_def htlc_ok_valid)
  show "0 \<le> balance base hs X (0, 7, 5)" using s by (rule solventD)
  show "balance base hs X (0, 7, 5) \<le> balance base hs X (1, 7, 5)" by (rule balance_pending_bound [OF i])
  have "balance base hs X (view_cut (other X) X) + balance base hs (other X) (view_cut (other X) (other X)) +
      in_htlcs (other X) hs < 2 ^ 63"
    using balance_conservation [OF i, of base "other X"] p by (cases X) (simp_all add: params_ok_def)
  moreover have "0 \<le> balance base hs (other X) (view_cut (other X) (other X))" using s by (rule solventD)
  ultimately show "balance base hs X (1, 7, 5) < 2 ^ 63"
    using balance_pending_bound(2) [OF i, of base X] by (simp add: view_cut_def)
qed

lemma pow_numerals:
  "(2 :: int) ^ 55 = 36028797018963968" "(2 :: int) ^ 62 = 4611686018427387904" "(2 :: int) ^ 63 = 9223372036854775808"
  by simp_all

lemma sint_uint_u64: "uint x < 2 ^ 63 \<Longrightarrow> sint x = uint x" for x :: u64
proof -
  have "- (2 ^ 63) \<le> uint x" by (rule order_trans [OF _ uint_ge_0]) simp
  then show "uint x < 2 ^ 63 \<Longrightarrow> sint x = uint x" using sint_of_int_u64 [of "uint x"] by simp
qed

lemma base_fee_range:
  "0 \<le> sint (commit_tx_base_fee f n)" "uint (commit_tx_base_fee f n) < 2 ^ 55" "sint (commit_tx_base_fee f n) = uint (commit_tx_base_fee f n)"
proof -
  define w where "w = (ucast f * (724 + 172 * of_nat n) :: u64)"
  have "uint w < 2 ^ 64" using uint_bounded [of w] by simp
  then have "uint w div 1000 \<le> 2 ^ 64 div 1000" by (intro zdiv_mono1) simp_all
  then show l: "uint (commit_tx_base_fee f n) < 2 ^ 55"
    by (simp add: commit_tx_base_fee_def w_def [symmetric] uint_div)
  show e: "sint (commit_tx_base_fee f n) = uint (commit_tx_base_fee f n)"
    using l by (intro sint_uint_u64) simp
  show "0 \<le> sint (commit_tx_base_fee f n)" by (simp add: e)
qed

definition new_state :: "side \<Rightarrow> htlc_state" where
  "new_state X = (if X = LOCAL then SENT_ADD_HTLC else RCVD_ADD_HTLC)"

lemma new_state_simps [simp]:
  "htlc_state_owner (new_state X) = X" "stage (new_state X) = 0" "new_state X \<noteq> HTLC_STATE_INVALID"
  "is_pending v (new_state X) \<longleftrightarrow> v = other X" "\<not> is_committed v (new_state X)" "\<not> is_was_committed v (new_state X)"
  by (cases X; cases v; simp add: new_state_def stage_simps state_table_simps)+

text \<open>The fee \<open>add_htlc\<close> sets aside: of the funder only.\<close>

lemma total_offered_sum: "total_offered_msatoshis hs s = (\<Sum>h\<leftarrow>hs. if htlc_owner h = s then h_msatoshi h else 0)"
proof -
  have "fold (\<lambda>h total. if htlc_owner h = s then total + h_msatoshi h else total) hs k =
      k + (\<Sum>h\<leftarrow>hs. if htlc_owner h = s then h_msatoshi h else 0)" for k
    by (induction hs arbitrary: k) simp_all
  then show ?thesis by (simp add: total_offered_msatoshis_def)
qed

definition add_fee :: "'pk channel \<Rightarrow> side \<Rightarrow> htlc list \<Rightarrow> htlc list \<Rightarrow> htlc list \<Rightarrow> s64" where
  "add_fee c X committed removing adding =
     (if ch_funder c = X
      then commit_tx_base_fee (cv_feerate_per_kw (ch_view c (other X)))
             (pending_untrimmed committed removing adding (cv_feerate_per_kw (ch_view c (other X)))
               (cc_dust_limit_satoshis (ch_config c (other X))) (other X))
      else 0)"

lemma add_fee_range: "0 \<le> sint (add_fee c X cm rm ad)" "uint (add_fee c X cm rm ad) < 2 ^ 55"
    "sint (add_fee c X cm rm ad) = uint (add_fee c X cm rm ad)"
proof (atomize (full), cases "ch_funder c = X")
  case True
  then show "0 \<le> sint (add_fee c X cm rm ad) \<and> uint (add_fee c X cm rm ad) < 2 ^ 55 \<and>
      sint (add_fee c X cm rm ad) = uint (add_fee c X cm rm ad)"
    unfolding add_fee_def if_P [OF True] by (intro conjI base_fee_range)
qed (simp add: add_fee_def)

text \<open>
  The limits in integers: the assertions hold, and with the aggregate limits enforced the HTLC
  is within them exactly if the count, the value in flight and the balance are.
\<close>

lemma add_htlc_limits_exact:
  assumes inv: "channel_inv base c" and h: "ch_htlcs c = Some hs" and p: "params_ok base c"
    and n: "h_state n = new_state X" "h_r n = None" "h_msatoshi n \<le> cp_max_payment_msat (ch_chainparams c)"
    and g: "gather_htlcs c (other X) = (cm, rm, ad)"
  defines "num \<equiv> (of_nat (length cm) - of_nat (length rm) + of_nat (length (ad @ [n])) :: u64)"
    and "in_flight \<equiv> total_offered_msatoshis cm X - total_offered_msatoshis rm X + total_offered_msatoshis (ad @ [n]) X"
  shows "add_htlc_limits c n X (other X) cm rm (ad @ [n]) True = Some (
    if num > ucast (cc_max_accepted_htlcs (ch_config c (other X))) then Some CHANNEL_ERR_TOO_MANY_HTLCS
    else if in_flight > cc_max_htlc_value_in_flight_msat (ch_config c (other X)) then Some CHANNEL_ERR_MAX_HTLC_VALUE_EXCEEDED
    else if balance base (hs @ [n]) X (0, 7, 5) - uint (add_fee c X cm rm (ad @ [n])) < uint (channel_reserve_msat c X)
    then Some CHANNEL_ERR_CHANNEL_CAPACITY_EXCEEDED else None)"
proof -
  have i: "\<forall>h\<in>set hs. h_state h \<noteq> HTLC_STATE_INVALID" "owed_ok base hs c"
    using inv h by (auto simp: channel_inv_def htlc_ok_valid)
  have G: "rm = filter (\<lambda>h. is_committed (other X) (h_state h) \<and> is_pending (other X) (h_state h)) hs"
    "ad = filter (\<lambda>h. \<not> is_committed (other X) (h_state h) \<and> is_pending (other X) (h_state h)) hs"
    using g gather_htlcs_filter [OF h, of "other X"] by simp_all
  have o: "htlc_owner n = X" using n(1) by (simp add: htlc_owner_def)
  define b1 where "b1 = balance base hs X (1, 7, 5)"
  define b2 where "b2 = balance base (hs @ [n]) X (0, 7, 5)"
  define fee where "fee = add_fee c X cm rm (ad @ [n])"
  have sb: "share (0, 7, 5) X n = - uint (h_msatoshi n)" using n(1,2) o by simp
  have w: "cv_owed_msat (ch_view c (other X)) X = of_int (balance base hs X (view_cut (other X) X))"
    using i(2) balance_of_word [OF i(1), of base X "other X"] by (simp add: owed_ok_def)
  have f1: "fold (\<lambda>h b. b + balance_removing_htlc h X) rm (cv_owed_msat (ch_view c (other X)) X) = of_int b1"
    unfolding G b1_def by (rule pending_balance(1) [OF i refl refl])
  have f2: "fold (\<lambda>h b. b + balance_adding_htlc h X) (ad @ [n]) (of_int b1) = of_int b2"
    using pending_balance(2) [OF i refl refl, of X] f1 sb unfolding G b2_def
    by (simp add: balance_def balance_adding_htlc_def o)
  note r = pending_range [OF inv h p, of X] owed_balance(2,3) [OF inv h p, of X "other X"]
  have m: "uint (h_msatoshi n) < 2 ^ 62" "0 \<le> uint (h_msatoshi n)"
    using n(3) p by (auto simp: params_ok_def word_le_def)
  have b2: "b2 = balance base hs X (0, 7, 5) - uint (h_msatoshi n)" using sb by (simp add: b2_def balance_def)
  have s0: "0 \<le> sint (cv_owed_msat (ch_view c (other X)) X)" unfolding w using r(4,5) by (subst sint_of_int_u64) simp_all
  have s1: "0 \<le> sint (of_int b1 :: u64)" using r(1-3) by (subst sint_of_int_u64) (simp_all add: b1_def)
  have "of_int b2 - fee = of_int (b2 - uint fee)" by simp
  moreover have "sint (of_int (b2 - uint fee) :: u64) = b2 - uint fee"
    using r(1-3) m add_fee_range(2) [of c X cm rm "ad @ [n]", folded fee_def] uint_ge_0 [of fee] b2
    by (intro sint_of_int_u64) (simp_all only: pow_numerals)
  ultimately have s2: "sint (of_int b2 - fee) = b2 - uint fee" by simp
  have s3: "sint (channel_reserve_msat c X) = uint (channel_reserve_msat c X)"
    using p by (intro sint_uint_u64) (simp add: params_ok_def)
  have fee: "(if ch_funder c = X
       then commit_tx_base_fee (cv_feerate_per_kw (ch_view c (other X)))
              (pending_untrimmed cm rm (ad @ [n]) (cv_feerate_per_kw (ch_view c (other X)))
                (cc_dust_limit_satoshis (ch_config c (other X))) (other X))
       else 0) = fee" by (simp only: fee_def add_fee_def)
  have f0: "0 \<le> sint fee" unfolding fee_def by (rule add_fee_range)
  show ?thesis
    unfolding add_htlc_limits_def Let_def o fee f1 f2 s2 s3 num_def in_flight_def b2_def [symmetric] fee_def [symmetric]
    using s0 s1 f0 by simp
qed

lemma append_htlc_inv:
  assumes inv: "channel_inv base c" and h: "ch_htlcs c = Some hs"
    and n: "h_state n = new_state X" "h_r n = None" "htlc_ok c n" "\<forall>h\<in>set hs. htlc_ident h \<noteq> htlc_ident n"
    and b: "0 \<le> balance base (hs @ [n]) X (0, 7, 5)"
    and c': "ch_htlcs c' = Some (hs @ [n])" "same_params c c'" "ch_view c' = ch_view c"
      "ch_changes_pending c' = (ch_changes_pending c)(other X := True)"
  shows "keeps_inv base c c'"
proof -
  have i: "\<forall>x\<in>set hs. htlc_ok c x" "distinct (map htlc_ident hs)" "owed_ok base hs c" "solvent base hs"
    "flags_ok hs (ch_changes_pending c)"
    using inv h by (simp_all add: channel_inv_def)
  have ok: "htlc_ok c' x = htlc_ok c x" for x using c'(2) by (intro htlc_ok_cong) (simp_all add: same_params_def)
  have o: "htlc_owner n = X" using n(1) by (simp add: htlc_owner_def)
  have "share k Y n = 0" if "k \<in> cuts" "k \<noteq> (0, 7, 5) \<or> Y \<noteq> X" for k Y
    using that by (auto simp: cuts_def n(1,2) o split: if_splits)
  then have "0 \<le> balance base (hs @ [n]) Y k" if "k \<in> cuts" for Y k
    using that b i(4) by (cases "k = (0, 7, 5) \<and> Y = X") (auto simp: solvent_def balance_def simp del: share.simps)
  then have "solvent base (hs @ [n])" by (simp add: solvent_def)
  moreover have "owed_ok base (hs @ [n]) c'" using i(3) n(1) by (simp add: owed_ok_def c'(3) contribution_def)
  moreover have "flags_ok (hs @ [n]) (ch_changes_pending c')" using i(5) n(1) by (auto simp: flags_ok_def c'(4))
  moreover have "distinct (map htlc_ident (hs @ [n]))" using i(2) n(4) by auto
  ultimately show ?thesis
    unfolding keeps_inv_def using i(1) n(3) c'(1,2) by (auto intro!: channel_invI simp: ok)
qed

text \<open>The HTLC that \<open>add_htlc\<close> builds.\<close>

definition offered_htlc :: "side \<Rightarrow> u64 \<Rightarrow> u64 \<Rightarrow> u32 \<Rightarrow> bytes \<Rightarrow> bytes \<Rightarrow> htlc" where
  "offered_htlc X i m e ph ro =
     \<lparr>h_state = new_state X, h_id = i, h_msatoshi = m, h_expiry = e, h_rhash = ph, h_r = None,
      h_shared_secret = None, h_routing = ro, h_fail = None, h_failcode = 0, h_failed_scid = None\<rparr>"

lemma offered_htlc_simps [simp]:
  "h_state (offered_htlc X i m e ph ro) = new_state X" "h_r (offered_htlc X i m e ph ro) = None"
  "h_msatoshi (offered_htlc X i m e ph ro) = m" "htlc_owner (offered_htlc X i m e ph ro) = X"
  "h_id (offered_htlc X i m e ph ro) = i" "h_expiry (offered_htlc X i m e ph ro) = e"
  "h_rhash (offered_htlc X i m e ph ro) = ph"
  by (simp_all add: offered_htlc_def htlc_owner_def)

lemma pending_flag_new:
  "htlc_state_flags (new_state X) AND HTLC_LOCAL_F_PENDING = 0 \<longleftrightarrow> X = LOCAL"
  "htlc_state_flags (new_state X) AND HTLC_REMOTE_F_PENDING = 0 \<longleftrightarrow> X = REMOTE"
  by (cases X; simp add: new_state_def htlc_state_flags_def flag_simps)+

text \<open>The early returns of \<open>add_htlc\<close> and the limits, in the order of the code.\<close>

lemma channel_add_htlc_cases:
  assumes h: "ch_htlcs c = Some hs" and g: "gather_htlcs c (other X) = (cm, rm, ad)"
    and n_def: "n = offered_htlc X i m e ph ro"
  shows "channel_add_htlc c X i m e ph ro =
    (if SECONDS_POINT \<le> e then Some (CHANNEL_ERR_INVALID_EXPIRY, c, None)
     else case htlc_get hs i X of
       Some old \<Rightarrow> if h_state old \<noteq> new_state X \<or> h_msatoshi old \<noteq> m \<or> h_expiry old \<noteq> e \<or> h_rhash old \<noteq> ph
         then Some (CHANNEL_ERR_DUPLICATE_ID_DIFFERENT, c, None) else Some (CHANNEL_ERR_DUPLICATE, c, None)
     | None \<Rightarrow>
         if m = 0 \<or> m < cc_htlc_minimum_msat (ch_config c (other X)) then Some (CHANNEL_ERR_HTLC_BELOW_MINIMUM, c, None)
         else if m > cp_max_payment_msat (ch_chainparams c) then Some (CHANNEL_ERR_MAX_HTLC_VALUE_EXCEEDED, c, None)
         else Option.bind (add_htlc_limits c n X (other X) cm rm (ad @ [n]) True) (\<lambda>err.
           case err of Some e \<Rightarrow> Some (e, c, None)
           | None \<Rightarrow> Some (CHANNEL_ERR_ADD_OK, set_changes_pending (c\<lparr>ch_htlcs := Some (hs @ [n])\<rparr>) (other X) True, Some n)))"
proof -
  have s: "(if X = LOCAL then SENT_ADD_HTLC else RCVD_ADD_HTLC) = new_state X" by (simp add: new_state_def)
  have e: "blocks_to_abs_locktime e = (if SECONDS_POINT \<le> e then (False, e) else (True, e))"
    by (simp add: locktime_defs)
  show ?thesis
    unfolding channel_add_htlc_def add_htlc_def s Let_def n_def
    using g by (cases X; simp add: e h pending_flag_new offered_htlc_def [symmetric] cong: option.case_cong)
qed


lemma add_inv:
  assumes inv: "channel_inv base c" and p: "params_ok base c"
  shows "\<exists>e c' hp. channel_add_htlc c X i m cl ph ro = Some (e, c', hp) \<and> keeps_inv base c c' \<and>
    (e \<noteq> CHANNEL_ERR_ADD_OK \<longrightarrow> c' = c)"
proof -
  obtain hs where h: "ch_htlcs c = Some hs" and ok: "\<forall>h\<in>set hs. htlc_ok c h" using inv by (rule channel_invE)
  obtain cm rm ad where g: "gather_htlcs c (other X) = (cm, rm, ad)" by (metis prod_cases3)
  let ?n = "offered_htlc X i m cl ph ro" and ?max = "cp_max_payment_msat (ch_chainparams c)"
  let ?c = "set_changes_pending (c\<lparr>ch_htlcs := Some (hs @ [?n])\<rparr>) (other X) True"
  have k: "keeps_inv base c c" using inv by (simp add: keeps_inv_def)
  have "keeps_inv base c ?c"
    if "\<not> SECONDS_POINT \<le> cl" "htlc_get hs i X = None" "m \<noteq> 0" "\<not> m < cc_htlc_minimum_msat (ch_config c (other X))" "\<not> ?max < m"
      "\<not> balance base (hs @ [?n]) X (0, 7, 5) - uint (add_fee c X cm rm (ad @ [?n])) < uint (channel_reserve_msat c X)"
  proof (rule append_htlc_inv [OF inv h, of ?n X])
    show "htlc_ok c ?n" using that by (simp add: htlc_ok_def not_less not_le)
    have "htlc_match i X x \<longleftrightarrow> htlc_ident x = (i, X)" if "x \<in> set hs" for x
      using ok that htlc_ok_valid htlc_match_ident by blast
    then show "\<forall>h\<in>set hs. htlc_ident h \<noteq> htlc_ident ?n"
      using that(2) by (auto simp: htlc_get_find find_None_iff htlc_ident_def)
    show "0 \<le> balance base (hs @ [?n]) X (0, 7, 5)"
      using that(6) uint_ge_0 [of "add_fee c X cm rm (ad @ [?n])"] uint_ge_0 [of "channel_reserve_msat c X"] by linarith
  qed (simp_all add: same_params_def)
  moreover have "add_htlc_limits c ?n X (other X) cm rm (ad @ [?n]) True = Some (
    if (of_nat (length cm) - of_nat (length rm) + of_nat (length (ad @ [?n])) :: u64) > ucast (cc_max_accepted_htlcs (ch_config c (other X)))
    then Some CHANNEL_ERR_TOO_MANY_HTLCS
    else if total_offered_msatoshis cm X - total_offered_msatoshis rm X + total_offered_msatoshis (ad @ [?n]) X >
      cc_max_htlc_value_in_flight_msat (ch_config c (other X)) then Some CHANNEL_ERR_MAX_HTLC_VALUE_EXCEEDED
    else if balance base (hs @ [?n]) X (0, 7, 5) - uint (add_fee c X cm rm (ad @ [?n])) < uint (channel_reserve_msat c X)
    then Some CHANNEL_ERR_CHANNEL_CAPACITY_EXCEEDED else None)" if "\<not> ?max < m"
    using that by (intro add_htlc_limits_exact [OF inv h p _ _ _ g]) simp_all
  ultimately show ?thesis
    unfolding channel_add_htlc_cases [OF h g refl] using k by (simp split: option.splits)
qed

end
