(* ===== verification/ChannelProtocol.thy ===== *)
theory ChannelProtocol
  imports ChannelBalance
begin

text \<open>
  Runs of a channel: the operations of \<^verbatim>\<open>channeld/full_channel.c\<close> in any order, as a step
  relation, and what holds in every reachable state. An operation that reports an error ends
  a run, as the callers in \<^verbatim>\<open>channeld\<close> fail the channel then.
\<close>

section \<open>Operations and steps\<close>

datatype channel_op =
    Op_add side u64 u64 u32 bytes bytes
  | Op_fulfill side u64 bytes
  | Op_fail side u64
  | Op_update_feerate u32
  | Op_sending_commit
  | Op_rcvd_revoke_and_ack
  | Op_rcvd_commit
  | Op_sending_revoke_and_ack

text \<open>\<open>None\<close>: the operation aborts; otherwise whether it succeeded, and the channel.\<close>

fun run_op :: "channel_op \<Rightarrow> 'pk channel \<Rightarrow> (bool \<times> 'pk channel) option" where
  "run_op (Op_add sender hid msat expiry rhash routing) c =
     map_option (\<lambda>(e, c', _). (e = CHANNEL_ERR_ADD_OK, c')) (channel_add_htlc c sender hid msat expiry rhash routing)"
| "run_op (Op_fulfill owner hid preimage) c =
     map_option (\<lambda>(e, c', _). (e = CHANNEL_ERR_REMOVE_OK, c')) (channel_fulfill_htlc c owner hid preimage)"
| "run_op (Op_fail owner hid) c =
     map_option (\<lambda>(e, c', _). (e = CHANNEL_ERR_REMOVE_OK, c')) (channel_fail_htlc c owner hid)"
| "run_op (Op_update_feerate feerate) c = Some (channel_update_feerate c feerate)"
| "run_op Op_sending_commit c = map_option (\<lambda>(_, c', _). (True, c')) (channel_sending_commit c None)"
| "run_op Op_rcvd_revoke_and_ack c = map_option (\<lambda>(_, c', _). (True, c')) (channel_rcvd_revoke_and_ack c None)"
| "run_op Op_rcvd_commit c = map_option (\<lambda>(_, c', _). (True, c')) (channel_rcvd_commit c None)"
| "run_op Op_sending_revoke_and_ack c = map_option (\<lambda>(_, c'). (True, c')) (channel_sending_revoke_and_ack c)"

inductive channel_step :: "'pk channel \<Rightarrow> channel_op \<Rightarrow> 'pk channel \<Rightarrow> bool" where
  "run_op ev c = Some (True, c') \<Longrightarrow> channel_step c ev c'"

inductive channel_run :: "'pk channel \<Rightarrow> channel_op list \<Rightarrow> 'pk channel \<Rightarrow> bool" where
  run_start: "channel_run c [] c"
| run_step: "channel_run c evs c' \<Longrightarrow> channel_step c' ev c'' \<Longrightarrow> channel_run c (evs @ [ev]) c''"

inductive_simps channel_step_iff: "channel_step c ev c'"

text \<open>Every operation returns in a state with the invariant, and the successful ones keep it.\<close>

lemma run_op_inv:
  assumes inv: "channel_inv base c" and p: "params_ok base c"
  shows "\<exists>ok c'. run_op ev c = Some (ok, c') \<and> (ok \<longrightarrow> keeps_inv base c c')"
proof (cases ev)
  case (Op_add X i m cl ph ro)
  with add_inv [OF inv p, of X i m cl ph ro] show ?thesis by auto
next
  case (Op_fulfill ow i pre)
  with fulfill_inv [OF inv, of ow i pre] show ?thesis by auto
next
  case (Op_fail ow i)
  with fail_inv [OF inv, of ow i] show ?thesis by auto
next
  case (Op_update_feerate f)
  with update_feerate_inv [OF inv, of f] show ?thesis by (cases "channel_update_feerate c f") auto
next
  case Op_sending_commit
  with sending_commit_inv [OF inv, of None] show ?thesis by auto
next
  case Op_rcvd_revoke_and_ack
  with rcvd_revoke_and_ack_inv [OF inv, of None] show ?thesis by auto
next
  case Op_rcvd_commit
  with rcvd_commit_inv [OF inv, of None] show ?thesis by auto
next
  case Op_sending_revoke_and_ack
  with sending_revoke_and_ack_inv [OF inv] show ?thesis by auto
qed

lemma params_ok_cong: "same_params c c' \<Longrightarrow> params_ok base c' = params_ok base c"
  by (simp add: params_ok_def same_params_def channel_reserve_msat_def)

lemma same_params_trans: "same_params a b \<Longrightarrow> same_params b c \<Longrightarrow> same_params a c"
  by (simp add: same_params_def)

lemma channel_run_inv:
  assumes "channel_run c0 evs c" "channel_inv base c0" "params_ok base c0"
  shows "channel_inv base c" "params_ok base c" "same_params c0 c"
proof -
  have "channel_inv base c \<and> same_params c0 c"
    using assms
  proof induction
    case (run_step c evs c' ev c'')
    then have i: "channel_inv base c'" "same_params c c'" by simp_all
    then have "params_ok base c'" using run_step.prems params_ok_cong by blast
    from run_op_inv [OF i(1) this, of ev] run_step.hyps(2) i(2) show ?case
      by (auto simp: channel_step_iff keeps_inv_def intro: same_params_trans)
  qed simp
  then show "channel_inv base c" "params_ok base c" "same_params c0 c" using assms(3) params_ok_cong by blast+
qed

section \<open>A fresh channel\<close>

text \<open>The balances at the opening, which the invariant refers to.\<close>

definition opening_msat :: "u64 \<Rightarrow> u64 \<Rightarrow> side \<Rightarrow> u64" where
  "opening_msat funding_satoshis local_msatoshi = both local_msatoshi (funding_satoshis * 1000 - local_msatoshi)"

lemma networks_max_payment: "n \<in> set networks \<Longrightarrow> uint (cp_max_payment_msat n) < 2 ^ 62"
  by (auto simp: networks_def)

text \<open>
  The bounds under which a channel is opened: \<^verbatim>\<open>openingd\<close> bounds the funding by the chain
  parameters and the reserves by the funding.
\<close>

definition sane_opening :: "u64 \<Rightarrow> channel_config \<Rightarrow> channel_config \<Rightarrow> bool" where
  "sane_opening funding_satoshis local remote \<longleftrightarrow>
     uint funding_satoshis * 1000 < 2 ^ 63 \<and> uint (cc_channel_reserve_satoshis local) * 1000 < 2 ^ 63 \<and>
     uint (cc_channel_reserve_satoshis remote) * 1000 < 2 ^ 63"

lemma uint_mult_1000: "uint x * 1000 < 2 ^ 63 \<Longrightarrow> uint (x * 1000) = uint x * 1000" for x :: u64
  by (simp add: uint_word_ariths)

lemma new_full_channel_inv:
  assumes c: "new_full_channel S chain_hash txid txout sat local_msat feerates local remote lb rb lk rk funder = Some c"
    and s: "sane_opening sat local remote"
  shows "channel_inv (opening_msat sat local_msat) c" "params_ok (opening_msat sat local_msat) c"
    "ch_funding_msat c = sat * 1000" "ch_htlcs c = Some []"
proof -
  let ?base = "opening_msat sat local_msat"
  from c obtain n where n: "chainparams_by_chainhash chain_hash = Some n" and l: "local_msat \<le> sat * 1000"
    and f: "ch_funding_msat c = sat * 1000" "ch_config c = both local remote" "ch_chainparams c = n" "ch_htlcs c = Some []"
      "\<And>v X. cv_owed_msat (ch_view c v) X = ?base X" "ch_changes_pending c = both False False"
    by (auto simp: new_full_channel_def new_initial_channel_def Let_def opening_msat_def both_def not_less
        split: if_splits option.splits side.splits)
  show "ch_funding_msat c = sat * 1000" "ch_htlcs c = Some []" by (rule f)+
  have nn: "n \<in> set networks" using n by (auto simp: chainparams_by_chainhash_def find_Some_iff)
  have b: "uint (?base LOCAL) + uint (?base REMOTE) = uint (sat * 1000)"
    using l by (simp add: opening_msat_def uint_minus_simple_alt [THEN iffD1])
  have r: "uint (channel_reserve_msat c X) < 2 ^ 63" for X
    using s uint_mult_1000 [of "cc_channel_reserve_satoshis local"] uint_mult_1000 [of "cc_channel_reserve_satoshis remote"]
    by (cases X) (simp_all add: channel_reserve_msat_def f(2) sane_opening_def)
  show "params_ok ?base c"
    using b r networks_max_payment [OF nn] s uint_mult_1000 [of sat]
    by (simp add: params_ok_def f(1,3) sane_opening_def)
  show "channel_inv ?base c"
    by (rule channel_invI [OF f(4)]) (simp_all add: owed_ok_def f(5) solvent_def balance_def flags_ok_def)
qed

section \<open>Settling\<close>

lemma new_full_channel_fields:
  assumes "new_full_channel S chain_hash txid txout sat local_msat feerates local remote lb rb lk rk funder = Some c"
  shows "ch_funding_txid c = txid" "ch_funding_txout c = txout" "ch_funding_msat c = sat * 1000" "ch_funder c = funder"
    "ch_funding_pubkey c = both lk rk" "ch_config c = both local remote" "ch_basepoints c = both lb rb"
    "ch_commitment_number_obscurer c =
       commit_number_obscurer S (bp_payment (both lb rb funder)) (bp_payment (both lb rb (other funder)))"
    "Some (ch_chainparams c) = chainparams_by_chainhash chain_hash" "ch_htlcs c = Some []" "ch_changes_pending c = both False False"
    "cv_feerate_per_kw (ch_view c s) = feerates s" "cv_owed_msat (ch_view c s) = both local_msat (sat * 1000 - local_msat)"
  using assms by (cases s; auto simp: new_full_channel_def new_initial_channel_def Let_def split: if_splits option.splits)+

text \<open>One round of the protocol: both commitments are signed and both old ones revoked.\<close>

definition commitment_round :: "channel_op list" where
  "commitment_round = [Op_sending_commit, Op_rcvd_revoke_and_ack, Op_rcvd_commit, Op_sending_revoke_and_ack]"

definition settled :: "htlc \<Rightarrow> bool" where
  "settled h \<longleftrightarrow> h_state h = SENT_ADD_ACK_REVOCATION \<or> h_state h = RCVD_ADD_ACK_REVOCATION \<or> htlc_is_dead h"

lemma settled_stage: "h_state h \<noteq> HTLC_STATE_INVALID \<Longrightarrow> settled h \<longleftrightarrow> stage (h_state h) = 4 \<or> stage (h_state h) = 9"
  by (cases "h_state h") (simp_all add: settled_def htlc_is_dead_def stage_simps)

fun op_states :: "channel_op \<Rightarrow> htlc_state list" where
  "op_states Op_sending_commit = sending_commit_states"
| "op_states Op_rcvd_revoke_and_ack = rcvd_revoke_and_ack_states"
| "op_states Op_rcvd_commit = rcvd_commit_states"
| "op_states Op_sending_revoke_and_ack = sending_revoke_and_ack_states"
| "op_states _ = []"

text \<open>The effect of the four steps on the HTLCs.\<close>

lemma run_op_advance:
  assumes ev: "ev \<in> set commitment_round" and c: "run_op ev c = Some (ok, c')" and h: "ch_htlcs c = Some hs"
  shows "ch_htlcs c' = Some (map (advance (op_states ev)) hs)"
  using assms
  by (auto simp: commitment_round_def channel_sending_commit_def channel_rcvd_commit_def channel_rcvd_revoke_and_ack_def
      channel_sending_revoke_and_ack_def Let_def sending.change_htlcs_advance [OF h] rcvd.change_htlcs_advance [OF h]
      revoked.change_htlcs_advance [OF h] revoking.change_htlcs_advance [OF h] split: if_splits)

lemma channel_run_Cons: "channel_step c ev c' \<Longrightarrow> channel_run c' evs c'' \<Longrightarrow> channel_run c (ev # evs) c''"
proof (rotate_tac, induction rule: channel_run.induct)
  case (run_start c')
  then show ?case using channel_run.run_step [OF channel_run.run_start, of c ev c'] by simp
next
  case (run_step c1 evs c2 ev2 c3)
  then show ?case using channel_run.run_step [of c "ev # evs" c2 ev2 c3] by simp
qed

lemma protocol_run:
  assumes "set evs \<subseteq> set commitment_round" "channel_inv base c" "params_ok base c" "ch_htlcs c = Some hs"
  shows "\<exists>c'. channel_run c evs c' \<and> ch_htlcs c' = Some (map (fold (\<lambda>ev. advance (op_states ev)) evs) hs)"
  using assms
proof (induction evs arbitrary: c hs)
  case Nil
  then show ?case by (auto intro: run_start)
next
  case (Cons ev evs)
  obtain ok c1 where c1: "run_op ev c = Some (ok, c1)" "ok \<Longrightarrow> keeps_inv base c c1"
    using run_op_inv [OF Cons.prems(2,3)] by blast
  have ok: "ok" using Cons.prems(1) c1(1) by (auto simp: commitment_round_def)
  then have i: "channel_inv base c1" "params_ok base c1"
    using c1(2) Cons.prems(3) params_ok_cong by (auto simp: keeps_inv_def)
  have h: "ch_htlcs c1 = Some (map (advance (op_states ev)) hs)"
    using Cons.prems(1) by (intro run_op_advance [OF _ c1(1) Cons.prems(4)]) simp
  obtain c' where c': "channel_run c1 evs c'"
    "ch_htlcs c' = Some (map (fold (\<lambda>ev. advance (op_states ev)) evs) (map (advance (op_states ev)) hs))"
    using Cons.IH [OF _ i h] Cons.prems(1) by auto
  have "channel_step c ev c1" using c1(1) ok by (simp add: channel_step_iff)
  from channel_run_Cons [OF this c'(1)] c'(2) show ?case by (auto simp: o_def)
qed

lemma two_rounds_state:
  "h_state h \<noteq> HTLC_STATE_INVALID \<Longrightarrow>
     settled (fold (\<lambda>ev. advance (op_states ev)) (commitment_round @ commitment_round) h)"
  by (cases "h_state h") (simp_all add: commitment_round_def advance_def sending_commit_states_def rcvd_commit_states_def
      rcvd_revoke_and_ack_states_def sending_revoke_and_ack_states_def settled_def htlc_is_dead_def)

lemma settled_views:
  assumes "channel_inv base c" "ch_htlcs c = Some hs" "\<forall>h\<in>set hs. settled h"
  shows "cv_owed_msat (ch_view c LOCAL) X = cv_owed_msat (ch_view c REMOTE) X"
proof -
  have i: "\<forall>h\<in>set hs. h_state h \<noteq> HTLC_STATE_INVALID" "owed_ok base hs c"
    using assms(1,2) by (auto simp: channel_inv_def htlc_ok_valid)
  have "contribution LOCAL h X = contribution REMOTE h X" if "h \<in> set hs" for h
    using that i(1) assms(3) settled_stage [of h] committed_stage(1,2) [of "h_state h"]
    by (auto simp: contribution_def)
  then have "(\<Sum>h\<leftarrow>hs. contribution LOCAL h X) = (\<Sum>h\<leftarrow>hs. contribution REMOTE h X)"
    by (intro arg_cong [where f = sum_list]) simp
  then show ?thesis using i(2) by (simp add: owed_ok_def)
qed

section \<open>A sample run\<close>

definition sample_config :: channel_config where
  "sample_config = \<lparr>cc_id = 1, cc_dust_limit_satoshis = 546, cc_max_htlc_value_in_flight_msat = 100000000,
     cc_channel_reserve_satoshis = 1000, cc_htlc_minimum_msat = 1, cc_to_self_delay = 6, cc_max_accepted_htlcs = 30\<rparr>"

definition sample_points :: "u8 \<Rightarrow> u8 basepoints" where
  "sample_points k = \<lparr>bp_revocation = k, bp_payment = k + 1, bp_htlc = k + 2, bp_delayed_payment = k + 3\<rparr>"

definition sample_open :: "u8 channel option" where
  "sample_open = new_full_channel byte_secp (cp_genesis_blockhash (hd networks)) (replicate 32 1) 0 100000 60000000
     (both 253 253) sample_config sample_config (sample_points 10) (sample_points 20) 1 2 LOCAL"

definition sample_offer :: channel_op where
  "sample_offer = Op_add LOCAL 7 10000000 500 (replicate 32 9) []"

lemma sample_opened:
  obtains c where "sample_open = Some c" "ch_config c = both sample_config sample_config" "ch_funder c = LOCAL"
    "ch_funding_msat c = 100000000" "ch_chainparams c = hd networks"
    "cv_feerate_per_kw (ch_view c REMOTE) = 253" "cv_feerate_per_kw (ch_view c LOCAL) = 253"
proof -
  have "chainparams_by_chainhash (cp_genesis_blockhash (hd networks)) = Some (hd networks)"
    by (simp add: chainparams_by_chainhash_def networks_def)
  then show thesis using that
    by (auto simp: sample_open_def new_full_channel_def new_initial_channel_def Let_def UINT64_MAX_def)
qed

lemma sample_sane: "sane_opening 100000 sample_config sample_config"
  by (simp add: sane_opening_def sample_config_def)

lemma sample_run:
  assumes "sample_open = Some c0"
  shows "\<exists>c. channel_run c0 [sample_offer] c \<and>
    ch_htlcs c = Some [offered_htlc LOCAL 7 10000000 500 (replicate 32 9) []] \<and> ch_funder c = LOCAL"
proof -
  obtain c1 where c: "sample_open = Some c1" "ch_config c1 = both sample_config sample_config" "ch_funder c1 = LOCAL"
    "ch_funding_msat c1 = 100000000" "ch_chainparams c1 = hd networks" "cv_feerate_per_kw (ch_view c1 REMOTE) = 253"
    by (rule sample_opened)
  have e: "c1 = c0" by (rule option.inject [THEN iffD1, OF trans [OF c(1) [symmetric] assms]])
  note c = c [unfolded e]
  let ?n = "offered_htlc LOCAL 7 10000000 500 (replicate 32 9) []"
  note i = new_full_channel_inv [OF assms [unfolded sample_open_def] sample_sane]
  have g: "gather_htlcs c0 (other LOCAL) = ([], [], [])" using gather_htlcs_filter [OF i(4), of REMOTE] by simp
  have m: "cp_max_payment_msat (hd networks) = 0xFFFFFFFF" by (simp add: networks_def)
  have u: "uint (add_fee c0 LOCAL [] [] [?n]) < 2 ^ 55" by (rule add_fee_range)
  have f: "add_fee c0 LOCAL [] [] [?n] = commit_tx_base_fee 253 (pending_untrimmed [] [] [?n] 253 546 REMOTE)"
    by (simp add: add_fee_def c sample_config_def)
  have t: "commit_tx_num_untrimmed [?n] 253 546 REMOTE = 1" by code_simp
  have "add_fee c0 LOCAL [] [] [?n] = 226"
    unfolding f pending_untrimmed_def t by code_simp
  moreover have "balance (opening_msat 100000 60000000) ([] @ [?n]) LOCAL (0, 7, 5) = 50000000"
    by (simp add: balance_def opening_msat_def)
  moreover have "channel_reserve_msat c0 LOCAL = 1000000" by (simp add: channel_reserve_msat_def c sample_config_def)
  ultimately have "add_htlc_limits c0 ?n LOCAL (other LOCAL) [] [] ([] @ [?n]) True = Some None"
    using add_htlc_limits_exact [OF i(1,4,2) _ _ _ g, of ?n]
    by (simp add: c m sample_config_def total_offered_msatoshis_def)
  then have "channel_add_htlc c0 LOCAL 7 10000000 500 (replicate 32 9) [] =
      Some (CHANNEL_ERR_ADD_OK, set_changes_pending (c0\<lparr>ch_htlcs := Some [?n]\<rparr>) REMOTE True, Some ?n)"
    unfolding channel_add_htlc_cases [OF i(4) g refl]
    by (simp add: SECONDS_POINT_def c m sample_config_def htlc_get_find)
  then have "channel_step c0 sample_offer (set_changes_pending (c0\<lparr>ch_htlcs := Some [?n]\<rparr>) REMOTE True)"
    by (simp add: channel_step_iff sample_offer_def)
  from run_step [OF run_start this] show ?thesis by (auto simp: c(3))
qed

lemma settled_balance:
  assumes "\<forall>h\<in>set hs. h_state h \<noteq> HTLC_STATE_INVALID" "\<forall>h\<in>set hs. settled h"
  shows "balance base hs X (view_cut v X) = uint (base X)
       - (\<Sum>h \<leftarrow> filter (\<lambda>h. htlc_owner h = X \<and> (\<not> htlc_is_dead h \<or> h_r h \<noteq> None)) hs. uint (h_msatoshi h))
       + (\<Sum>h \<leftarrow> filter (\<lambda>h. htlc_owner h \<noteq> X \<and> htlc_is_dead h \<and> h_r h \<noteq> None) hs. uint (h_msatoshi h))"
  using assms
proof (induction hs)
  case (Cons h hs)
  have "htlc_is_dead h \<longleftrightarrow> stage (h_state h) = 9"
    using Cons.prems(1) by (cases "h_state h") (simp_all add: htlc_is_dead_def stage_simps)
  moreover have "stage (h_state h) = 4 \<or> stage (h_state h) = 9" using Cons.prems settled_stage [of h] by simp
  ultimately have "share (view_cut v X) X h =
      (if htlc_owner h = X \<and> (\<not> htlc_is_dead h \<or> h_r h \<noteq> None) then - uint (h_msatoshi h)
       else if htlc_owner h \<noteq> X \<and> htlc_is_dead h \<and> h_r h \<noteq> None then uint (h_msatoshi h) else 0)"
    by (auto simp: view_cut_def)
  then show ?case using Cons by (auto simp: balance_def simp del: share.simps)
qed (simp add: balance_def)

section \<open>Properties\<close>

text \<open>
  C1: however the operations are interleaved, in both commitments the two balances and the HTLCs
  add up to exactly the funding amount. The sums are over integers, so no 64-bit balance
  ever wraps: what a side owns never becomes negative.
\<close>

theorem funds_conserved:
  assumes "new_full_channel S chain_hash txid txout sat local_msat feerates local remote lb rb lk rk funder = Some c0"
    and "sane_opening sat local remote" and "channel_run c0 evs c"
  shows "\<exists>hs. ch_htlcs c = Some hs \<and>
    uint (cv_owed_msat (ch_view c v) LOCAL) + uint (cv_owed_msat (ch_view c v) REMOTE) +
      (\<Sum>h \<leftarrow> filter (\<lambda>h. htlc_has h (HTLC_FLAG v HTLC_F_COMMITTED)) hs. uint (h_msatoshi h)) = uint sat * 1000"
proof -
  note i = new_full_channel_inv [OF assms(1,2)]
  note r = channel_run_inv [OF assms(3) i(1,2)]
  obtain hs where h: "ch_htlcs c = Some hs" and ok: "\<forall>h\<in>set hs. htlc_ok c h" using r(1) by (rule channel_invE)
  then have v: "\<forall>h\<in>set hs. h_state h \<noteq> HTLC_STATE_INVALID" using htlc_ok_valid by blast
  have f: "uint (ch_funding_msat c) = uint sat * 1000"
    using r(3) i(3) assms(2) uint_mult_1000 [of sat] by (simp add: same_params_def sane_opening_def)
  have "uint (cv_owed_msat (ch_view c v) LOCAL) + uint (cv_owed_msat (ch_view c v) REMOTE) + in_htlcs v hs = uint sat * 1000"
    using balance_conservation [OF v, of "opening_msat sat local_msat" v] r(2) f
    by (simp add: owed_balance(1) [OF r(1) h r(2)] params_ok_def)
  then show ?thesis using h by (simp add: in_htlcs_def htlc_has_is)
qed

theorem funds_conserved_witness:
  "\<exists>c0 c hs. sample_open = Some c0 \<and> channel_run c0 [sample_offer] c \<and> ch_htlcs c = Some hs \<and> hs \<noteq> [] \<and>
    uint (cv_owed_msat (ch_view c REMOTE) LOCAL) + uint (cv_owed_msat (ch_view c REMOTE) REMOTE) +
      (\<Sum>h \<leftarrow> filter (\<lambda>h. htlc_has h (HTLC_FLAG REMOTE HTLC_F_COMMITTED)) hs. uint (h_msatoshi h)) = 100000000"
proof -
  obtain c0 where c0: "sample_open = Some c0" by (rule sample_opened)
  obtain c where c: "channel_run c0 [sample_offer] c" "ch_htlcs c = Some [offered_htlc LOCAL 7 10000000 500 (replicate 32 9) []]"
    using sample_run [OF c0] by blast
  obtain hs where hs: "ch_htlcs c = Some hs" "uint (cv_owed_msat (ch_view c REMOTE) LOCAL) +
      uint (cv_owed_msat (ch_view c REMOTE) REMOTE) +
      (\<Sum>h \<leftarrow> filter (\<lambda>h. htlc_has h (HTLC_FLAG REMOTE HTLC_F_COMMITTED)) hs. uint (h_msatoshi h)) = uint (100000 :: u64) * 1000"
    using funds_conserved [OF c0 [unfolded sample_open_def] sample_sane c(1), of REMOTE] by blast
  have "hs \<noteq> []" using hs(1) c(2) by auto
  moreover have "uint (100000 :: u64) * 1000 = 100000000" by simp
  ultimately show ?thesis using c0 c(1) hs by (intro exI [of _ c0] exI [of _ c] exI [of _ hs]) simp
qed

text \<open>
  C2: no assertion of the channel code can fail: in every state a run reaches, every operation
  with any arguments returns.
\<close>

theorem operations_return:
  assumes "new_full_channel S chain_hash txid txout sat local_msat feerates local remote lb rb lk rk funder = Some c0"
    and "sane_opening sat local remote" and "channel_run c0 evs c"
  shows "\<exists>ok c'. run_op ev c = Some (ok, c')"
  using run_op_inv [OF channel_run_inv(1,2) [OF assms(3) new_full_channel_inv(1,2) [OF assms(1,2)]]] by blast

theorem operations_return_witness:
  "\<exists>c0 c ok c'. sample_open = Some c0 \<and> channel_run c0 [sample_offer] c \<and> run_op sample_offer c = Some (ok, c')"
proof -
  obtain c0 where c0: "sample_open = Some c0" by (rule sample_opened)
  obtain c where c: "channel_run c0 [sample_offer] c" using sample_run [OF c0] by blast
  from operations_return [OF c0 [unfolded sample_open_def] sample_sane c, of sample_offer] c0 c show ?thesis by blast
qed

text \<open>
  C10: every HTLC of a reachable channel keeps the limits it was accepted under, no two HTLCs of
  one owner share an id, and an HTLC has a preimage only while it is being removed, and then
  the one its hash asks for.
\<close>

theorem htlcs_well_formed:
  assumes "new_full_channel S chain_hash txid txout sat local_msat feerates local remote lb rb lk rk funder = Some c0"
    and "sane_opening sat local remote" and "channel_run c0 evs c" and "ch_htlcs c = Some hs"
  shows "distinct (map (\<lambda>h. (h_id h, htlc_owner h)) hs) \<and>
    (\<forall>h\<in>set hs. h_state h \<noteq> HTLC_STATE_INVALID \<and> h_msatoshi h \<noteq> 0 \<and>
       cc_htlc_minimum_msat (both local remote (other (htlc_owner h))) \<le> h_msatoshi h \<and>
       h_msatoshi h \<le> cp_max_payment_msat (ch_chainparams c) \<and> h_expiry h < SECONDS_POINT \<and>
       (\<forall>r. h_r h = Some r \<longrightarrow> sha256 r = h_rhash h \<and> (htlc_has h HTLC_REMOVING \<or> htlc_is_dead h)))"
proof -
  note i = new_full_channel_inv [OF assms(1,2)]
  note r = channel_run_inv [OF assms(3) i(1,2)]
  have "ch_config c0 = both local remote"
    using assms(1) by (auto simp: new_full_channel_def new_initial_channel_def Let_def split: if_splits option.splits)
  then have f: "ch_config c = both local remote" using r(3) by (simp add: same_params_def)
  have s: "5 \<le> stage (h_state h) \<Longrightarrow> htlc_has h HTLC_REMOVING \<or> htlc_is_dead h" for h
    by (cases "h_state h") (simp_all add: stage_simps htlc_has_def htlc_is_dead_def htlc_state_flags_def flag_simps)
  have k: "h_state h \<noteq> HTLC_STATE_INVALID \<and> h_msatoshi h \<noteq> 0 \<and>
       cc_htlc_minimum_msat (both local remote (other (htlc_owner h))) \<le> h_msatoshi h \<and>
       h_msatoshi h \<le> cp_max_payment_msat (ch_chainparams c) \<and> h_expiry h < SECONDS_POINT \<and>
       (\<forall>r. h_r h = Some r \<longrightarrow> sha256 r = h_rhash h \<and> (htlc_has h HTLC_REMOVING \<or> htlc_is_dead h))"
    if "htlc_ok c h" for h using that s [of h] by (cases "h_r h") (simp_all add: htlc_ok_def f)
  have "htlc_ident = (\<lambda>h. (h_id h, htlc_owner h))" by (rule ext) (simp add: htlc_ident_def)
  with k show ?thesis using r(1) assms(4) by (simp add: channel_inv_def)
qed

theorem htlcs_well_formed_witness:
  "\<exists>c0 c. sample_open = Some c0 \<and> channel_run c0 [sample_offer] c \<and>
    (\<exists>hs. ch_htlcs c = Some hs \<and> length hs = 1 \<and> distinct (map (\<lambda>h. (h_id h, htlc_owner h)) hs) \<and>
     (\<forall>h\<in>set hs. h_msatoshi h \<le> cp_max_payment_msat (ch_chainparams c)))"
proof -
  obtain c0 where c0: "sample_open = Some c0" by (rule sample_opened)
  obtain c where c: "channel_run c0 [sample_offer] c" "ch_htlcs c = Some [offered_htlc LOCAL 7 10000000 500 (replicate 32 9) []]"
    using sample_run [OF c0] by blast
  have "length [offered_htlc LOCAL 7 10000000 500 (replicate 32 9) []] = 1" by simp
  with htlcs_well_formed [OF c0 [unfolded sample_open_def] sample_sane c] c0 c show ?thesis by blast
qed

text \<open>
  C6: two rounds of the commitment protocol settle a channel from any state a run reaches:
  every HTLC is then irrevocably committed or gone, both commitments agree on the balances,
  and the balance of a side is its opening balance, less the HTLCs it offered that are
  committed or were fulfilled, plus the HTLCs of the peer that were fulfilled.
\<close>

theorem two_rounds_settle:
  assumes "new_full_channel S chain_hash txid txout sat local_msat feerates local remote lb rb lk rk funder = Some c0"
    and "sane_opening sat local remote" and "channel_run c0 evs c"
  shows "\<exists>c' hs. channel_run c (commitment_round @ commitment_round) c' \<and> ch_htlcs c' = Some hs \<and>
    (\<forall>h\<in>set hs. settled h) \<and>
    (\<forall>v X. uint (cv_owed_msat (ch_view c' v) X) = uint (opening_msat sat local_msat X)
       - (\<Sum>h \<leftarrow> filter (\<lambda>h. htlc_owner h = X \<and> (\<not> htlc_is_dead h \<or> h_r h \<noteq> None)) hs. uint (h_msatoshi h))
       + (\<Sum>h \<leftarrow> filter (\<lambda>h. htlc_owner h \<noteq> X \<and> htlc_is_dead h \<and> h_r h \<noteq> None) hs. uint (h_msatoshi h)))"
proof -
  let ?base = "opening_msat sat local_msat"
  note r = channel_run_inv [OF assms(3) new_full_channel_inv(1,2) [OF assms(1,2)]]
  obtain hs where h: "ch_htlcs c = Some hs" and ok: "\<forall>h\<in>set hs. htlc_ok c h" using r(1) by (rule channel_invE)
  obtain c' where c': "channel_run c (commitment_round @ commitment_round) c'"
    "ch_htlcs c' = Some (map (fold (\<lambda>ev. advance (op_states ev)) (commitment_round @ commitment_round)) hs)" (is "_ = Some ?hs")
    using protocol_run [OF _ r(1,2) h, of "commitment_round @ commitment_round"] by auto
  have s: "\<forall>h\<in>set ?hs. settled h" using ok two_rounds_state by (auto dest: htlc_ok_valid simp del: fold_append)
  note r' = channel_run_inv(1,2) [OF c'(1) r(1,2)]
  have ok': "\<forall>h\<in>set ?hs. h_state h \<noteq> HTLC_STATE_INVALID"
    using r'(1) c'(2) by (auto simp: channel_inv_def dest: htlc_ok_valid)
  show ?thesis
    using c' s owed_balance(1) [OF r'(1) c'(2) r'(2)] settled_balance [OF ok' s, of ?base]
    by (intro exI [of _ c'] exI [of _ ?hs]) simp
qed

theorem two_rounds_settle_witness:
  "\<exists>c0 c c' hs. sample_open = Some c0 \<and> channel_run c0 [sample_offer] c \<and>
    channel_run c (commitment_round @ commitment_round) c' \<and> ch_htlcs c' = Some hs \<and> (\<forall>h\<in>set hs. settled h)"
proof -
  obtain c0 where c0: "sample_open = Some c0" by (rule sample_opened)
  obtain c where c: "channel_run c0 [sample_offer] c" using sample_run [OF c0] by blast
  from two_rounds_settle [OF c0 [unfolded sample_open_def] sample_sane c] c0 c show ?thesis by blast
qed

end
