(* ===== verification/ChannelPeers.thy ===== *)
theory ChannelPeers
  imports ChannelProtocol
begin

text \<open>
  The two ends of one channel. Each peer runs the same code with the roles exchanged: what is
  \<open>LOCAL\<close> for one is \<open>REMOTE\<close> for the other, an HTLC is in the state that \<open>dump_htlc\<close>
  prints as the remote one, and when one peer sends a message the other receives it. The
  order of the HTLCs in their hash tables may differ.

  The lemmas show that the relation \<open>agree\<close> between the two ends is kept by every message
  that both have processed, errors included, and that both ends then build the same
  commitment transaction.
\<close>

section \<open>Mirrored HTLCs\<close>

definition mirror_htlc :: "htlc \<Rightarrow> htlc" where
  "mirror_htlc h = h\<lparr>h_state := dump_remote_state (h_state h)\<rparr>"

lemmas mirror_state_simps = dump_remote_state_def htlc_state_enum_def

lemma mirror_state_eval:
  "dump_remote_state SENT_ADD_HTLC = RCVD_ADD_HTLC" "dump_remote_state SENT_ADD_COMMIT = RCVD_ADD_COMMIT"
  "dump_remote_state RCVD_ADD_REVOCATION = SENT_ADD_REVOCATION" "dump_remote_state RCVD_ADD_ACK_COMMIT = SENT_ADD_ACK_COMMIT"
  "dump_remote_state SENT_ADD_ACK_REVOCATION = RCVD_ADD_ACK_REVOCATION" "dump_remote_state RCVD_REMOVE_HTLC = SENT_REMOVE_HTLC"
  "dump_remote_state RCVD_REMOVE_COMMIT = SENT_REMOVE_COMMIT" "dump_remote_state SENT_REMOVE_REVOCATION = RCVD_REMOVE_REVOCATION"
  "dump_remote_state SENT_REMOVE_ACK_COMMIT = RCVD_REMOVE_ACK_COMMIT"
  "dump_remote_state RCVD_REMOVE_ACK_REVOCATION = SENT_REMOVE_ACK_REVOCATION"
  "dump_remote_state RCVD_ADD_HTLC = SENT_ADD_HTLC" "dump_remote_state RCVD_ADD_COMMIT = SENT_ADD_COMMIT"
  "dump_remote_state SENT_ADD_REVOCATION = RCVD_ADD_REVOCATION" "dump_remote_state SENT_ADD_ACK_COMMIT = RCVD_ADD_ACK_COMMIT"
  "dump_remote_state RCVD_ADD_ACK_REVOCATION = SENT_ADD_ACK_REVOCATION" "dump_remote_state SENT_REMOVE_HTLC = RCVD_REMOVE_HTLC"
  "dump_remote_state SENT_REMOVE_COMMIT = RCVD_REMOVE_COMMIT" "dump_remote_state RCVD_REMOVE_REVOCATION = SENT_REMOVE_REVOCATION"
  "dump_remote_state RCVD_REMOVE_ACK_COMMIT = SENT_REMOVE_ACK_COMMIT"
  "dump_remote_state SENT_REMOVE_ACK_REVOCATION = RCVD_REMOVE_ACK_REVOCATION"
  by (simp_all add: mirror_state_simps)

lemma mirror_state:
  assumes "s \<noteq> HTLC_STATE_INVALID"
  shows "dump_remote_state s \<noteq> HTLC_STATE_INVALID" "dump_remote_state (dump_remote_state s) = s"
    "htlc_state_owner (dump_remote_state s) = other (htlc_state_owner s)" "stage (dump_remote_state s) = stage s"
  using assms by (cases s; simp add: mirror_state_eval stage_simps)+

lemma mirror_flags:
  assumes "s \<noteq> HTLC_STATE_INVALID"
  shows "is_pending v (dump_remote_state s) = is_pending (other v) s"
    "is_committed v (dump_remote_state s) = is_committed (other v) s"
    "is_was_committed v (dump_remote_state s) = is_was_committed (other v) s"
  using committed_stage [OF assms, of "other v"] committed_stage [OF mirror_state(1) [OF assms], of v] mirror_state [OF assms]
  by (cases v; cases "htlc_state_owner s"; simp)+

lemma mirror_htlc_simps [simp]:
  "h_id (mirror_htlc h) = h_id h" "h_msatoshi (mirror_htlc h) = h_msatoshi h" "h_expiry (mirror_htlc h) = h_expiry h"
  "h_rhash (mirror_htlc h) = h_rhash h" "h_r (mirror_htlc h) = h_r h" "h_state (mirror_htlc h) = dump_remote_state (h_state h)"
  by (simp_all add: mirror_htlc_def)

lemma mirror_owner: "h_state h \<noteq> HTLC_STATE_INVALID \<Longrightarrow> htlc_owner (mirror_htlc h) = other (htlc_owner h)"
  by (simp add: htlc_owner_def mirror_state)

lemma other_eq_iff [simp]: "other a = other b \<longleftrightarrow> a = b"
  by (cases a; cases b) simp_all

lemma other_eq_swap: "other a = b \<longleftrightarrow> a = other b"
  by (cases a; cases b) simp_all

lemma balance_mirror:
  assumes "h_state h \<noteq> HTLC_STATE_INVALID"
  shows "balance_adding_htlc (mirror_htlc h) X = balance_adding_htlc h (other X)"
    "balance_removing_htlc (mirror_htlc h) X = balance_removing_htlc h (other X)"
  using mirror_owner [OF assms] by (auto simp: balance_adding_htlc_def balance_removing_htlc_def other_eq_swap Let_def)

lemma contribution_mirror:
  "h_state h \<noteq> HTLC_STATE_INVALID \<Longrightarrow> contribution v (mirror_htlc h) X = contribution (other v) h (other X)"
  by (simp add: contribution_def mirror_flags balance_mirror)

lemma share_mirror:
  "h_state h \<noteq> HTLC_STATE_INVALID \<Longrightarrow> share k X (mirror_htlc h) = share k (other X) h"
  by (cases k; cases "h_r h") (simp_all add: mirror_owner mirror_state other_eq_swap)

lemma advance_mirror:
  assumes "h_state h \<noteq> HTLC_STATE_INVALID"
  shows "advance rcvd_commit_states (mirror_htlc h) = mirror_htlc (advance sending_commit_states h)"
    "advance sending_commit_states (mirror_htlc h) = mirror_htlc (advance rcvd_commit_states h)"
    "advance sending_revoke_and_ack_states (mirror_htlc h) = mirror_htlc (advance rcvd_revoke_and_ack_states h)"
    "advance rcvd_revoke_and_ack_states (mirror_htlc h) = mirror_htlc (advance sending_revoke_and_ack_states h)"
  using assms by (cases "h_state h"; simp add: advance_def mirror_htlc_def mirror_state_eval sending_commit_states_def
      rcvd_commit_states_def rcvd_revoke_and_ack_states_def sending_revoke_and_ack_states_def)+

section \<open>Agreement\<close>

definition agree :: "'pk channel \<Rightarrow> 'pk channel \<Rightarrow> bool" where
  "agree a b \<longleftrightarrow>
     ch_funding_txid b = ch_funding_txid a \<and> ch_funding_txout b = ch_funding_txout a \<and>
     ch_funding_msat b = ch_funding_msat a \<and> ch_funder b = other (ch_funder a) \<and>
     ch_commitment_number_obscurer b = ch_commitment_number_obscurer a \<and> ch_chainparams b = ch_chainparams a \<and>
     (\<forall>s. ch_funding_pubkey b s = ch_funding_pubkey a (other s) \<and> ch_config b s = ch_config a (other s) \<and>
        ch_basepoints b s = ch_basepoints a (other s) \<and> ch_changes_pending b s = ch_changes_pending a (other s) \<and>
        cv_feerate_per_kw (ch_view b s) = cv_feerate_per_kw (ch_view a (other s)) \<and>
        (\<forall>X. cv_owed_msat (ch_view b s) X = cv_owed_msat (ch_view a (other s)) (other X))) \<and>
     (\<exists>ha hb. ch_htlcs a = Some ha \<and> ch_htlcs b = Some hb \<and> mset hb = mset (map mirror_htlc ha))"

lemma sum_list_mset_eq: "mset xs = mset ys \<Longrightarrow> (\<Sum>x\<leftarrow>xs. f x) = (\<Sum>x\<leftarrow>ys. f x)" for f :: "'a \<Rightarrow> 'b :: comm_monoid_add"
  by (metis mset_map sum_mset_sum_list)

lemma mirror_sum:
  fixes f :: "htlc \<Rightarrow> 'b :: comm_monoid_add"
  assumes "mset hb = mset (map mirror_htlc ha)" "\<And>h. h \<in> set ha \<Longrightarrow> f (mirror_htlc h) = g h"
  shows "(\<Sum>h\<leftarrow>hb. f h) = (\<Sum>h\<leftarrow>ha. g h)"
proof -
  have "(\<Sum>h\<leftarrow>hb. f h) = (\<Sum>h\<leftarrow>map mirror_htlc ha. f h)" by (rule sum_list_mset_eq) (rule assms(1))
  also have "\<dots> = (\<Sum>h\<leftarrow>ha. g h)" using assms(2) by (induction ha) simp_all
  finally show ?thesis .
qed

lemma mirror_set: "mset hb = mset (map mirror_htlc ha) \<Longrightarrow> set hb = mirror_htlc ` set ha"
  by (metis set_mset_mset set_map)

lemma htlc_ok_mirror:
  assumes "\<And>s. ch_config b s = ch_config a (other s)" "ch_chainparams b = ch_chainparams a" "htlc_ok a h"
  shows "htlc_ok b (mirror_htlc h)"
  using assms(3) unfolding htlc_ok_def assms(1,2)
  by (cases "h_r h") (simp_all add: mirror_state mirror_owner)

text \<open>The invariant of one end is that of the other.\<close>

lemma agree_inv:
  assumes ag: "agree a b" and inv: "channel_inv base a" and p: "params_ok base a"
  shows "channel_inv (\<lambda>X. base (other X)) b" "params_ok (\<lambda>X. base (other X)) b"
proof -
  obtain ha hb where h: "ch_htlcs a = Some ha" "ch_htlcs b = Some hb" and m: "mset hb = mset (map mirror_htlc ha)"
    and q: "ch_funder b = other (ch_funder a)" "ch_funding_msat b = ch_funding_msat a" "ch_chainparams b = ch_chainparams a"
      "\<And>s. ch_config b s = ch_config a (other s)" "\<And>s. ch_changes_pending b s = ch_changes_pending a (other s)"
      "\<And>s X. cv_owed_msat (ch_view b s) X = cv_owed_msat (ch_view a (other s)) (other X)"
    using ag by (auto simp: agree_def)
  have i: "\<forall>h\<in>set ha. htlc_ok a h" "distinct (map htlc_ident ha)" "owed_ok base ha a" "solvent base ha"
    "flags_ok ha (ch_changes_pending a)" using inv h by (simp_all add: channel_inv_def)
  then have v: "\<And>h. h \<in> set ha \<Longrightarrow> h_state h \<noteq> HTLC_STATE_INVALID" using htlc_ok_valid by blast
  have ok: "\<forall>h\<in>set hb. htlc_ok b h"
    using i(1) htlc_ok_mirror [of b a] by (auto simp: mirror_set [OF m] q)
  have "mset (map htlc_ident hb) = mset (map htlc_ident (map mirror_htlc ha))" using m by (metis mset_map)
  then have "distinct (map htlc_ident hb) \<longleftrightarrow> distinct (map htlc_ident (map mirror_htlc ha))"
    by (rule mset_eq_imp_distinct_iff)
  also have "map htlc_ident (map mirror_htlc ha) = map (\<lambda>(x, s). (x, other s)) (map htlc_ident ha)"
    using v by (simp add: htlc_ident_def mirror_owner)
  finally have d: "distinct (map htlc_ident hb) \<longleftrightarrow> distinct (map (\<lambda>(x, s). (x, other s)) (map htlc_ident ha))" .
  have "inj_on (\<lambda>(x, s). (x, other s)) (set (map htlc_ident ha))"
    by (rule inj_onI) (simp split: prod.splits)
  then have d: "distinct (map htlc_ident hb)" unfolding d using i(2) distinct_map by blast
  have ow: "owed_ok (\<lambda>X. base (other X)) hb b"
    using i(3) mirror_sum [OF m, of "\<lambda>h. contribution v h X" "\<lambda>h. contribution (other v) h (other X)" for v X] v
    by (simp add: owed_ok_def q contribution_mirror)
  have "balance (\<lambda>X. base (other X)) hb X k = balance base ha (other X) k" for X k
    using mirror_sum [OF m, of "share k X" "share k (other X)"] v by (simp add: balance_def share_mirror)
  then have s: "solvent (\<lambda>X. base (other X)) hb" using i(4) by (simp add: solvent_def)
  have f: "flags_ok hb (ch_changes_pending b)"
    using i(5) v by (auto simp: flags_ok_def mirror_set [OF m] q mirror_flags)
  show "channel_inv (\<lambda>X. base (other X)) b" by (rule channel_invI [OF h(2) ok d ow s f])
  have "channel_reserve_msat b X = channel_reserve_msat a (other X)" for X by (simp add: channel_reserve_msat_def q)
  then show "params_ok (\<lambda>X. base (other X)) b" using p by (simp add: params_ok_def q add.commute)
qed


text \<open>The form in which the commitment steps change a channel.\<close>

definition stepped :: "htlc_state list \<Rightarrow> htlc list \<Rightarrow> 'pk channel \<Rightarrow> 'pk channel" where
  "stepped states hs c =
     (shift_owed (\<lambda>v x. \<Sum>h\<leftarrow>hs. contribution v (advance states h) x - contribution v h x) c)
       \<lparr>ch_htlcs := Some (map (advance states) hs)\<rparr>"

lemma stepped_simps [simp]:
  "ch_htlcs (stepped st hs c) = Some (map (advance st) hs)" "ch_changes_pending (stepped st hs c) = ch_changes_pending c"
  "ch_funder (stepped st hs c) = ch_funder c" "cv_feerate_per_kw (ch_view (stepped st hs c) v) = cv_feerate_per_kw (ch_view c v)"
  by (simp_all add: stepped_def)

lemma set_changes_pending_same: "ch_changes_pending c s = b \<Longrightarrow> set_changes_pending c s b = c"
  by (simp add: set_changes_pending_def fun_upd_idem)

lemma commit_result:
  assumes h: "ch_htlcs c = Some hs" and f: "flags_ok hs (ch_changes_pending c)"
  shows "\<exists>arr'. channel_sending_commit c arr = Some (ch_changes_pending c REMOTE,
      set_changes_pending (stepped sending_commit_states hs c) REMOTE False, arr')"
    and "\<exists>arr'. channel_rcvd_commit c arr = Some (ch_changes_pending c LOCAL,
      set_changes_pending (stepped rcvd_commit_states hs c) LOCAL False, arr')"
  using nothing_pending [OF f, of REMOTE] nothing_pending [OF f, of LOCAL]
  by (auto simp: channel_sending_commit_def channel_rcvd_commit_def sending.change_htlcs_advance [OF h]
      rcvd.change_htlcs_advance [OF h] stepped_def [symmetric] set_changes_pending_same)

lemma agree_stepped:
  assumes ag: "agree a b" and h: "ch_htlcs a = Some ha" "ch_htlcs b = Some hb" and m: "mset hb = mset (map mirror_htlc ha)"
    and v: "\<And>h. h \<in> set ha \<Longrightarrow> h_state h \<noteq> HTLC_STATE_INVALID"
    and st: "\<And>h. h \<in> set ha \<Longrightarrow> advance st' (mirror_htlc h) = mirror_htlc (advance st h)"
    and v': "\<And>h. h \<in> set ha \<Longrightarrow> h_state (advance st h) \<noteq> HTLC_STATE_INVALID"
  shows "agree (stepped st ha a) (stepped st' hb b)"
proof -
  have "mset (map (advance st') hb) = mset (map (advance st') (map mirror_htlc ha))" using m by (metis mset_map)
  also have "map (advance st') (map mirror_htlc ha) = map mirror_htlc (map (advance st) ha)" using st by simp
  finally have m': "mset (map (advance st') hb) = mset (map mirror_htlc (map (advance st) ha))" .
  have "(\<Sum>h\<leftarrow>hb. contribution v (advance st' h) X - contribution v h X) =
      (\<Sum>h\<leftarrow>ha. contribution (other v) (advance st h) (other X) - contribution (other v) h (other X))" for v X
    using v v' by (intro mirror_sum [OF m]) (simp add: st contribution_mirror)
  then show ?thesis
    using ag m' unfolding agree_def stepped_def by (auto simp: shift_owed_def multiset.map_comp)
qed

lemma agree_pending:
  "agree a b \<Longrightarrow> agree (set_changes_pending a s x) (set_changes_pending b (other s) x)"
  by (auto simp: agree_def other_eq_swap set_changes_pending_def)

lemma agree_feerate:
  "agree a b \<Longrightarrow> agree (set_feerate a s x) (set_feerate b (other s) x)"
  by (auto simp: agree_def other_eq_swap set_feerate_def)

section \<open>Messages keep the agreement\<close>

fun dual :: "channel_op \<Rightarrow> channel_op" where
  "dual (Op_add sender hid msat expiry rhash routing) = Op_add (other sender) hid msat expiry rhash routing"
| "dual (Op_fulfill owner hid preimage) = Op_fulfill (other owner) hid preimage"
| "dual (Op_fail owner hid) = Op_fail (other owner) hid"
| "dual (Op_update_feerate feerate) = Op_update_feerate feerate"
| "dual Op_sending_commit = Op_rcvd_commit"
| "dual Op_rcvd_revoke_and_ack = Op_sending_revoke_and_ack"
| "dual Op_rcvd_commit = Op_sending_commit"
| "dual Op_sending_revoke_and_ack = Op_rcvd_revoke_and_ack"

subsection \<open>Commitments and revocations\<close>

lemma changed_mirror:
  assumes m: "mset hb = mset (map mirror_htlc ha)" and v: "\<And>h. h \<in> set ha \<Longrightarrow> h_state h \<noteq> HTLC_STATE_INVALID"
  shows "changed_flags sending_revoke_and_ack_states hb AND HTLC_REMOTE_F_PENDING = 0 \<longleftrightarrow>
      changed_flags rcvd_revoke_and_ack_states ha AND HTLC_LOCAL_F_PENDING = 0"
    "changed_flags rcvd_revoke_and_ack_states hb AND HTLC_LOCAL_F_PENDING = 0 \<longleftrightarrow>
      changed_flags sending_revoke_and_ack_states ha AND HTLC_REMOTE_F_PENDING = 0"
proof -
  have "(dump_remote_state s \<in> set sending_revoke_and_ack_states \<longrightarrow>
        (htlc_state_flags (dump_remote_state s) XOR htlc_state_flags (htlc_state_succ (dump_remote_state s))) AND HTLC_REMOTE_F_PENDING = 0) =
      (s \<in> set rcvd_revoke_and_ack_states \<longrightarrow>
        (htlc_state_flags s XOR htlc_state_flags (htlc_state_succ s)) AND HTLC_LOCAL_F_PENDING = 0)"
    "(dump_remote_state s \<in> set rcvd_revoke_and_ack_states \<longrightarrow>
        (htlc_state_flags (dump_remote_state s) XOR htlc_state_flags (htlc_state_succ (dump_remote_state s))) AND HTLC_LOCAL_F_PENDING = 0) =
      (s \<in> set sending_revoke_and_ack_states \<longrightarrow>
        (htlc_state_flags s XOR htlc_state_flags (htlc_state_succ s)) AND HTLC_REMOTE_F_PENDING = 0)"
    if "s \<noteq> HTLC_STATE_INVALID" for s
    using that by (cases s; simp add: mirror_state_eval sending_revoke_and_ack_states_def rcvd_revoke_and_ack_states_def
        htlc_state_flags_def flag_simps)+
  with v show "changed_flags sending_revoke_and_ack_states hb AND HTLC_REMOTE_F_PENDING = 0 \<longleftrightarrow>
      changed_flags rcvd_revoke_and_ack_states ha AND HTLC_LOCAL_F_PENDING = 0"
    "changed_flags rcvd_revoke_and_ack_states hb AND HTLC_LOCAL_F_PENDING = 0 \<longleftrightarrow>
      changed_flags sending_revoke_and_ack_states ha AND HTLC_REMOTE_F_PENDING = 0"
    unfolding changed_flags_mask mirror_set [OF m] by (simp_all add: ball_simps)
qed

definition revoke_flags :: "side \<Rightarrow> bool \<Rightarrow> 'pk channel \<Rightarrow> 'pk channel" where
  "revoke_flags s pend c =
     (let c = (if pend then set_changes_pending c s True else c)
      in if ch_funder c = s \<and> cv_feerate_per_kw (ch_view c LOCAL) \<noteq> cv_feerate_per_kw (ch_view c REMOTE)
         then set_changes_pending (set_feerate c s (cv_feerate_per_kw (ch_view c (other s)))) s True else c)"

lemma revoke_result:
  assumes h: "ch_htlcs c = Some hs"
  shows "\<exists>b arr'. channel_rcvd_revoke_and_ack c arr = Some (b,
      revoke_flags LOCAL (changed_flags rcvd_revoke_and_ack_states hs AND HTLC_LOCAL_F_PENDING \<noteq> 0)
        (stepped rcvd_revoke_and_ack_states hs c), arr')"
    and "\<exists>b. channel_sending_revoke_and_ack c = Some (b,
      revoke_flags REMOTE (changed_flags sending_revoke_and_ack_states hs AND HTLC_REMOTE_F_PENDING \<noteq> 0)
        (stepped sending_revoke_and_ack_states hs c))"
  by (auto simp: channel_rcvd_revoke_and_ack_def channel_sending_revoke_and_ack_def Let_def revoke_flags_def
      revoked.change_htlcs_advance [OF h] revoking.change_htlcs_advance [OF h] stepped_def [symmetric])

lemma agree_revoke_flags:
  assumes "agree a b"
  shows "agree (revoke_flags s p a) (revoke_flags (other s) p b)"
proof -
  let ?a = "if p then set_changes_pending a s True else a" and ?b = "if p then set_changes_pending b (other s) True else b"
  have ag: "agree ?a ?b" using assms by (simp add: agree_pending)
  then have "ch_funder ?b = other (ch_funder ?a)" "cv_feerate_per_kw (ch_view ?b v) = cv_feerate_per_kw (ch_view ?a (other v))" for v
    unfolding agree_def by blast+
  moreover have "agree (set_changes_pending (set_feerate ?a s r) s True) (set_changes_pending (set_feerate ?b (other s) r) (other s) True)" for r
    by (intro agree_pending agree_feerate ag)
  ultimately show ?thesis using ag unfolding revoke_flags_def Let_def by (auto simp del: channel_update_simps)
qed

lemma agree_protocol:
  assumes ag: "agree a b" and inv: "channel_inv base a" and p: "params_ok base a" and ev: "ev \<in> set commitment_round"
  shows "\<exists>a' b'. run_op ev a = Some (True, a') \<and> run_op (dual ev) b = Some (True, b') \<and> agree a' b'"
proof -
  obtain ha hb where h: "ch_htlcs a = Some ha" "ch_htlcs b = Some hb" and m: "mset hb = mset (map mirror_htlc ha)"
    and q: "\<And>s. ch_changes_pending b s = ch_changes_pending a (other s)" using ag by (auto simp: agree_def)
  have v: "\<And>h. h \<in> set ha \<Longrightarrow> h_state h \<noteq> HTLC_STATE_INVALID" and f: "flags_ok ha (ch_changes_pending a)"
    using inv h by (auto simp: channel_inv_def dest: htlc_ok_valid)
  have f': "flags_ok hb (ch_changes_pending b)" using agree_inv(1) [OF ag inv p] h by (simp add: channel_inv_def)
  note st = agree_stepped [OF ag h m v advance_mirror(1) [OF v] sending.advance_valid [OF v]]
    agree_stepped [OF ag h m v advance_mirror(2) [OF v] rcvd.advance_valid [OF v]]
    agree_stepped [OF ag h m v advance_mirror(3) [OF v] revoked.advance_valid [OF v]]
    agree_stepped [OF ag h m v advance_mirror(4) [OF v] revoking.advance_valid [OF v]]
  note c = agree_pending [OF st(1), of REMOTE False] agree_pending [OF st(2), of LOCAL False]
  note r = agree_revoke_flags [OF st(3), of LOCAL] agree_revoke_flags [OF st(4), of REMOTE]
  show ?thesis
    using ev c r commit_result [OF h(1) f, of None] commit_result [OF h(2) f', of None] revoke_result(1) [OF h(1), of None]
      revoke_result(2) [OF h(1)] revoke_result(1) [OF h(2), of None] revoke_result(2) [OF h(2)] changed_mirror [OF m v]
    by (auto simp: commitment_round_def)
qed

subsection \<open>Fulfilling and failing\<close>

lemma agree_get:
  assumes ag: "agree a b" and inv: "channel_inv base a" and p: "params_ok base a"
  shows "channel_get_htlc a ow i = Some None \<and> channel_get_htlc b (other ow) i = Some None \<or>
    (\<exists>xs h ys xs' ys'. ch_htlcs a = Some (xs @ h # ys) \<and> ch_htlcs b = Some (xs' @ mirror_htlc h # ys') \<and>
      channel_get_htlc a ow i = Some (Some h) \<and> channel_get_htlc b (other ow) i = Some (Some (mirror_htlc h)) \<and>
      htlc_owner h = ow \<and> h_id h = i \<and> h_state h \<noteq> HTLC_STATE_INVALID \<and>
      (\<forall>x\<in>set xs. \<not> htlc_match i ow x) \<and> (\<forall>x\<in>set xs'. \<not> htlc_match i (other ow) x))"
proof -
  obtain ha hb where h: "ch_htlcs a = Some ha" "ch_htlcs b = Some hb" and m: "mset hb = mset (map mirror_htlc ha)"
    using ag by (auto simp: agree_def)
  note inv' = agree_inv(1) [OF ag inv p]
  have v: "\<And>h. h \<in> set ha \<Longrightarrow> h_state h \<noteq> HTLC_STATE_INVALID" and d: "distinct (map htlc_ident hb)"
    using inv inv' h by (auto simp: channel_inv_def dest: htlc_ok_valid)
  have id: "htlc_ident (mirror_htlc x) = (h_id x, other (htlc_owner x))" if "x \<in> set ha" for x
    using v [OF that] by (simp add: htlc_ident_def mirror_owner)
  note s = mirror_set [OF m]
  from get_htlc_inv [OF inv, of ow i] show ?thesis
  proof (elim disjE exE conjE)
    fix hs assume a: "ch_htlcs a = Some hs" "channel_get_htlc a ow i = Some None" "\<forall>h\<in>set hs. htlc_ident h \<noteq> (i, ow)"
    have "channel_get_htlc b (other ow) i \<noteq> Some (Some x)" for x
    proof
      assume x: "channel_get_htlc b (other ow) i = Some (Some x)"
      with get_htlc_inv [OF inv', of "other ow" i] h have "x \<in> set hb" "htlc_ident x = (i, other ow)"
        by (auto simp: htlc_ident_def)
      then show False using a h id s by (auto simp: htlc_ident_def)
    qed
    then show ?thesis using a(2) get_htlc_inv [OF inv', of "other ow" i] by auto
  next
    fix xs x ys assume a: "ch_htlcs a = Some (xs @ x # ys)" "channel_get_htlc a ow i = Some (Some x)"
      "htlc_owner x = ow" "h_id x = i" "h_state x \<noteq> HTLC_STATE_INVALID" "\<forall>y\<in>set xs. \<not> htlc_match i ow y"
    have x: "mirror_htlc x \<in> set hb" "htlc_ident (mirror_htlc x) = (i, other ow)" using a h s id by auto
    from get_htlc_inv [OF inv', of "other ow" i] h x
    obtain xs' y ys' where b: "ch_htlcs b = Some (xs' @ y # ys')" "channel_get_htlc b (other ow) i = Some (Some y)"
      "htlc_owner y = other ow" "h_id y = i" "\<forall>z\<in>set xs'. \<not> htlc_match i (other ow) z"
      by auto
    then have "htlc_ident y = htlc_ident (mirror_htlc x)" "y \<in> set hb" using x h by (auto simp: htlc_ident_def)
    then have "y = mirror_htlc x" using d x(1) by (simp add: distinct_map inj_on_def)
    then show ?thesis using a b by blast
  qed
qed

lemma agree_put:
  assumes ag: "agree a b" and h: "ch_htlcs a = Some (xs @ h # ys)" "ch_htlcs b = Some (xs' @ mirror_htlc h # ys')"
    and o: "htlc_match i ow h" "htlc_match i (other ow) (mirror_htlc h)"
    and n: "\<forall>x\<in>set xs. \<not> htlc_match i ow x" "\<forall>x\<in>set xs'. \<not> htlc_match i (other ow) x"
  shows "agree (channel_put_htlc a ow i h') (channel_put_htlc b (other ow) i (mirror_htlc h'))"
proof -
  have "mset (xs' @ mirror_htlc h # ys') = mset (map mirror_htlc (xs @ h # ys))" using ag h by (auto simp: agree_def)
  then have "mset (xs' @ mirror_htlc h' # ys') = mset (map mirror_htlc (xs @ h' # ys))" by simp
  moreover note put_htlc [OF h(1) n(1) o(1), of h'] put_htlc [OF h(2) n(2) o(2), of "mirror_htlc h'"]
  moreover have "ch_view (channel_put_htlc c s k x) = ch_view c" for c :: "'a channel" and s k x by simp
  ultimately show ?thesis using ag unfolding agree_def by (auto simp: channel_put_htlc_def)
qed

lemma mirror_updates:
  "(mirror_htlc h)\<lparr>h_r := r\<rparr> = mirror_htlc (h\<lparr>h_r := r\<rparr>)"
  "(mirror_htlc h)\<lparr>h_state := dump_remote_state st\<rparr> = mirror_htlc (h\<lparr>h_state := st\<rparr>)"
  by (simp_all add: mirror_htlc_def)

lemma remove_start_mirror: "s \<noteq> HTLC_STATE_INVALID \<Longrightarrow> remove_start (dump_remote_state s) = map_option dump_remote_state (remove_start s)"
  by (cases s) (simp_all add: remove_start_def mirror_state_eval)

lemma match_mirror:
  "h_state h \<noteq> HTLC_STATE_INVALID \<Longrightarrow> htlc_owner h = ow \<Longrightarrow> h_id h = i \<Longrightarrow> htlc_match i ow h \<and> htlc_match i (other ow) (mirror_htlc h)"
  by (simp add: htlc_match_ident htlc_ident_def mirror_owner mirror_state)

lemma agree_fail:
  assumes ag: "agree a b" and inv: "channel_inv base a" and p: "params_ok base a"
  shows "\<exists>e a' b' hp hp'. channel_fail_htlc a ow i = Some (e, a', hp) \<and> channel_fail_htlc b (other ow) i = Some (e, b', hp') \<and> agree a' b'"
  using agree_get [OF ag inv p, of ow i]
proof (elim disjE exE conjE)
  fix xs h ys xs' ys'
  assume h: "ch_htlcs a = Some (xs @ h # ys)" "ch_htlcs b = Some (xs' @ mirror_htlc h # ys')"
    and g: "channel_get_htlc a ow i = Some (Some h)" "channel_get_htlc b (other ow) i = Some (Some (mirror_htlc h))"
    and o: "htlc_owner h = ow" "h_id h = i" "h_state h \<noteq> HTLC_STATE_INVALID"
    and n: "\<forall>x\<in>set xs. \<not> htlc_match i ow x" "\<forall>x\<in>set xs'. \<not> htlc_match i (other ow) x"
  note m = match_mirror [OF o(3,1,2)]
  have ag': "agree (set_changes_pending (channel_put_htlc a ow i h') ow True)
      (set_changes_pending (channel_put_htlc b (other ow) i (mirror_htlc h')) (other ow) True)" for h'
    using m by (intro agree_pending agree_put [OF ag h _ _ n]) simp_all
  show ?thesis
    using ag ag' o unfolding channel_fail_htlc_def g
    by (auto simp: htlc_has_is mirror_flags mirror_owner remove_start_mirror mirror_updates Let_def split: option.splits)
qed (use ag in \<open>simp add: channel_fail_htlc_def\<close>)

lemma agree_fulfill:
  assumes ag: "agree a b" and inv: "channel_inv base a" and p: "params_ok base a"
  shows "\<exists>e a' b' hp hp'. channel_fulfill_htlc a ow i pre = Some (e, a', hp) \<and>
    channel_fulfill_htlc b (other ow) i pre = Some (e, b', hp') \<and> agree a' b'"
  using agree_get [OF ag inv p, of ow i]
proof (elim disjE exE conjE)
  fix xs h ys xs' ys'
  assume h: "ch_htlcs a = Some (xs @ h # ys)" "ch_htlcs b = Some (xs' @ mirror_htlc h # ys')"
    and g: "channel_get_htlc a ow i = Some (Some h)" "channel_get_htlc b (other ow) i = Some (Some (mirror_htlc h))"
    and o: "htlc_owner h = ow" "h_id h = i" "h_state h \<noteq> HTLC_STATE_INVALID"
    and n: "\<forall>x\<in>set xs. \<not> htlc_match i ow x" "\<forall>x\<in>set xs'. \<not> htlc_match i (other ow) x"
  let ?h = "h\<lparr>h_r := Some pre\<rparr>"
  have o': "htlc_owner ?h = ow" "h_id ?h = i" "h_state ?h \<noteq> HTLC_STATE_INVALID" using o by (simp_all add: htlc_owner_def)
  note m = match_mirror [OF o(3,1,2)] match_mirror [OF o'(3,1,2)]
  have ag1: "agree (channel_put_htlc a ow i ?h) (channel_put_htlc b (other ow) i (mirror_htlc ?h))"
    using m by (intro agree_put [OF ag h _ _ n]) simp_all
  have ag2: "agree (set_changes_pending (channel_put_htlc (channel_put_htlc a ow i ?h) ow i h') ow True)
      (set_changes_pending (channel_put_htlc (channel_put_htlc b (other ow) i (mirror_htlc ?h)) (other ow) i (mirror_htlc h')) (other ow) True)" for h'
    using m by (intro agree_pending agree_put [OF ag1 put_htlc [OF h(1)] put_htlc [OF h(2)] _ _ n]) (use n in simp_all)
  show ?thesis
    using ag ag1 ag2 o o' unfolding channel_fulfill_htlc_def g
    by (auto simp: htlc_has_is mirror_flags mirror_owner remove_start_mirror mirror_updates Let_def split: option.splits)
qed (use ag in \<open>simp add: channel_fulfill_htlc_def\<close>)

subsection \<open>Adding and fees\<close>

lemma mirror_filter:
  assumes "mset hb = mset (map mirror_htlc ha)" "\<And>h. h \<in> set ha \<Longrightarrow> Q (mirror_htlc h) = P h"
  shows "mset (filter Q hb) = mset (map mirror_htlc (filter P ha))"
proof -
  have "mset (filter Q hb) = mset (filter Q (map mirror_htlc ha))" using assms(1) by (metis mset_filter)
  also have "filter Q (map mirror_htlc ha) = map mirror_htlc (filter P ha)" using assms(2) by (induction ha) auto
  finally show ?thesis .
qed

lemma mirror_length: "mset hb = mset (map mirror_htlc ha) \<Longrightarrow> length hb = length ha"
  by (metis length_map size_mset)

lemma trim_mirror: "h_state h \<noteq> HTLC_STATE_INVALID \<Longrightarrow> trim (mirror_htlc h) f d (other s) = trim h f d s"
  by (simp add: trim_def mirror_owner)

lemma untrimmed_mirror:
  assumes "mset hb = mset (map mirror_htlc ha)" "\<And>h. h \<in> set ha \<Longrightarrow> h_state h \<noteq> HTLC_STATE_INVALID"
  shows "commit_tx_num_untrimmed hb f d (other s) = commit_tx_num_untrimmed ha f d s"
proof -
  have "fold (\<lambda>h n. n + (if \<not> trim h f d s then 1 else 0)) hs k = k + (\<Sum>h\<leftarrow>hs. if \<not> trim h f d s then 1 else 0)" for hs s and k :: nat
    by (induction hs arbitrary: k) simp_all
  then show ?thesis unfolding commit_tx_num_untrimmed_def
    using assms(2) by (simp only:) (intro arg_cong2 [where f = "(+)"] refl mirror_sum [OF assms(1)], simp add: trim_mirror)
qed

lemma total_offered_mirror:
  assumes "mset hb = mset (map mirror_htlc ha)" "\<And>h. h \<in> set ha \<Longrightarrow> h_state h \<noteq> HTLC_STATE_INVALID"
  shows "total_offered_msatoshis hb (other s) = total_offered_msatoshis ha s"
  unfolding total_offered_sum using assms(2) by (intro mirror_sum [OF assms(1)]) (simp add: mirror_owner)

lemma gather_mirror:
  assumes h: "ch_htlcs a = Some ha" "ch_htlcs b = Some hb" and m: "mset hb = mset (map mirror_htlc ha)"
    and v: "\<And>h. h \<in> set ha \<Longrightarrow> h_state h \<noteq> HTLC_STATE_INVALID"
  obtains cm rm ad cm' rm' ad' where
    "gather_htlcs a s = (cm, rm, ad)" "gather_htlcs b (other s) = (cm', rm', ad')"
    "mset cm' = mset (map mirror_htlc cm)" "mset rm' = mset (map mirror_htlc rm)" "mset ad' = mset (map mirror_htlc ad)"
    "set cm \<subseteq> set ha" "set rm \<subseteq> set ha" "set ad \<subseteq> set ha"
proof
  show "gather_htlcs a s =
    (filter (\<lambda>h. is_committed s (h_state h)) ha, filter (\<lambda>h. is_committed s (h_state h) \<and> is_pending s (h_state h)) ha,
     filter (\<lambda>h. \<not> is_committed s (h_state h) \<and> is_pending s (h_state h)) ha)" by (rule gather_htlcs_filter [OF h(1)])
  show "gather_htlcs b (other s) =
    (filter (\<lambda>h. is_committed (other s) (h_state h)) hb,
     filter (\<lambda>h. is_committed (other s) (h_state h) \<and> is_pending (other s) (h_state h)) hb,
     filter (\<lambda>h. \<not> is_committed (other s) (h_state h) \<and> is_pending (other s) (h_state h)) hb)" by (rule gather_htlcs_filter [OF h(2)])
qed ((rule mirror_filter [OF m], simp add: v mirror_flags)+, auto)

lemma pending_untrimmed_mirror:
  assumes "mset cm' = mset (map mirror_htlc cm)" "mset rm' = mset (map mirror_htlc rm)" "mset ad' = mset (map mirror_htlc ad)"
    "\<And>h. h \<in> set cm \<union> set rm \<union> set ad \<Longrightarrow> h_state h \<noteq> HTLC_STATE_INVALID"
  shows "pending_untrimmed cm' rm' ad' f d (other s) = pending_untrimmed cm rm ad f d s"
  using assms(4) untrimmed_mirror [OF assms(1), of f d s] untrimmed_mirror [OF assms(2), of f d s] untrimmed_mirror [OF assms(3), of f d s]
  by (simp add: pending_untrimmed_def)

lemma agree_update_feerate:
  assumes ag: "agree a b" and inv: "channel_inv base a"
  shows "\<exists>ok a' b'. channel_update_feerate a f = (ok, a') \<and> channel_update_feerate b f = (ok, b') \<and> agree a' b'"
proof -
  obtain ha hb where h: "ch_htlcs a = Some ha" "ch_htlcs b = Some hb" and m: "mset hb = mset (map mirror_htlc ha)"
    and q: "ch_funder b = other (ch_funder a)" "\<And>s. ch_config b s = ch_config a (other s)"
      "\<And>s X. cv_owed_msat (ch_view b s) X = cv_owed_msat (ch_view a (other s)) (other X)"
    using ag by (auto simp: agree_def)
  have v: "\<And>h. h \<in> set ha \<Longrightarrow> h_state h \<noteq> HTLC_STATE_INVALID" using inv h by (auto simp: channel_inv_def dest: htlc_ok_valid)
  obtain cm rm ad cm' rm' ad' where g: "gather_htlcs a (other (ch_funder a)) = (cm, rm, ad)"
    "gather_htlcs b (other (other (ch_funder a))) = (cm', rm', ad')"
    and mm: "mset cm' = mset (map mirror_htlc cm)" "mset rm' = mset (map mirror_htlc rm)" "mset ad' = mset (map mirror_htlc ad)"
    and ss: "set cm \<subseteq> set ha" "set rm \<subseteq> set ha" "set ad \<subseteq> set ha"
    by (rule gather_mirror [OF h m v, of "other (ch_funder a)"])
  have "pending_untrimmed cm' rm' ad' f d (other (other (ch_funder a))) = pending_untrimmed cm rm ad f d (other (ch_funder a))" for d
    using ss v by (intro pending_untrimmed_mirror mm) blast
  then have "can_funder_afford_feerate b f = can_funder_afford_feerate a f"
    using g by (simp add: can_funder_afford_feerate_def q channel_reserve_msat_def)
  moreover have "agree (set_changes_pending (set_feerate a s f) s True) (set_changes_pending (set_feerate b (other s) f) (other s) True)" for s
    by (intro agree_pending agree_feerate ag)
  note this [of "other (ch_funder a)"]
  ultimately show ?thesis using ag q(1) by (cases "can_funder_afford_feerate a f") (auto simp: channel_update_feerate_def)
qed

lemma mirror_offered: "offered_htlc (other X) i m e ph ro = mirror_htlc (offered_htlc X i m e ph ro)"
  by (cases X) (simp_all add: offered_htlc_def mirror_htlc_def new_state_def mirror_state_eval)


lemma agree_add:
  assumes ag: "agree a b" and inv: "channel_inv base a" and p: "params_ok base a"
  shows "\<exists>e a' b' hp hp'. channel_add_htlc a X i m cl ph ro = Some (e, a', hp) \<and>
    channel_add_htlc b (other X) i m cl ph ro = Some (e, b', hp') \<and> agree a' b'"
proof -
  obtain ha hb where h: "ch_htlcs a = Some ha" "ch_htlcs b = Some hb" and mm: "mset hb = mset (map mirror_htlc ha)"
    and q: "ch_funder b = other (ch_funder a)" "\<And>s. ch_config b s = ch_config a (other s)" "ch_chainparams b = ch_chainparams a"
      "\<And>s. cv_feerate_per_kw (ch_view b s) = cv_feerate_per_kw (ch_view a (other s))"
    using ag by (auto simp: agree_def)
  have v: "\<And>h. h \<in> set ha \<Longrightarrow> h_state h \<noteq> HTLC_STATE_INVALID" using inv h by (auto simp: channel_inv_def dest: htlc_ok_valid)
  note inv' = agree_inv [OF ag inv p]
  obtain cm rm ad cm' rm' ad' where g: "gather_htlcs a (other X) = (cm, rm, ad)" "gather_htlcs b (other (other X)) = (cm', rm', ad')"
    and gm: "mset cm' = mset (map mirror_htlc cm)" "mset rm' = mset (map mirror_htlc rm)" "mset ad' = mset (map mirror_htlc ad)"
    and ss: "set cm \<subseteq> set ha" "set rm \<subseteq> set ha" "set ad \<subseteq> set ha"
    by (rule gather_mirror [OF h mm v, of "other X"])
  let ?n = "offered_htlc X i m cl ph ro" and ?n' = "offered_htlc (other X) i m cl ph ro"
  have gn: "mset (ad' @ [?n']) = mset (map mirror_htlc (ad @ [?n]))" "mset (hb @ [?n']) = mset (map mirror_htlc (ha @ [?n]))"
    using gm(3) mm by (simp_all add: mirror_offered)
  have vs: "h_state h \<noteq> HTLC_STATE_INVALID" if "h \<in> set cm \<union> set rm \<union> set (ad @ [?n])" for h using that v ss by auto
  have len: "length cm' = length cm" "length rm' = length rm" "length (ad' @ [?n']) = length (ad @ [?n])"
    using gm gn(1) by (simp_all only: mirror_length)
  have off: "total_offered_msatoshis cm' (other X) = total_offered_msatoshis cm X"
    "total_offered_msatoshis rm' (other X) = total_offered_msatoshis rm X"
    "total_offered_msatoshis (ad' @ [?n']) (other X) = total_offered_msatoshis (ad @ [?n]) X"
    using vs by (intro total_offered_mirror gm gn(1); blast)+
  have fee: "add_fee b (other X) cm' rm' (ad' @ [?n']) = add_fee a X cm rm (ad @ [?n])"
    using pending_untrimmed_mirror [OF gm(1,2) gn(1) vs, of _ _ "other X"] by (simp add: add_fee_def q)
  have bal: "balance (\<lambda>X. base (other X)) (hb @ [?n']) (other X) (0, 7, 5) = balance base (ha @ [?n]) X (0, 7, 5)"
  proof -
    have "share (0, 7, 5) (other X) (mirror_htlc h) = share (0, 7, 5) X h" if "h \<in> set (ha @ [?n])" for h
      using that v share_mirror [of h "(0, 7, 5)" "other X"] by (auto simp del: share.simps)
    from mirror_sum [OF gn(2), of "share (0, 7, 5) (other X)" "share (0, 7, 5) X", OF this] show ?thesis
      by (simp add: balance_def del: share.simps)
  qed
  have lim: "add_htlc_limits b ?n' (other X) (other (other X)) cm' rm' (ad' @ [?n']) True =
      add_htlc_limits a ?n X (other X) cm rm (ad @ [?n]) True" if "\<not> cp_max_payment_msat (ch_chainparams a) < m"
    using that add_htlc_limits_exact [OF inv h(1) p _ _ _ g(1), of ?n] add_htlc_limits_exact [OF inv'(1) h(2) inv'(2) _ _ _ g(2), of ?n']
    unfolding len off fee bal q channel_reserve_msat_def by simp
  have get: "htlc_get hb i (other X) = map_option mirror_htlc (htlc_get ha i X)"
    using agree_get [OF ag inv p, of X i] h by (auto simp: channel_get_htlc_def)
  have st: "h_state h = new_state X \<longleftrightarrow> dump_remote_state (h_state h) = new_state (other X)" if "htlc_get ha i X = Some h" for h
    using that v [of h] by (cases "h_state h"; cases X) (auto simp: htlc_get_find find_Some_iff new_state_def mirror_state_eval)
  have ag': "agree (set_changes_pending (a\<lparr>ch_htlcs := Some (ha @ [?n])\<rparr>) (other X) True)
      (set_changes_pending (b\<lparr>ch_htlcs := Some (hb @ [?n'])\<rparr>) (other (other X)) True)"
    using ag gn(2) by (intro agree_pending) (auto simp: agree_def)
  obtain e where e: "\<not> cp_max_payment_msat (ch_chainparams a) < m \<longrightarrow> add_htlc_limits a ?n X (other X) cm rm (ad @ [?n]) True = Some e"
    using add_htlc_limits_exact [OF inv h(1) p _ _ _ g(1), of ?n] by (cases "cp_max_payment_msat (ch_chainparams a) < m") auto
  show ?thesis
    unfolding channel_add_htlc_cases [OF h(1) g(1) refl] channel_add_htlc_cases [OF h(2) g(2) refl] get
    using ag ag' e lim st by (auto simp: q split: option.splits)
qed


section \<open>Two peers\<close>

lemma agree_step:
  assumes ag: "agree a b" and inv: "channel_inv base a" and p: "params_ok base a"
  shows "\<exists>ok a' b'. run_op ev a = Some (ok, a') \<and> run_op (dual ev) b = Some (ok, b') \<and> agree a' b'"
proof (cases "ev \<in> set commitment_round")
  case True
  with agree_protocol [OF ag inv p] show ?thesis by blast
next
  case False
  then show ?thesis
  proof (cases ev)
    case (Op_add X i m cl ph ro)
    with agree_add [OF ag inv p, of X i m cl ph ro] show ?thesis by auto
  next
    case (Op_fulfill ow i pre)
    with agree_fulfill [OF ag inv p, of ow i pre] show ?thesis by auto
  next
    case (Op_fail ow i)
    with agree_fail [OF ag inv p, of ow i] show ?thesis by auto
  next
    case (Op_update_feerate f)
    with agree_update_feerate [OF ag inv, of f] show ?thesis by auto
  qed (simp_all add: commitment_round_def)
qed

lemma agree_run:
  assumes "channel_run a0 evs a" "agree a0 b0" "channel_inv base a0" "params_ok base a0"
  shows "\<exists>b. channel_run b0 (map dual evs) b \<and> agree a b"
  using assms
proof induction
  case (run_start c)
  then show ?case by (auto intro: channel_run.run_start)
next
  case (run_step a0 evs a ev a')
  then obtain b where b: "channel_run b0 (map dual evs) b" "agree a b" by blast
  note i = channel_run_inv [OF run_step.hyps(1) run_step.prems(2,3)]
  from agree_step [OF b(2) i(1,2), of ev] run_step.hyps(2) obtain b' where "run_op (dual ev) b = Some (True, b')" "agree a' b'"
    by (auto simp: channel_step_iff)
  then show ?case using channel_run.run_step [OF b(1), of "dual ev" b'] by (auto simp: channel_step_iff)
qed

text \<open>Opening a channel gives the two peers channels that agree, whoever funds it.\<close>

lemma agree_open:
  assumes a: "new_full_channel S chain_hash txid txout sat local_msat feerates local remote lb rb lk rk funder = Some a"
    and b: "new_full_channel S chain_hash txid txout sat (sat * 1000 - local_msat) (\<lambda>s. feerates (other s)) remote local rb lb rk lk
      (other funder) = Some b"
  shows "agree a b"
proof -
  have o: "both x y (other s) = both y x s" for x y :: 'z and s by (cases s) simp_all
  have "ch_chainparams b = ch_chainparams a"
    using new_full_channel_fields(9) [OF a] new_full_channel_fields(9) [OF b] by (metis option.inject)
  then show ?thesis
    unfolding agree_def new_full_channel_fields [OF a] new_full_channel_fields [OF b] by (simp add: o)
qed

section \<open>Properties\<close>

definition sample_peer_open :: "u8 channel option" where
  "sample_peer_open = new_full_channel byte_secp (cp_genesis_blockhash (hd networks)) (replicate 32 1) 0 100000
     (100000 * 1000 - 60000000) (\<lambda>s. both 253 253 (other s)) sample_config sample_config (sample_points 20) (sample_points 10) 2 1
     (other LOCAL)"

lemma sample_peer_opened:
  obtains c where "sample_peer_open = Some c"
proof -
  have "chainparams_by_chainhash (cp_genesis_blockhash (hd networks)) = Some (hd networks)"
    by (simp add: chainparams_by_chainhash_def networks_def)
  then show thesis using that
    by (auto simp: sample_peer_open_def new_full_channel_def new_initial_channel_def Let_def UINT64_MAX_def)
qed

text \<open>
  C3: two peers that open a channel with each other's parameters stay in step. When one of them
  goes through a sequence of operations and the other through the dual sequence (what one
  sends the other receives), the second accepts everything the first accepts, and both end
  with the same balances, fees, pending flags and HTLCs, seen from the opposite side; every
  further operation is accepted by both or refused by both.
\<close>

theorem peers_stay_in_step:
  assumes "new_full_channel S chain_hash txid txout sat local_msat feerates local remote lb rb lk rk funder = Some a0"
    and "new_full_channel S chain_hash txid txout sat (sat * 1000 - local_msat) (\<lambda>s. feerates (other s)) remote local rb lb rk lk
      (other funder) = Some b0"
    and "sane_opening sat local remote" and "channel_run a0 evs a"
  shows "\<exists>b. channel_run b0 (map dual evs) b \<and>
    (\<forall>s. cv_feerate_per_kw (ch_view b s) = cv_feerate_per_kw (ch_view a (other s)) \<and>
       ch_changes_pending b s = ch_changes_pending a (other s) \<and>
       (\<forall>X. cv_owed_msat (ch_view b s) X = cv_owed_msat (ch_view a (other s)) (other X))) \<and>
    (\<exists>ha hb. ch_htlcs a = Some ha \<and> ch_htlcs b = Some hb \<and> mset hb = mset (map mirror_htlc ha)) \<and>
    (\<forall>ev. \<exists>ok a' b'. run_op ev a = Some (ok, a') \<and> run_op (dual ev) b = Some (ok, b'))"
proof -
  note i = new_full_channel_inv [OF assms(1,3)]
  obtain b where b: "channel_run b0 (map dual evs) b" "agree a b"
    using agree_run [OF assms(4) agree_open [OF assms(1,2)] i(1,2)] by blast
  have "\<exists>ok a' b'. run_op ev a = Some (ok, a') \<and> run_op (dual ev) b = Some (ok, b')" for ev
    using agree_step [OF b(2) channel_run_inv(1,2) [OF assms(4) i(1,2)], of ev] by blast
  with b show ?thesis unfolding agree_def by (intro exI [of _ b]) blast
qed

theorem peers_stay_in_step_witness:
  "\<exists>a0 b0 a b ha hb. sample_open = Some a0 \<and> sample_peer_open = Some b0 \<and> channel_run a0 [sample_offer] a \<and>
    channel_run b0 [dual sample_offer] b \<and> ch_htlcs a = Some ha \<and> ha \<noteq> [] \<and> ch_htlcs b = Some hb \<and>
    mset hb = mset (map mirror_htlc ha)"
proof -
  obtain a0 where a0: "sample_open = Some a0" by (rule sample_opened)
  obtain b0 where b0: "sample_peer_open = Some b0" by (rule sample_peer_opened)
  obtain a where a: "channel_run a0 [sample_offer] a" "ch_htlcs a = Some [offered_htlc LOCAL 7 10000000 500 (replicate 32 9) []]"
    using sample_run [OF a0] by blast
  obtain b ha hb where b: "channel_run b0 (map dual [sample_offer]) b" "ch_htlcs a = Some ha" "ch_htlcs b = Some hb"
    "mset hb = mset (map mirror_htlc ha)"
    using peers_stay_in_step [OF a0 [unfolded sample_open_def] b0 [unfolded sample_peer_open_def] sample_sane a(1)] by blast
  have "ha \<noteq> []" using a(2) b(2) by auto
  moreover have "channel_run b0 [dual sample_offer] b" using b(1) by simp
  ultimately show ?thesis using a0 b0 a(1) b(2-4) by blast
qed

end
