(* ===== verification/ChannelTxs.thy ===== *)
theory ChannelTxs
  imports ChannelPeers
begin

text \<open>
  The transactions of a channel (\<open>channel_txs\<close>). In a reachable state they can always be
  built, and both peers build the same ones: neither the order of the HTLCs in the hash
  table nor the contents of the uninitialised expiries of the balance outputs matters,
  provided the witness scripts of the commitment have different SHA-256 hashes.
\<close>

section \<open>Scripts are told apart\<close>

lemma add_push_bytes_append: "add_push_bytes script mem = script @ add_push_bytes [] mem"
  by (simp add: add_push_bytes_def add_op_def add_def Let_def)

lemma add_number_append: "add_number script num = script @ add_number [] num"
  by (simp add: add_number_def add_op_def add_def Let_def add_push_bytes_append [of script])

lemma add_op_append: "add_op script op = script @ [op]"
  by (simp add: add_op_def add_def)

lemmas script_appends = add_op_append add_push_key_def add_push_bytes_append [of "_ # _"] add_push_bytes_append [of "_ @ _"]
  add_number_append [of "_ # _"] add_number_append [of "_ @ _"]

lemma wscripts_differ:
  "htlc_offered_wscript S r k \<noteq> htlc_received_wscript S r' e k"
  "to_self_wscript S d k \<noteq> htlc_offered_wscript S r k" "to_self_wscript S d k \<noteq> htlc_received_wscript S r' e k"
  by (simp_all add: htlc_offered_wscript_def htlc_received_wscript_def to_self_wscript_def Let_def
      bitcoin_wscript_htlc_offer_ripemd160_def bitcoin_wscript_htlc_receive_ripemd_def bitcoin_wscript_to_local_def
      script_appends OP_IF_def OP_NOTIF_def OP_DUP_def)

definition htlc_wscript :: "('pk, 'sg) secp \<Rightarrow> 'pk keyset \<Rightarrow> side \<Rightarrow> htlc \<Rightarrow> bytes" where
  "htlc_wscript S keyset side h =
     (if htlc_owner h = side then htlc_offered_wscript S (ripemd160 (h_rhash h)) keyset
      else htlc_received_wscript S (ripemd160 (h_rhash h)) (h_expiry h) keyset)"

text \<open>What the code relies on of SHA-256: the witness scripts of one commitment do not collide.\<close>

definition no_collisions :: "('pk, 'sg) secp \<Rightarrow> u16 \<Rightarrow> 'pk keyset \<Rightarrow> side \<Rightarrow> htlc list \<Rightarrow> bool" where
  "no_collisions S delay keyset side hs \<longleftrightarrow>
     inj_on sha256 (insert (to_self_wscript S delay keyset) (htlc_wscript S keyset side ` set hs))"

lemma p2wsh_inj: "scriptpubkey_p2wsh w = scriptpubkey_p2wsh w' \<longleftrightarrow> sha256 w = sha256 w'"
  by (simp add: scriptpubkey_p2wsh_def add_push_bytes_def add_op_def add_def Let_def)

section \<open>Rows without uninitialised parts\<close>

definition clean_key :: "htlc row \<Rightarrow> u64 \<times> bytes \<times> u32" where
  "clean_key r = (to_amount (fst r), to_script (fst r), case snd (snd r) of None \<Rightarrow> 0 | Some h \<Rightarrow> fst (snd r))"

definition wf_row :: "('pk, 'sg) secp \<Rightarrow> u16 \<Rightarrow> 'pk keyset \<Rightarrow> side \<Rightarrow> htlc list \<Rightarrow> htlc row \<Rightarrow> bool" where
  "wf_row S delay keyset side hs r \<longleftrightarrow> (case snd (snd r) of
     None \<Rightarrow> to_script (fst r) = scriptpubkey_p2wsh (to_self_wscript S delay keyset) \<or>
             to_script (fst r) = scriptpubkey_p2wpkh S (other_payment_key keyset)
   | Some h \<Rightarrow> h \<in> set hs \<and> fst (snd r) = h_expiry h \<and>
       fst r = \<lparr>to_amount = h_msatoshi h div 1000, to_script = scriptpubkey_p2wsh (htlc_wscript S keyset side h)\<rparr>)"

lemma commit_rows_wf:
  "r \<in> set (commit_rows S u delay keyset f d p q hs side) \<Longrightarrow> wf_row S delay keyset side hs r"
  by (auto simp: commit_rows_def balance_rows_def htlc_rows_def offered_row_def received_row_def wf_row_def htlc_wscript_def
      split: if_splits)

lemma wf_rows_same_script:
  assumes "no_collisions S delay keyset side hs" "wf_row S delay keyset side hs r" "wf_row S delay keyset side hs r'"
    "to_script (fst r) = to_script (fst r')" "snd (snd r) = Some h" 
  shows "\<exists>h'. snd (snd r') = Some h' \<and> htlc_wscript S keyset side h' = htlc_wscript S keyset side h"
proof -
  have h: "h \<in> set hs" "to_script (fst r) = scriptpubkey_p2wsh (htlc_wscript S keyset side h)"
    using assms(2,5) by (auto simp: wf_row_def)
  have l: "scriptpubkey_p2wsh w \<noteq> scriptpubkey_p2wpkh S k" for w k
    using length_p2wsh [of w] length_p2wpkh [of S k] by auto
  have i: "x = y" if "sha256 x = sha256 y" "x \<in> insert (to_self_wscript S delay keyset) (htlc_wscript S keyset side ` set hs)"
    "y \<in> insert (to_self_wscript S delay keyset) (htlc_wscript S keyset side ` set hs)" for x y
    by (rule inj_onD [OF assms(1) [unfolded no_collisions_def] that])
  show ?thesis
  proof (cases "snd (snd r')")
    case None
    then have e: "scriptpubkey_p2wsh (htlc_wscript S keyset side h) = scriptpubkey_p2wsh (to_self_wscript S delay keyset)"
      using assms(3,4) h(2) l by (auto simp: wf_row_def)
    have "htlc_wscript S keyset side h = to_self_wscript S delay keyset"
      by (rule i) (use e h(1) in \<open>simp_all add: p2wsh_inj\<close>)
    moreover have "to_self_wscript S delay keyset \<noteq> htlc_wscript S keyset side h"
      by (simp add: htlc_wscript_def wscripts_differ)
    ultimately show ?thesis by simp
  next
    case (Some h')
    then have h': "h' \<in> set hs" "to_script (fst r') = scriptpubkey_p2wsh (htlc_wscript S keyset side h')"
      using assms(3) by (auto simp: wf_row_def)
    have "htlc_wscript S keyset side h' = htlc_wscript S keyset side h"
      by (rule i) (use h h' assms(4) in \<open>simp_all add: p2wsh_inj\<close>)
    then show ?thesis using Some by simp
  qed
qed

lemma wscript_owner: "htlc_wscript S k s h' = htlc_wscript S k s h \<Longrightarrow> (htlc_owner h' = s) = (htlc_owner h = s)"
  using wscripts_differ(1) [of S "ripemd160 (h_rhash h)" k "ripemd160 (h_rhash h')" "h_expiry h'"]
    wscripts_differ(1) [of S "ripemd160 (h_rhash h')" k "ripemd160 (h_rhash h)" "h_expiry h"]
  by (auto simp: htlc_wscript_def split: if_splits)

lemma sorted_clean:
  assumes "no_collisions S delay keyset side hs" "\<And>r. r \<in> set rs \<Longrightarrow> wf_row S delay keyset side hs r" "sorted (map row_key rs)"
  shows "sorted (map clean_key rs)"
proof -
  have "clean_key x \<le> clean_key y" if x: "x \<in> set rs" "y \<in> set rs" and le: "row_key x \<le> row_key y" for x y
  proof (cases "to_amount (fst x) = to_amount (fst y) \<and> to_script (fst x) = to_script (fst y)")
    case True
    then have "snd (snd x) = None \<longleftrightarrow> snd (snd y) = None"
      using wf_rows_same_script [OF assms(1) assms(2) [OF x(1)] assms(2) [OF x(2)]]
        wf_rows_same_script [OF assms(1) assms(2) [OF x(2)] assms(2) [OF x(1)]]
      by (cases "snd (snd x)"; cases "snd (snd y)") auto
    then show ?thesis using le True by (auto simp: row_key_def clean_key_def split: option.splits)
  next
    case False
    then show ?thesis using le by (auto simp: row_key_def clean_key_def less_eq_prod_def)
  qed
  then show ?thesis using assms(3) unfolding sorted_map by (rule sorted_wrt_mono_rel)
qed

section \<open>Both peers build the same transactions\<close>

definition htlc_key_of :: "('pk, 'sg) secp \<Rightarrow> 'pk keyset \<Rightarrow> side \<Rightarrow> htlc \<Rightarrow> u64 \<times> bytes \<times> u32" where
  "htlc_key_of S k s h = (h_msatoshi h div 1000, scriptpubkey_p2wsh (htlc_wscript S k s h), h_expiry h)"

lemma htlc_rows_keys:
  "mset (map clean_key (htlc_rows S k f d s hs)) = mset (map (htlc_key_of S k s) (filter (\<lambda>h. \<not> trim h f d s) hs))"
  by (induction hs) (auto simp: htlc_rows_def clean_key_def offered_row_def received_row_def htlc_key_of_def htlc_wscript_def)

definition balance_keys :: "u64 \<Rightarrow> u64 \<Rightarrow> bytes \<Rightarrow> (u64 \<times> bytes \<times> u32) list" where
  "balance_keys d pay script = (if pay div 1000 \<ge> d then [(pay div 1000, script, 0)] else [])"

lemma commit_rows_keys:
  "mset (map clean_key (commit_rows S u delay k f d p q hs s)) =
     mset (map (htlc_key_of S k s) (filter (\<lambda>h. \<not> trim h f d s) hs)) +
     mset (balance_keys d p (scriptpubkey_p2wsh (to_self_wscript S delay k))) +
     mset (balance_keys d q (scriptpubkey_p2wpkh S (other_payment_key k)))"
  using htlc_rows_keys [of S k f d s hs] by (simp add: commit_rows_def balance_rows_def balance_keys_def clean_key_def)

lemma wscript_mirror:
  "h_state h \<noteq> HTLC_STATE_INVALID \<Longrightarrow> htlc_wscript S k (other s) (mirror_htlc h) = htlc_wscript S k s h"
  by (simp add: htlc_wscript_def mirror_owner)

lemma commit_rows_mirror:
  assumes m: "mset hb = mset (map mirror_htlc ha)" and v: "\<And>h. h \<in> set ha \<Longrightarrow> h_state h \<noteq> HTLC_STATE_INVALID"
  shows "mset (map clean_key (commit_rows S u delay k f d p q ha s)) =
    mset (map clean_key (commit_rows S u' delay k f d p q hb (other s)))"
proof -
  have "mset (filter (\<lambda>h. \<not> trim h f d (other s)) hb) = mset (map mirror_htlc (filter (\<lambda>h. \<not> trim h f d s) ha))"
    using v by (intro mirror_filter [OF m]) (simp add: trim_mirror)
  then have "mset (map (htlc_key_of S k (other s)) (filter (\<lambda>h. \<not> trim h f d (other s)) hb)) =
      mset (map (htlc_key_of S k (other s)) (map mirror_htlc (filter (\<lambda>h. \<not> trim h f d s) ha)))"
    by (metis mset_map)
  also have "map (htlc_key_of S k (other s)) (map mirror_htlc (filter (\<lambda>h. \<not> trim h f d s) ha)) =
      map (htlc_key_of S k s) (filter (\<lambda>h. \<not> trim h f d s) ha)"
    using v by (simp add: htlc_key_of_def wscript_mirror)
  finally show ?thesis unfolding commit_rows_keys by simp
qed

lemma no_collisions_mirror:
  assumes "mset hb = mset (map mirror_htlc ha)" "\<And>h. h \<in> set ha \<Longrightarrow> h_state h \<noteq> HTLC_STATE_INVALID"
  shows "no_collisions S delay k (other s) hb = no_collisions S delay k s ha"
proof -
  have "htlc_wscript S k (other s) ` set hb = htlc_wscript S k s ` set ha"
    unfolding mirror_set [OF assms(1)] image_image using assms(2) by (simp add: wscript_mirror)
  then show ?thesis by (simp add: no_collisions_def)
qed

text \<open>Two rows that stand for the same output and give the same HTLC transaction.\<close>

definition same_row :: "('pk, 'sg) secp \<Rightarrow> 'pk keyset \<Rightarrow> side \<Rightarrow> htlc row \<Rightarrow> htlc row \<Rightarrow> bool" where
  "same_row S k s r r' \<longleftrightarrow> fst r = fst r' \<and> (case (snd (snd r), snd (snd r')) of
     (None, None) \<Rightarrow> True
   | (Some h, Some h') \<Rightarrow> (htlc_owner h = s) = (htlc_owner h' = other s) \<and> h_expiry h = h_expiry h' \<and>
       h_msatoshi h div 1000 = h_msatoshi h' div 1000 \<and> htlc_wscript S k s h = htlc_wscript S k (other s) h'
   | _ \<Rightarrow> False)"

lemma same_row_keys:
  assumes n: "no_collisions S delay k s ha" and m: "mset hb = mset (map mirror_htlc ha)"
    and v: "\<And>h. h \<in> set ha \<Longrightarrow> h_state h \<noteq> HTLC_STATE_INVALID"
    and w: "wf_row S delay k s ha r" "wf_row S delay k (other s) hb r'" and e: "clean_key r = clean_key r'"
  shows "same_row S k s r r'"
proof -
  text \<open>Seen from the peer, the second row is one of the first kind.\<close>
  define q where "q = (fst r', fst (snd r'), map_option mirror_htlc (snd (snd r')))"
  have mm: "mirror_htlc (mirror_htlc h) = h" if "h \<in> set ha" for h
    using mirror_state(2) [OF v [OF that]] by (simp add: mirror_htlc_def)
  have hb: "\<exists>x\<in>set ha. h = mirror_htlc x" if "h \<in> set hb" for h using that mirror_set [OF m] by auto
  have wq: "wf_row S delay k s ha q"
  proof (cases "snd (snd r')")
    case (Some h)
    then obtain x where x: "x \<in> set ha" "h = mirror_htlc x" using w(2) hb by (auto simp: wf_row_def)
    then show ?thesis using w(2) Some v [OF x(1)] by (simp add: wf_row_def q_def mm wscript_mirror)
  qed (use w(2) in \<open>simp add: wf_row_def q_def\<close>)
  have f: "fst r = fst r'" using e by (cases "fst r"; cases "fst r'") (simp add: clean_key_def)
  show ?thesis
  proof (cases "snd (snd r)")
    case None
    have "snd (snd q) = None"
      using wf_rows_same_script [OF n wq w(1)] None f by (cases "snd (snd q)") (auto simp: q_def)
    then show ?thesis using None f by (simp add: same_row_def q_def)
  next
    case (Some h)
    then obtain x where x: "snd (snd q) = Some x" "htlc_wscript S k s x = htlc_wscript S k s h"
      using wf_rows_same_script [OF n w(1) wq] f by (auto simp: q_def)
    then obtain h' where h': "snd (snd r') = Some h'" "x = mirror_htlc h'" by (auto simp: q_def)
    then obtain y where y: "y \<in> set ha" "h' = mirror_htlc y" using w(2) hb by (auto simp: wf_row_def)
    then have xy: "x = y" using mm h' by simp
    have "htlc_wscript S k (other s) h' = htlc_wscript S k s h" using y xy x(2) by (simp add: wscript_mirror [OF v [OF y(1)]])
    moreover have "(htlc_owner h = s) = (htlc_owner h' = other s)"
      using wscript_owner [OF x(2)] xy y mirror_owner [OF v [OF y(1)]] by simp
    moreover have "h_expiry h = h_expiry h'" "h_msatoshi h div 1000 = h_msatoshi h' div 1000"
      using w Some h' e f by (auto simp: wf_row_def clean_key_def)
    ultimately show ?thesis using Some h' f by (simp add: same_row_def)
  qed
qed

lemma sorted_mset_eq: "mset xs = mset ys \<Longrightarrow> sorted xs \<Longrightarrow> sorted ys \<Longrightarrow> xs = ys"
  by (metis properties_for_sort)

lemma same_rows:
  assumes n: "no_collisions S delay k s ha" and m: "mset hb = mset (map mirror_htlc ha)"
    and v: "\<And>h. h \<in> set ha \<Longrightarrow> h_state h \<noteq> HTLC_STATE_INVALID"
    and a: "mset ra = mset (commit_rows S u delay k f d p q ha s)" "sorted (map row_key ra)"
    and b: "mset rb = mset (commit_rows S u' delay k f d p q hb (other s))" "sorted (map row_key rb)"
  shows "list_all2 (same_row S k s) ra rb"
proof -
  have wa: "wf_row S delay k s ha r" if "r \<in> set ra" for r
    using that mset_eq_setD [OF a(1)] by (intro commit_rows_wf [of r S u _ _ f d p q]) simp
  have wb: "wf_row S delay k (other s) hb r" if "r \<in> set rb" for r
    using that mset_eq_setD [OF b(1)] by (intro commit_rows_wf [of r S u' _ _ f d p q]) simp
  have n': "no_collisions S delay k (other s) hb" using n by (simp add: no_collisions_mirror [OF m v])
  have "mset (map clean_key ra) = mset (map clean_key rb)"
    using commit_rows_mirror [OF m v, of S u delay k f d p q s u'] unfolding mset_map a(1) b(1) by simp
  then have e: "map clean_key ra = map clean_key rb"
    by (rule sorted_mset_eq) (rule sorted_clean [OF n wa a(2)] sorted_clean [OF n' wb b(2)]; simp)+
  then have l: "length ra = length rb" using map_eq_imp_length_eq by blast
  show ?thesis
  proof (rule list_all2_all_nthI [OF l])
    fix i assume i: "i < length ra"
    have "clean_key (ra ! i) = clean_key (rb ! i)" using arg_cong [OF e, of "\<lambda>xs. xs ! i"] i l by simp
    then show "same_row S k s (ra ! i) (rb ! i)" using i l by (intro same_row_keys [OF n m v wa wb]) simp_all
  qed
qed

text \<open>The second-stage transactions depend on what the rows share only.\<close>

lemma add_htlcs_from_same:
  assumes "list_all2 (same_row S k s) ra rb"
    and "cv_feerate_per_kw (ch_view b (other s)) = cv_feerate_per_kw (ch_view a s)"
    and "ch_config b s = ch_config a (other s)"
  shows "add_htlcs_from S a k s txid i (map (\<lambda>r. snd (snd r)) ra) txs ws =
    add_htlcs_from S b k (other s) txid i (map (\<lambda>r. snd (snd r)) rb) txs ws"
  using assms(1)
proof (induction arbitrary: i txs ws rule: list_all2_induct)
  case (Cons r ra r' rb)
  have "add_htlc_tx S a k s txid i h = add_htlc_tx S b k (other s) txid i h'"
    if "snd (snd r) = Some h" "snd (snd r') = Some h'" for h h'
  proof -
    have e: "(htlc_owner h = s) = (htlc_owner h' = other s)" "h_expiry h = h_expiry h'"
      "h_msatoshi h div 1000 = h_msatoshi h' div 1000" "htlc_wscript S k s h = htlc_wscript S k (other s) h'"
      using Cons(1) that by (simp_all add: same_row_def)
    then show ?thesis
      by (cases "htlc_owner h = s")
        (simp_all add: add_htlc_tx_def assms(2,3) htlc_timeout_tx_def htlc_success_tx_def htlc_tx_def htlc_wscript_def
          htlc_offered_wscript_def htlc_received_wscript_def bitcoin_wscript_htlc_offer_def bitcoin_wscript_htlc_receive_def)
  qed
  moreover have "snd (snd r) = None \<longleftrightarrow> snd (snd r') = None" using Cons(1) by (auto simp: same_row_def split: option.splits)
  ultimately show ?case using Cons(3) by (cases "snd (snd r)"; cases "snd (snd r')") (auto split: prod.splits)
qed simp

definition view_htlcs :: "side \<Rightarrow> htlc list \<Rightarrow> htlc list" where
  "view_htlcs s hs = filter (\<lambda>h. is_committed s (h_state h)) hs"

definition channel_fee :: "'pk channel \<Rightarrow> side \<Rightarrow> htlc list \<Rightarrow> bool \<times> u64 \<times> u64" where
  "channel_fee c s hs =
     (let f = cv_feerate_per_kw (ch_view c s)
      in try_subtract_fee (ch_funder c) s
           (commit_tx_base_fee f (commit_tx_num_untrimmed hs f (cc_dust_limit_satoshis (ch_config c s)) s) * 1000)
           (cv_owed_msat (ch_view c s) s) (cv_owed_msat (ch_view c s) (other s)))"

definition channel_rows :: "('pk, 'sg) secp \<Rightarrow> (nat \<Rightarrow> u32) \<Rightarrow> 'pk channel \<Rightarrow> 'pk keyset \<Rightarrow> side \<Rightarrow> htlc list \<Rightarrow> htlc row list" where
  "channel_rows S u c k s hs =
     (case channel_fee c s hs of (_, p, q) \<Rightarrow>
        commit_rows S u (cc_to_self_delay (ch_config c (other s))) k (cv_feerate_per_kw (ch_view c s))
          (cc_dust_limit_satoshis (ch_config c s)) p q hs s)"

definition channel_commit :: "'pk channel \<Rightarrow> u64 \<Rightarrow> htlc row list \<Rightarrow> bitcoin_tx" where
  "channel_commit c n srt =
     commit_tx_finish (ch_funding_txid c) (ch_funding_txout c) (ch_funding_msat c div 1000)
       (n XOR ch_commitment_number_obscurer c) ((bitcoin_tx_alloc 1 0)\<lparr>tx_output := map fst srt\<rparr>)"

lemma channel_txs_rows:
  assumes inv: "channel_inv base c" and p: "params_ok base c" and h: "ch_htlcs c = Some hs"
    and whole: "ch_funding_msat c div 1000 * 1000 = ch_funding_msat c"
    and k: "derive_keyset S pt (ch_basepoints c s) (ch_basepoints c (other s)) = Some k"
  shows "\<exists>srt. channel_txs S u c pt n s =
      do {
        (txs, ws) \<leftarrow> add_htlcs S [channel_commit c n srt]
          [bitcoin_redeem_2of2 S (ch_funding_pubkey c s) (ch_funding_pubkey c (other s))] (map (\<lambda>r. snd (snd r)) srt) c k s;
        Some (Some (txs, map (\<lambda>r. snd (snd r)) srt, ws))
      } \<and>
    mset srt = mset (channel_rows S u c k s (view_htlcs s hs)) \<and> sorted (map row_key srt)"
proof -
  let ?hs = "view_htlcs s hs" and ?f = "cv_feerate_per_kw (ch_view c s)" and ?d = "cc_dust_limit_satoshis (ch_config c s)"
  let ?p = "cv_owed_msat (ch_view c s) s" and ?q = "cv_owed_msat (ch_view c s) (other s)"
  obtain paid p' q' where fee: "channel_fee c s ?hs = (paid, p', q')" by (metis prod_cases3)
  have "0 \<le> in_htlcs s hs" by (rule in_htlcs_nonneg)
  then have le: "uint ?p + uint ?q \<le> uint (ch_funding_msat c)" using owed_within_funding [OF inv p h, of s s] by linarith
  then have "uint (?p + ?q) = uint ?p + uint ?q"
    using uint_lt2p [of "ch_funding_msat c"] by (intro uint_add_lem [THEN iffD1]) simp
  with le have a: "?p + ?q \<le> ch_funding_msat c div 1000 * 1000" unfolding whole word_le_def by simp
  have "\<And>h. h \<in> set ?hs \<Longrightarrow> block_expiry h"
    using inv h by (auto simp: view_htlcs_def channel_inv_def htlc_ok_def block_expiry_def locktime_defs not_le)
  then obtain srt where c: "commit_tx S u (ch_funding_txid c) (ch_funding_txout c) (ch_funding_msat c div 1000) (ch_funder c)
      (cc_to_self_delay (ch_config c (other s))) k ?f ?d ?p ?q ?hs (n XOR ch_commitment_number_obscurer c) s =
      Some (channel_commit c n srt, map (\<lambda>r. snd (snd r)) srt)"
    and srt: "mset srt = mset (channel_rows S u c k s ?hs)" "sorted (map row_key srt)"
    using commit_tx_rows [where S = S and uninit = u and delay = "cc_to_self_delay (ch_config c (other s))" and keyset = k and
        txid = "ch_funding_txid c" and txout = "ch_funding_txout c" and num = "n XOR ch_commitment_number_obscurer c",
        OF a _ fee [unfolded channel_fee_def Let_def]] fee
    unfolding channel_rows_def channel_commit_def by auto
  show ?thesis
    using srt by (intro exI [of _ srt])
      (simp add: channel_txs_def k gather_htlcs_filter [OF h] c [unfolded view_htlcs_def] split_def)
qed

text \<open>The transactions and witness scripts, without the pointers to the HTLCs.\<close>

definition txs_of :: "(bitcoin_tx list \<times> htlc option list \<times> bytes list) option option \<Rightarrow> (bitcoin_tx list \<times> bytes list) option option" where
  "txs_of r = map_option (map_option (\<lambda>(txs, m, ws). (txs, ws))) r"

text \<open>A table of HTLCs may be walked in any order.\<close>

lemma reordered_inv:
  assumes "channel_inv base c" "ch_htlcs c = Some hs" "mset hs' = mset hs"
  shows "channel_inv base (c\<lparr>ch_htlcs := Some hs'\<rparr>)"
proof -
  have "distinct (map htlc_ident hs') = distinct (map htlc_ident hs)"
    by (metis assms(3) mset_eq_imp_distinct_iff mset_map)
  moreover have "set hs' = set hs" using assms(3) by (rule mset_eq_setD)
  moreover have "balance base hs' = balance base hs"
    by (intro ext) (simp only: balance_def sum_list_mset_eq [OF assms(3)])
  moreover have "owed_ok base hs' (c\<lparr>ch_htlcs := Some hs'\<rparr>) = owed_ok base hs c"
    by (simp add: owed_ok_def sum_list_mset_eq [OF assms(3)])
  ultimately show ?thesis using assms(1,2) by (simp add: channel_inv_def htlc_ok_def solvent_def flags_ok_def)
qed

lemma reordered_agree:
  assumes "agree a b" "ch_htlcs a = Some ha" "ch_htlcs b = Some hb" "mset ha' = mset ha" "mset hb' = mset hb"
  shows "agree (a\<lparr>ch_htlcs := Some ha'\<rparr>) (b\<lparr>ch_htlcs := Some hb'\<rparr>)"
  using assms by (auto simp: agree_def)

lemma agree_txs:
  assumes ag: "agree a b" and inv: "channel_inv base a" and p: "params_ok base a" and h: "ch_htlcs a = Some ha"
    and whole: "ch_funding_msat a div 1000 * 1000 = ch_funding_msat a"
    and n: "\<And>k. derive_keyset S pt (ch_basepoints a s) (ch_basepoints a (other s)) = Some k \<Longrightarrow>
      no_collisions S (cc_to_self_delay (ch_config a (other s))) k s (view_htlcs s ha)"
  shows "txs_of (channel_txs S u a pt n s) = txs_of (channel_txs S u' b pt n (other s))"
proof -
  obtain hb where hb: "ch_htlcs b = Some hb" and m: "mset hb = mset (map mirror_htlc ha)"
    and q: "ch_funding_txid b = ch_funding_txid a" "ch_funding_txout b = ch_funding_txout a" "ch_funding_msat b = ch_funding_msat a"
      "ch_funder b = other (ch_funder a)" "ch_commitment_number_obscurer b = ch_commitment_number_obscurer a"
      "\<And>s. ch_funding_pubkey b s = ch_funding_pubkey a (other s)" "\<And>s. ch_config b s = ch_config a (other s)"
      "\<And>s. ch_basepoints b s = ch_basepoints a (other s)"
      "\<And>s. cv_feerate_per_kw (ch_view b s) = cv_feerate_per_kw (ch_view a (other s))"
      "\<And>s X. cv_owed_msat (ch_view b s) X = cv_owed_msat (ch_view a (other s)) (other X)"
    using ag h by (auto simp: agree_def)
  have v: "\<And>h. h \<in> set ha \<Longrightarrow> h_state h \<noteq> HTLC_STATE_INVALID" using inv h by (auto simp: channel_inv_def dest: htlc_ok_valid)
  have vm: "mset (view_htlcs (other s) hb) = mset (map mirror_htlc (view_htlcs s ha))"
    unfolding view_htlcs_def using v by (intro mirror_filter [OF m]) (simp add: mirror_flags)
  have vv: "\<And>h. h \<in> set (view_htlcs s ha) \<Longrightarrow> h_state h \<noteq> HTLC_STATE_INVALID" using v by (simp add: view_htlcs_def)
  show ?thesis
  proof (cases "derive_keyset S pt (ch_basepoints a s) (ch_basepoints a (other s))")
    case None
    then show ?thesis by (simp add: channel_txs_def q txs_of_def)
  next
    case (Some k)
    have kb: "derive_keyset S pt (ch_basepoints b (other s)) (ch_basepoints b (other (other s))) = Some k" using Some by (simp add: q)
    have wb: "ch_funding_msat b div 1000 * 1000 = ch_funding_msat b" unfolding q by (rule whole)
    obtain ra where ra: "channel_txs S u a pt n s = do {
        (txs, ws) \<leftarrow> add_htlcs S [channel_commit a n ra]
          [bitcoin_redeem_2of2 S (ch_funding_pubkey a s) (ch_funding_pubkey a (other s))] (map (\<lambda>r. snd (snd r)) ra) a k s;
        Some (Some (txs, map (\<lambda>r. snd (snd r)) ra, ws)) }"
      "mset ra = mset (channel_rows S u a k s (view_htlcs s ha))" "sorted (map row_key ra)"
      using channel_txs_rows [OF inv p h whole Some, of u n] by blast
    obtain rb where rb: "channel_txs S u' b pt n (other s) = do {
        (txs, ws) \<leftarrow> add_htlcs S [channel_commit b n rb]
          [bitcoin_redeem_2of2 S (ch_funding_pubkey b (other s)) (ch_funding_pubkey b (other (other s)))]
          (map (\<lambda>r. snd (snd r)) rb) b k (other s);
        Some (Some (txs, map (\<lambda>r. snd (snd r)) rb, ws)) }"
      "mset rb = mset (channel_rows S u' b k (other s) (view_htlcs (other s) hb))" "sorted (map row_key rb)"
      using channel_txs_rows [OF agree_inv [OF ag inv p] hb wb kb, of u' n] by blast
    have fee: "channel_fee b (other s) (view_htlcs (other s) hb) = channel_fee a s (view_htlcs s ha)"
      by (simp add: channel_fee_def q try_subtract_fee_def untrimmed_mirror [OF vm vv])
    obtain paid pa qa where fa: "channel_fee a s (view_htlcs s ha) = (paid, pa, qa)" by (metis prod_cases3)
    have rows: "list_all2 (same_row S k s) ra rb"
      by (rule same_rows [OF n [OF Some] vm vv ra(2) [unfolded channel_rows_def fa prod.case] ra(3) _ rb(3)])
        (simp_all add: rb(2) channel_rows_def fee fa q)
    then have "map fst ra = map fst rb" by (induction rule: list_all2_induct) (simp_all add: same_row_def)
    then have cc: "channel_commit b n rb = channel_commit a n ra" by (simp add: channel_commit_def q)
    have two: "bitcoin_redeem_2of2 S (ch_funding_pubkey b (other s)) (ch_funding_pubkey b (other (other s))) =
      bitcoin_redeem_2of2 S (ch_funding_pubkey a s) (ch_funding_pubkey a (other s))"
      by (simp add: q)
    have add: "add_htlcs S txs ws (map (\<lambda>r. snd (snd r)) rb) b k (other s) = add_htlcs S txs ws (map (\<lambda>r. snd (snd r)) ra) a k s" for txs ws
      unfolding add_htlcs_def using add_htlcs_from_same [OF rows, of b a] by (simp add: q)
    show ?thesis unfolding ra(1) rb(1) cc two add txs_of_def
      by (cases "add_htlcs S [channel_commit a n ra] [bitcoin_redeem_2of2 S (ch_funding_pubkey a s) (ch_funding_pubkey a (other s))]
        (map (\<lambda>r. snd (snd r)) ra) a k s") auto
  qed
qed

section \<open>The transactions can be built\<close>

definition htlc_slots :: "nat \<Rightarrow> htlc option list \<Rightarrow> (nat \<times> htlc) list" where
  "htlc_slots i ms = [(j, the m). (j, m) \<leftarrow> enumerate i ms, m \<noteq> None]"

lemma add_htlcs_from_slots:
  "length txs = length ws \<Longrightarrow> add_htlcs_from S c k s txid i ms txs ws =
     Some (txs @ map (\<lambda>(j, h). fst (add_htlc_tx S c k s txid j h)) (htlc_slots i ms),
           ws @ map (\<lambda>(j, h). snd (add_htlc_tx S c k s txid j h)) (htlc_slots i ms))"
  by (induction ms arbitrary: i txs ws) (auto simp: htlc_slots_def split: option.splits prod.splits)

lemma htlc_slots_iff: "(j, h) \<in> set (htlc_slots 0 ms) \<longleftrightarrow> j < length ms \<and> ms ! j = Some h"
proof -
  have "(j, h) \<in> set (htlc_slots 0 ms) \<longleftrightarrow> (j, Some h) \<in> set (enumerate 0 ms)"
    by (force simp: htlc_slots_def)
  then show ?thesis by (auto simp: in_set_enumerate_eq)
qed

lemma output_bytes_length: "length (to_script out) \<le> 34 \<Longrightarrow> length (output_bytes out) \<le> 51"
  using add_mono [OF length_varint_put_pos(2) [of "of_nat (length (to_script out))"], of "length (to_script out)" 34]
  by (simp add: output_bytes_def varint_blob_def)

lemma concat_length_le: "(\<And>x. x \<in> set xs \<Longrightarrow> length (f x) \<le> n) \<Longrightarrow> length (concat (map f xs)) \<le> n * length xs"
proof (induction xs)
  case (Cons x xs)
  have "length (f x) \<le> n" "length (concat (map f xs)) \<le> n * length xs" using Cons by simp_all
  then show ?case by simp
qed simp

lemma channel_rows_script:
  "r \<in> set (channel_rows S u c k s hs) \<Longrightarrow> length (to_script (fst r)) \<le> 34"
proof -
  assume r: "r \<in> set (channel_rows S u c k s hs)"
  obtain paid p q where f: "channel_fee c s hs = (paid, p, q)" by (metis prod_cases3)
  then have "wf_row S (cc_to_self_delay (ch_config c (other s))) k s hs r"
    using r by (intro commit_rows_wf) (simp add: channel_rows_def)
  then show ?thesis using length_p2wsh length_p2wpkh [of S "other_payment_key k"]
    by (cases "snd (snd r)") (auto simp: wf_row_def)
qed

lemma length_channel_rows: "length (channel_rows S u c k s hs) \<le> length hs + 2"
proof -
  obtain paid p q where "channel_fee c s hs = (paid, p, q)" by (metis prod_cases3)
  moreover have "length (htlc_rows S k f d s hs) \<le> length hs" for f d
    by (induction hs) (simp_all add: htlc_rows_def)
  ultimately show ?thesis by (simp add: channel_rows_def commit_rows_def balance_rows_def le_SucI)
qed

lemma channel_commit_txid:
  assumes "length (ch_funding_txid c) = 32" "mset srt = mset (channel_rows S u c k s hs)" "length hs < 2 ^ 32 - 2"
  shows "bitcoin_txid (channel_commit c n srt) = Some (sha256_double (tx_bytes (channel_commit c n srt) False))"
proof (rule bitcoin_txid_bytes)
  let ?tx = "channel_commit c n srt"
  have l: "length srt \<le> length hs + 2" using length_channel_rows [of S u c k s hs] assms(2) by (metis size_mset)
  have "length (to_script (fst r)) \<le> 34" if "r \<in> set srt" for r
    using that mset_eq_setD [OF assms(2)] channel_rows_script by blast
  then have o: "length (concat (map output_bytes (map fst srt))) \<le> 51 * length srt"
    by (intro concat_length_le [of "map fst srt" output_bytes 51, unfolded length_map] output_bytes_length) auto
  have i: "length (input_bytes i) \<le> 49" if "length (ti_txid i) = 32" "ti_script i = None" for i
    using that length_varint_put_pos(2) [of 0] by (simp add: input_bytes_def varint_blob_def blob_of_def)
  have "length (concat (map input_bytes (tx_input ?tx))) \<le> 49"
    using assms(1) by (simp add: channel_commit_def commit_tx_finish_def bitcoin_tx_alloc_def i)
  moreover have "tx_output ?tx = map fst srt" by (simp add: channel_commit_def commit_tx_finish_def)
  ultimately have "length (tx_bytes ?tx False) \<le> 75 + 51 * length srt"
    using o length_varint_put_pos(2) [of "of_nat (length (tx_input ?tx))"] length_varint_put_pos(2) [of "of_nat (length srt)"]
    by (simp add: tx_bytes_def del: length_varint_put_pos)
  also have "\<dots> \<le> 75 + 51 * (length hs + 2)" using l by simp
  also have "\<dots> < 2 ^ 64 - 1" using assms(3) by simp
  finally show "length (tx_bytes ?tx False) < 2 ^ 64 - 1" .
qed

definition slot_list :: "htlc option list \<Rightarrow> nat list" where
  "slot_list m = filter (\<lambda>j. m ! j \<noteq> None) [0..<length m]"

lemma slot_list_slots: "htlc_slots 0 m = map (\<lambda>j. (j, the (m ! j))) (slot_list m)"
proof -
  have e: "enumerate 0 m = map (\<lambda>j. (j, m ! j)) [0..<length m]" by (simp add: enumerate_eq_zip zip_map2 [symmetric] map_nth flip: zip_map_fst_snd)
    (rule nth_equalityI; simp)
  have "concat (map (\<lambda>(j, x). if x \<noteq> None then [(j, the x)] else []) (map (\<lambda>j. (j, m ! j)) js)) =
    map (\<lambda>j. (j, the (m ! j))) (filter (\<lambda>j. m ! j \<noteq> None) js)" for js
    by (induction js) auto
  then show ?thesis unfolding htlc_slots_def slot_list_def e .
qed

definition slot_htlcs :: "htlc option list \<Rightarrow> htlc list" where
  "slot_htlcs m = map the (filter (\<lambda>x. x \<noteq> None) m)"

lemma slot_htlcs_rows:
  "mset (slot_htlcs (map (\<lambda>r. snd (snd r)) (commit_rows S u delay k f d p q hs s))) = mset (filter (\<lambda>h. \<not> trim h f d s) hs)"
proof -
  have 1: "slot_htlcs (map (\<lambda>r. snd (snd r)) (commit_rows S u delay k f d p q hs s)) =
      slot_htlcs (map (\<lambda>r. snd (snd r)) (htlc_rows S k f d s hs))"
    by (simp add: commit_rows_def balance_rows_def slot_htlcs_def)
  have 2: "mset (slot_htlcs (map (\<lambda>r. snd (snd r)) (htlc_rows S k f d s hs))) = mset (filter (\<lambda>h. \<not> trim h f d s) hs)"
    by (induction hs) (simp_all add: htlc_rows_def slot_htlcs_def offered_row_def received_row_def)
  show ?thesis unfolding 1 2 ..
qed

lemma slot_htlcs_mset: "mset m = mset m' \<Longrightarrow> mset (slot_htlcs m) = mset (slot_htlcs m')"
  by (simp add: slot_htlcs_def)

text \<open>The transaction \<open>tx\<close> spends output \<open>j\<close> of \<open>commit\<close> through the witness script \<open>w\<close>.\<close>

definition spends_output :: "bitcoin_tx \<Rightarrow> bytes \<Rightarrow> bitcoin_tx \<Rightarrow> bytes \<Rightarrow> nat \<Rightarrow> bool" where
  "spends_output commit txid tx w j \<longleftrightarrow>
     (\<exists>i. tx_input tx = [i] \<and> ti_txid i = txid \<and> unat (ti_index i) = j \<and> j < length (tx_output commit) \<and>
        ti_amount i = Some (to_amount (tx_output commit ! j)) \<and> to_script (tx_output commit ! j) = scriptpubkey_p2wsh w)"

lemma htlc_tx_spends:
  assumes "wf_row S delay k s hs r" "snd (snd r) = Some h" "tx_output commit ! j = fst r" "j < length (tx_output commit)" "j < 2 ^ 32"
  shows "spends_output commit txid (fst (add_htlc_tx S c k s txid j h)) (snd (add_htlc_tx S c k s txid j h)) j"
proof -
  have "unat (of_nat j :: u32) = j" using assms(5) by (simp add: unat_of_nat take_bit_nat_eq_self)
  then show ?thesis
    using assms(1-4)
    by (auto simp: spends_output_def wf_row_def add_htlc_tx_def htlc_timeout_tx_def htlc_success_tx_def htlc_tx_def htlc_wscript_def
        htlc_offered_wscript_def htlc_received_wscript_def bitcoin_wscript_htlc_offer_def bitcoin_wscript_htlc_receive_def
        bitcoin_tx_alloc_def Let_def)
qed

lemma channel_txs_built:
  assumes inv: "channel_inv base c" and p: "params_ok base c" and h: "ch_htlcs c = Some hs"
    and whole: "ch_funding_msat c div 1000 * 1000 = ch_funding_msat c"
    and k: "derive_keyset S pt (ch_basepoints c s) (ch_basepoints c (other s)) = Some k"
    and l: "length (ch_funding_txid c) = 32" "length hs < 2 ^ 32 - 2"
  shows "\<exists>txs m ws txid. channel_txs S u c pt n s = Some (Some (txs, m, ws)) \<and> bitcoin_txid (txs ! 0) = Some txid \<and>
    mset (slot_htlcs m) = mset (filter (\<lambda>h. \<not> trim h (cv_feerate_per_kw (ch_view c s)) (cc_dust_limit_satoshis (ch_config c s)) s)
      (view_htlcs s hs)) \<and>
    length txs = Suc (length (slot_list m)) \<and> length ws = length txs \<and> length m = length (tx_output (txs ! 0)) \<and>
    ws ! 0 = bitcoin_redeem_2of2 S (ch_funding_pubkey c s) (ch_funding_pubkey c (other s)) \<and>
    (\<forall>i < length (slot_list m). spends_output (txs ! 0) txid (txs ! Suc i) (ws ! Suc i) (slot_list m ! i))"
proof -
  obtain srt where t: "channel_txs S u c pt n s = do {
        (txs, ws) \<leftarrow> add_htlcs S [channel_commit c n srt]
          [bitcoin_redeem_2of2 S (ch_funding_pubkey c s) (ch_funding_pubkey c (other s))] (map (\<lambda>r. snd (snd r)) srt) c k s;
        Some (Some (txs, map (\<lambda>r. snd (snd r)) srt, ws)) }"
    and srt: "mset srt = mset (channel_rows S u c k s (view_htlcs s hs))"
    using channel_txs_rows [OF inv p h whole k, of u n] by blast
  let ?m = "map (\<lambda>r. snd (snd r)) srt" and ?c = "channel_commit c n srt"
  have lv: "length (view_htlcs s hs) \<le> length hs" by (simp add: view_htlcs_def)
  obtain txid where txid: "bitcoin_txid ?c = Some txid" using channel_commit_txid [OF l(1) srt] l(2) lv by fastforce
  let ?f = "\<lambda>j. add_htlc_tx S c k s txid j (the (?m ! j))"
  have r: "channel_txs S u c pt n s = Some (Some (?c # map (fst \<circ> ?f) (slot_list ?m), ?m,
      bitcoin_redeem_2of2 S (ch_funding_pubkey c s) (ch_funding_pubkey c (other s)) # map (snd \<circ> ?f) (slot_list ?m)))"
    unfolding t add_htlcs_def by (simp add: txid add_htlcs_from_slots slot_list_slots o_def)
  have out: "tx_output ?c = map fst srt" by (simp add: channel_commit_def commit_tx_finish_def)
  obtain paid p' q' where f: "channel_fee c s (view_htlcs s hs) = (paid, p', q')" by (metis prod_cases3)
  note srt' = srt [unfolded channel_rows_def f prod.case]
  have wf: "wf_row S (cc_to_self_delay (ch_config c (other s))) k s (view_htlcs s hs) x" if "x \<in> set srt" for x
    using that mset_eq_setD [OF srt'] by (intro commit_rows_wf) simp
  have "length srt \<le> length (view_htlcs s hs) + 2" using length_channel_rows srt by (metis size_mset)
  with lv l(2) have ls: "length srt < 2 ^ 32" by simp
  have sp: "spends_output ?c txid (fst (?f j)) (snd (?f j)) j" if "j \<in> set (slot_list ?m)" for j
    using that ls by (intro htlc_tx_spends [OF wf, of "srt ! j"]) (auto simp: slot_list_def out)
  have "mset (slot_htlcs ?m) =
      mset (filter (\<lambda>h. \<not> trim h (cv_feerate_per_kw (ch_view c s)) (cc_dust_limit_satoshis (ch_config c s)) s) (view_htlcs s hs))"
    by (rule trans [OF slot_htlcs_mset slot_htlcs_rows [of S u _ k]]) (use srt' in simp)
  with r txid sp show ?thesis
    by (intro exI [of _ "?c # map (fst \<circ> ?f) (slot_list ?m)"] exI [of _ ?m] exI [of _ "bitcoin_redeem_2of2 S
      (ch_funding_pubkey c s) (ch_funding_pubkey c (other s)) # map (snd \<circ> ?f) (slot_list ?m)"] exI [of _ txid])
      (simp add: out)
qed

section \<open>Properties\<close>

lemma whole_funding: "uint sat * 1000 < 2 ^ 63 \<Longrightarrow> (sat * 1000) div 1000 * 1000 = sat * (1000 :: u64)"
proof -
  assume "uint sat * 1000 < 2 ^ 63"
  then have u: "uint (sat * 1000) = uint sat * 1000" by (rule uint_mult_1000)
  have "sat * 1000 div 1000 = sat" by (rule word_uint_eq_iff [THEN iffD2]) (simp add: uint_div u)
  then show ?thesis by simp
qed

lemma reached_funding:
  assumes "new_full_channel S chain_hash txid txout sat local_msat feerates local remote lb rb lk rk funder = Some c0"
    and "sane_opening sat local remote" and "channel_run c0 evs c"
  shows "ch_funding_msat c div 1000 * 1000 = ch_funding_msat c" "ch_funding_txid c = txid" "ch_basepoints c = both lb rb"
    "ch_config c = both local remote" "ch_funding_pubkey c = both lk rk"
proof -
  note r = channel_run_inv(3) [OF assms(3) new_full_channel_inv(1,2) [OF assms(1,2)]]
  note f = new_full_channel_fields [OF assms(1)]
  show "ch_funding_txid c = txid" "ch_basepoints c = both lb rb" "ch_config c = both local remote" "ch_funding_pubkey c = both lk rk"
    using r f by (simp_all add: same_params_def)
  have "ch_funding_msat c = sat * 1000" using r f(3) by (simp add: same_params_def)
  then show "ch_funding_msat c div 1000 * 1000 = ch_funding_msat c"
    using assms(2) whole_funding [of sat] by (simp add: sane_opening_def)
qed

lemma byte_secp_keyset:
  "\<exists>k. derive_keyset byte_secp pt self oth = Some k"
  by (simp add: derive_keyset_def derive_simple_key_def derive_revocation_key_def byte_secp_def)

lemma sample_committed:
  assumes "sample_open = Some c0"
  shows "\<exists>c h. channel_run c0 [sample_offer, Op_sending_commit] c \<and> ch_htlcs c = Some [h] \<and> h_state h = SENT_ADD_COMMIT"
proof -
  let ?h = "offered_htlc LOCAL 7 10000000 500 (replicate 32 9) []"
  obtain c1 where c1: "channel_run c0 [sample_offer] c1" "ch_htlcs c1 = Some [?h]" using sample_run [OF assms] by blast
  note i = new_full_channel_inv(1,2) [OF assms [unfolded sample_open_def] sample_sane]
  note r = channel_run_inv [OF c1(1) i]
  obtain ok c where c: "run_op Op_sending_commit c1 = Some (ok, c)" using run_op_inv [OF r(1,2)] by blast
  then have "ok" by auto
  then have "channel_run c0 ([sample_offer] @ [Op_sending_commit]) c" using c by (intro run_step [OF c1(1)]) (simp add: channel_step_iff)
  moreover have "ch_htlcs c = Some (map (advance (op_states Op_sending_commit)) [?h])"
    by (rule run_op_advance [OF _ c c1(2)]) (simp add: commitment_round_def)
  moreover have "h_state (advance sending_commit_states ?h) = SENT_ADD_COMMIT"
    by (simp add: advance_def sending_commit_states_def offered_htlc_def new_state_def)
  ultimately show ?thesis by auto
qed

text \<open>
  C5: in every state a channel reaches, the transactions of either commitment can be built.
  There is one output per committed HTLC that is not trimmed, and one second-stage
  transaction per such output: it spends exactly that output of the commitment transaction,
  for its amount and through the witness script the output pays to.
\<close>

theorem channel_txs_spend_outputs:
  assumes "new_full_channel S chain_hash txid txout sat local_msat feerates local remote lb rb lk rk funder = Some c0"
    and "sane_opening sat local remote" and "channel_run c0 evs c" and "ch_htlcs c = Some hs"
    and "length txid = 32" and "length hs < 2 ^ 32 - 2"
    and "derive_keyset S pt (both lb rb s) (both lb rb (other s)) = Some k"
  shows "\<exists>txs m ws id. channel_txs S u c pt n s = Some (Some (txs, m, ws)) \<and> bitcoin_txid (txs ! 0) = Some id \<and>
    mset (slot_htlcs m) = mset (filter (\<lambda>h. htlc_has h (HTLC_FLAG s HTLC_F_COMMITTED) \<and>
      \<not> trim h (cv_feerate_per_kw (ch_view c s)) (cc_dust_limit_satoshis (both local remote s)) s) hs) \<and>
    length txs = Suc (length (slot_list m)) \<and> length ws = length txs \<and> length m = length (tx_output (txs ! 0)) \<and>
    ws ! 0 = bitcoin_redeem_2of2 S (both lk rk s) (both lk rk (other s)) \<and>
    (\<forall>i < length (slot_list m). spends_output (txs ! 0) id (txs ! Suc i) (ws ! Suc i) (slot_list m ! i))"
proof -
  note i = new_full_channel_inv(1,2) [OF assms(1,2)]
  note r = channel_run_inv(1,2) [OF assms(3) i] and f = reached_funding [OF assms(1-3)]
  have fl: "filter P (view_htlcs s hs) = filter (\<lambda>h. htlc_has h (HTLC_FLAG s HTLC_F_COMMITTED) \<and> P h) hs" for P
    by (simp add: view_htlcs_def htlc_has_is)
  show ?thesis
    using channel_txs_built [OF r assms(4) f(1), of S pt s k u n] assms(5-7) by (simp add: f fl)
qed

theorem channel_txs_spend_outputs_witness:
  "\<exists>c0 c txs m ws id. sample_open = Some c0 \<and> channel_run c0 [sample_offer, Op_sending_commit] c \<and>
    channel_txs byte_secp (\<lambda>_. 0) c 3 1 REMOTE = Some (Some (txs, m, ws)) \<and> bitcoin_txid (txs ! 0) = Some id \<and>
    (\<forall>i < length (slot_list m). spends_output (txs ! 0) id (txs ! Suc i) (ws ! Suc i) (slot_list m ! i))"
proof -
  obtain c0 where c0: "sample_open = Some c0" by (rule sample_opened)
  obtain c h where c: "channel_run c0 [sample_offer, Op_sending_commit] c" "ch_htlcs c = Some [h]"
    using sample_committed [OF c0] by blast
  obtain k where k: "derive_keyset byte_secp 3 (both (sample_points 10) (sample_points 20) REMOTE)
      (both (sample_points 10) (sample_points 20) (other REMOTE)) = Some k" using byte_secp_keyset by blast
  have l: "length (replicate 32 (1 :: u8)) = 32" "length [h] < 2 ^ 32 - 2" by simp_all
  show ?thesis
    using channel_txs_spend_outputs [OF c0 [unfolded sample_open_def] sample_sane c l k, of "\<lambda>_. 0" 1] c0 c(1) by blast
qed

text \<open>
  C4: the two peers of a channel build the same transactions and the same witness scripts for
  each commitment, whatever the orders in which the two walk their hash tables of HTLCs and
  whatever the expiries the code leaves uninitialised contain; the only exception would be two
  witness scripts of that commitment with the same SHA-256 hash.
\<close>

theorem peers_build_same_txs:
  assumes "new_full_channel S chain_hash txid txout sat local_msat feerates local remote lb rb lk rk funder = Some a0"
    and "new_full_channel S chain_hash txid txout sat (sat * 1000 - local_msat) (\<lambda>s. feerates (other s)) remote local rb lb rk lk
      (other funder) = Some b0"
    and "sane_opening sat local remote" and "channel_run a0 evs a" and "ch_htlcs a = Some ha"
  shows "\<exists>b hb. channel_run b0 (map dual evs) b \<and> ch_htlcs b = Some hb \<and>
    (\<forall>ha' hb' u u' pt n s. mset ha' = mset ha \<and> mset hb' = mset hb \<longrightarrow>
       txs_of (channel_txs S u (a\<lparr>ch_htlcs := Some ha'\<rparr>) pt n s) =
         txs_of (channel_txs S u' (b\<lparr>ch_htlcs := Some hb'\<rparr>) pt n (other s)) \<or>
       (\<exists>k. derive_keyset S pt (both lb rb s) (both lb rb (other s)) = Some k \<and>
          \<not> no_collisions S (cc_to_self_delay (both local remote (other s))) k s
              (filter (\<lambda>h. htlc_has h (HTLC_FLAG s HTLC_F_COMMITTED)) ha)))"
proof -
  note i = new_full_channel_inv(1,2) [OF assms(1,3)]
  note r = channel_run_inv(1,2) [OF assms(4) i] and f = reached_funding [OF assms(1,3,4)]
  obtain b where b: "channel_run b0 (map dual evs) b" "agree a b"
    using agree_run [OF assms(4) agree_open [OF assms(1,2)] i] by blast
  obtain hb where hb: "ch_htlcs b = Some hb" using b(2) by (auto simp: agree_def)
  have "txs_of (channel_txs S u (a\<lparr>ch_htlcs := Some ha'\<rparr>) pt n s) = txs_of (channel_txs S u' (b\<lparr>ch_htlcs := Some hb'\<rparr>) pt n (other s))"
    if m: "mset ha' = mset ha" "mset hb' = mset hb"
      and c: "\<And>k. derive_keyset S pt (both lb rb s) (both lb rb (other s)) = Some k \<Longrightarrow>
          no_collisions S (cc_to_self_delay (both local remote (other s))) k s
              (filter (\<lambda>h. htlc_has h (HTLC_FLAG s HTLC_F_COMMITTED)) ha)" for ha' hb' u u' pt n s
  proof (rule agree_txs [OF reordered_agree [OF b(2) assms(5) hb m] reordered_inv [OF r(1) assms(5) m(1)]])
    show "params_ok (opening_msat sat local_msat) (a\<lparr>ch_htlcs := Some ha'\<rparr>)" using r(2) by (simp add: params_ok_def channel_reserve_msat_def)
    show "ch_funding_msat (a\<lparr>ch_htlcs := Some ha'\<rparr>) div 1000 * 1000 = ch_funding_msat (a\<lparr>ch_htlcs := Some ha'\<rparr>)" using f(1) by simp
    fix k assume "derive_keyset S pt (ch_basepoints (a\<lparr>ch_htlcs := Some ha'\<rparr>) s) (ch_basepoints (a\<lparr>ch_htlcs := Some ha'\<rparr>) (other s)) = Some k"
    then show "no_collisions S (cc_to_self_delay (ch_config (a\<lparr>ch_htlcs := Some ha'\<rparr>) (other s))) k s (view_htlcs s ha')"
      using c [of k] mset_eq_setD [OF m(1)] by (simp add: f view_htlcs_def htlc_has_is no_collisions_def)
  qed simp
  with b(1) hb show ?thesis by blast
qed

theorem peers_build_same_txs_witness:
  "\<exists>a0 b0 a b. sample_open = Some a0 \<and> sample_peer_open = Some b0 \<and> channel_run a0 [sample_offer, Op_sending_commit] a \<and>
    channel_run b0 [dual sample_offer, Op_rcvd_commit] b \<and>
    (\<exists>h. ch_htlcs a = Some [h] \<and> h_state h = SENT_ADD_COMMIT \<and>
      (\<forall>u u'. txs_of (channel_txs byte_secp u a 3 1 REMOTE) = txs_of (channel_txs byte_secp u' b 3 1 LOCAL) \<or>
        (\<exists>k. \<not> no_collisions byte_secp 6 k REMOTE [h])))"
proof -
  obtain a0 where a0: "sample_open = Some a0" by (rule sample_opened)
  obtain b0 where b0: "sample_peer_open = Some b0" by (rule sample_peer_opened)
  obtain a h where a: "channel_run a0 [sample_offer, Op_sending_commit] a" "ch_htlcs a = Some [h]" and h: "h_state h = SENT_ADD_COMMIT"
    using sample_committed [OF a0] by blast
  obtain b hb where b: "channel_run b0 (map dual [sample_offer, Op_sending_commit]) b" and hb: "ch_htlcs b = Some hb"
    and r: "\<forall>ha' hb' u u' pt n s. mset ha' = mset [h] \<and> mset hb' = mset hb \<longrightarrow>
       txs_of (channel_txs byte_secp u (a\<lparr>ch_htlcs := Some ha'\<rparr>) pt n s) =
         txs_of (channel_txs byte_secp u' (b\<lparr>ch_htlcs := Some hb'\<rparr>) pt n (other s)) \<or>
       (\<exists>k. derive_keyset byte_secp pt (both (sample_points 10) (sample_points 20) s)
             (both (sample_points 10) (sample_points 20) (other s)) = Some k \<and>
          \<not> no_collisions byte_secp (cc_to_self_delay (both sample_config sample_config (other s))) k s
              (filter (\<lambda>h. htlc_has h (HTLC_FLAG s HTLC_F_COMMITTED)) [h]))"
    using peers_build_same_txs [OF a0 [unfolded sample_open_def] b0 [unfolded sample_peer_open_def] sample_sane a] by (elim exE conjE)
  have "a\<lparr>ch_htlcs := Some [h]\<rparr> = a" "b\<lparr>ch_htlcs := Some hb\<rparr> = b" using a(2) hb by simp_all
  with r have t: "\<And>u u' pt n s. txs_of (channel_txs byte_secp u a pt n s) = txs_of (channel_txs byte_secp u' b pt n (other s)) \<or>
       (\<exists>k. derive_keyset byte_secp pt (both (sample_points 10) (sample_points 20) s)
             (both (sample_points 10) (sample_points 20) (other s)) = Some k \<and>
          \<not> no_collisions byte_secp (cc_to_self_delay (both sample_config sample_config (other s))) k s
              (filter (\<lambda>h. htlc_has h (HTLC_FLAG s HTLC_F_COMMITTED)) [h]))"
    by metis
  have "filter (\<lambda>h. htlc_has h (HTLC_FLAG REMOTE HTLC_F_COMMITTED)) [h] = [h]"
    using h by (simp add: htlc_has_def htlc_state_flags_def flag_simps)
  then have "txs_of (channel_txs byte_secp u a 3 1 REMOTE) = txs_of (channel_txs byte_secp u' b 3 1 LOCAL) \<or>
        (\<exists>k. \<not> no_collisions byte_secp 6 k REMOTE [h])" for u u'
    using t [of u 3 1 REMOTE u'] by (auto simp: sample_config_def)
  moreover have "channel_run b0 [dual sample_offer, Op_rcvd_commit] b" using b by simp
  ultimately show ?thesis using a0 b0 a h by blast
qed

end
