(* ===== verification/ChannelRestore.thy ===== *)
theory ChannelRestore
  imports ChannelProtocol
begin

text \<open>
  Restarting a channel (\<open>channel_force_htlcs\<close>). After a restart the channel is opened again
  with the balances to which the finished HTLCs have been applied, and the other HTLCs, their
  preimages and their failures are put back. The lemmas follow the four loops of the code;
  together they show that this gives back the balances of both commitments.
\<close>

section \<open>What is saved of a channel\<close>

definition live_htlcs :: "htlc list \<Rightarrow> htlc list" where
  "live_htlcs hs = filter (\<lambda>h. \<not> htlc_is_dead h) hs"

definition export_added :: "htlc \<Rightarrow> added_htlc" where
  "export_added h = \<lparr>ad_id = h_id h, ad_amount_msat = h_msatoshi h, ad_payment_hash = h_rhash h,
     ad_cltv_expiry = h_expiry h, ad_onion_routing_packet = h_routing h\<rparr>"

definition export_fulfilled :: "htlc \<Rightarrow> fulfilled_htlc" where
  "export_fulfilled h = \<lparr>fu_id = h_id h, fu_payment_preimage = the (h_r h)\<rparr>"

definition is_fulfilled :: "htlc \<Rightarrow> bool" where
  "is_fulfilled h \<longleftrightarrow> h_r h \<noteq> None"

definition is_failed :: "htlc \<Rightarrow> bool" where
  "is_failed h \<longleftrightarrow> htlc_has h HTLC_REMOVING \<and> h_r h = None"

text \<open>The balance of a side when all finished HTLCs are applied to it.\<close>

definition settled_msat :: "(side \<Rightarrow> u64) \<Rightarrow> htlc list \<Rightarrow> side \<Rightarrow> u64" where
  "settled_msat base hs X = base X + (\<Sum>h \<leftarrow> filter htlc_is_dead hs. contribution LOCAL h X)"

text \<open>The HTLC as the first loop adds it, without what the later ones set.\<close>

definition bare_htlc :: "htlc \<Rightarrow> htlc" where
  "bare_htlc h = h\<lparr>h_r := None, h_shared_secret := None, h_fail := None, h_failcode := 0, h_failed_scid := None\<rparr>"

section \<open>Entries of the table\<close>

text \<open>A step that changes the HTLCs in place and keeps what they are found by.\<close>

definition in_place :: "(htlc \<Rightarrow> htlc) \<Rightarrow> bool" where
  "in_place g \<longleftrightarrow> (\<forall>h. h_state (g h) = h_state h \<and> h_id (g h) = h_id h \<and> h_msatoshi (g h) = h_msatoshi h)"

lemma in_place_match: "in_place g \<Longrightarrow> htlc_match i ow (g h) = htlc_match i ow h"
  by (simp add: in_place_def htlc_match_def htlc_has_def)

lemma in_place_ident: "in_place g \<Longrightarrow> htlc_ident (g h) = htlc_ident h"
  by (simp add: in_place_def htlc_ident_def htlc_owner_def)

lemma in_place_bare [simp]: "in_place bare_htlc"
  by (simp add: in_place_def bare_htlc_def)

lemma in_place_upd: "in_place g \<Longrightarrow> in_place g' \<Longrightarrow> in_place (\<lambda>x. if P x then g' x else g x)"
  by (simp add: in_place_def)

lemma find_distinct:
  assumes "distinct (map f xs)" "x \<in> set xs" "\<And>y. y \<in> set xs \<Longrightarrow> P y \<longleftrightarrow> f y = f x"
  shows "find P xs = Some x"
  using assms
proof (induction xs)
  case (Cons y ys)
  then show ?case by (cases "x = y") (auto simp: image_iff)
qed simp

lemma find_mapped: "find P (map g xs) = map_option g (find (P \<circ> g) xs)"
  by (induction xs) simp_all

lemma get_mapped:
  assumes "ch_htlcs c = Some (map g hs)" "in_place g" "distinct (map htlc_ident hs)" "h \<in> set hs"
    "\<And>x. x \<in> set hs \<Longrightarrow> h_state x \<noteq> HTLC_STATE_INVALID"
  shows "channel_get_htlc c (htlc_owner h) (h_id h) = Some (Some (g h))"
proof -
  have "find (htlc_match (h_id h) (htlc_owner h) \<circ> g) hs = Some h"
    using assms(2-5) by (intro find_distinct [of htlc_ident]) (auto simp: in_place_match htlc_match_ident htlc_ident_def)
  then show ?thesis by (simp add: channel_get_htlc_def assms(1) htlc_get_find find_mapped)
qed

lemma put_mapped:
  assumes "ch_htlcs c = Some (map g hs)" "in_place g" "distinct (map htlc_ident hs)" "h \<in> set hs"
    "\<And>x. x \<in> set hs \<Longrightarrow> h_state x \<noteq> HTLC_STATE_INVALID"
  shows "ch_htlcs (channel_put_htlc c (htlc_owner h) (h_id h) h') = Some (map (\<lambda>x. if x = h then h' else g x) hs)"
proof -
  obtain xs ys where hs: "hs = xs @ h # ys" using assms(4) by (metis split_list)
  then have n: "h \<notin> set xs" "h \<notin> set ys" using assms(3) by (auto simp: image_iff)
  have "\<not> htlc_match (h_id h) (htlc_owner h) (g x)" if "x \<in> set xs" for x
    using that assms(2,3,5) hs by (auto simp: in_place_match htlc_match_ident htlc_ident_def image_iff)
  moreover have "htlc_match (h_id h) (htlc_owner h) (g h)"
    using assms(2,4,5) by (simp add: in_place_match htlc_match_ident htlc_ident_def)
  ultimately have "htlc_put (map g xs @ g h # map g ys) (h_id h) (htlc_owner h) h' = map g xs @ h' # map g ys"
    by (intro htlc_put_split) simp_all
  moreover have "map (\<lambda>x. if x = h then h' else g x) xs = map g xs" "map (\<lambda>x. if x = h then h' else g x) ys = map g ys"
    using n by auto
  ultimately show ?thesis by (simp add: channel_put_htlc_def assms(1) hs)
qed

section \<open>The loops\<close>

definition same_view :: "'pk channel \<Rightarrow> 'pk channel \<Rightarrow> bool" where
  "same_view c c' \<longleftrightarrow> ch_view c' = ch_view c \<and> ch_changes_pending c' = ch_changes_pending c \<and> same_params c c'"

lemma same_view_refl [simp]: "same_view c c"
  by (simp add: same_view_def)

lemma same_view_put: "same_view (channel_put_htlc c ow i h) c' = same_view c c'"
  by (simp add: same_view_def same_params_def channel_put_htlc_def)

lemma has_in_place: "in_place g \<Longrightarrow> htlc_has (g h) f = htlc_has h f"
  by (simp add: in_place_def htlc_has_def)

lemma force_fulfill_loop:
  assumes "distinct (map htlc_ident hs)" "\<And>x. x \<in> set hs \<Longrightarrow> h_state x \<noteq> HTLC_STATE_INVALID"
    and "ch_htlcs c = Some (map g hs)" "in_place g" "distinct fs" "set fs \<subseteq> set hs"
    and "\<And>h. h \<in> set fs \<Longrightarrow> h_r h \<noteq> None \<and> htlc_has h HTLC_REMOVING \<and> h_r (g h) = None \<and> h_fail (g h) = None \<and> h_failcode (g h) = 0"
  shows "\<exists>c'. force_fulfill c (zip (map export_fulfilled fs) (map htlc_owner fs)) = Some (True, c') \<and> same_view c c' \<and>
    ch_htlcs c' = Some (map (\<lambda>x. if x \<in> set fs then (g x)\<lparr>h_r := h_r x\<rparr> else g x) hs)"
  using assms(3-)
proof (induction fs arbitrary: c g)
  case Nil
  then show ?case by simp
next
  case (Cons f fs)
  let ?g = "\<lambda>x. if x = f then (g x)\<lparr>h_r := h_r x\<rparr> else g x"
  let ?c = "channel_put_htlc c (htlc_owner f) (h_id f) ((g f)\<lparr>h_r := h_r f\<rparr>)"
  have f: "f \<in> set hs" "f \<notin> set fs" using Cons.prems(3,4) by auto
  have gf: "h_r (g f) = None" "h_fail (g f) = None" "h_failcode (g f) = 0" "htlc_has (g f) HTLC_REMOVING" "Some (the (h_r f)) = h_r f"
    using Cons.prems(5) [of f] Cons.prems(2) by (auto simp: has_in_place)
  have "(\<lambda>x. if x = f then (g f)\<lparr>h_r := h_r f\<rparr> else g x) = ?g" by auto
  then have c: "ch_htlcs ?c = Some (map ?g hs)" using put_mapped [OF Cons.prems(1,2) assms(1) f(1) assms(2)] by simp
  have ip: "in_place ?g" using Cons.prems(2) by (simp add: in_place_def)
  have q: "h_r h \<noteq> None \<and> htlc_has h HTLC_REMOVING \<and> h_r (?g h) = None \<and> h_fail (?g h) = None \<and> h_failcode (?g h) = 0"
    if "h \<in> set fs" for h using Cons.prems(5) [of h] that f(2) by auto
  obtain c' where c': "force_fulfill ?c (zip (map export_fulfilled fs) (map htlc_owner fs)) = Some (True, c')" "same_view ?c c'"
    "ch_htlcs c' = Some (map (\<lambda>x. if x \<in> set fs then (?g x)\<lparr>h_r := h_r x\<rparr> else ?g x) hs)"
    using Cons.IH [OF c ip _ _ q] Cons.prems(3,4) by auto
  have "force_fulfill c (zip (map export_fulfilled (f # fs)) (map htlc_owner (f # fs))) = Some (True, c')"
    using c'(1) get_mapped [OF Cons.prems(1,2) assms(1) f(1) assms(2)]
    by (simp add: export_fulfilled_def gf)
  moreover have "(\<lambda>x. if x \<in> set fs then (?g x)\<lparr>h_r := h_r x\<rparr> else ?g x) =
      (\<lambda>x. if x \<in> set (f # fs) then (g x)\<lparr>h_r := h_r x\<rparr> else g x)" using f(2) by auto
  ultimately show ?case using c'(2,3) by (auto simp: same_view_put)
qed

definition set_failure :: "failed_htlc \<Rightarrow> htlc \<Rightarrow> htlc" where
  "set_failure f h = h\<lparr>h_failcode := fa_failcode f, h_fail := fa_failreason f, h_failed_scid := fa_scid f\<rparr>"

lemma force_fail_loop:
  assumes "distinct (map htlc_ident hs)" "\<And>x. x \<in> set hs \<Longrightarrow> h_state x \<noteq> HTLC_STATE_INVALID"
    and "\<And>h. fa_id (fd h) = h_id h"
    and "ch_htlcs c = Some (map g hs)" "in_place g" "distinct fs" "set fs \<subseteq> set hs"
    and "\<And>h. h \<in> set fs \<Longrightarrow> htlc_has h HTLC_REMOVING \<and> h_r (g h) = None \<and> h_fail (g h) = None \<and> h_failcode (g h) = 0"
  shows "\<exists>c'. force_fail nf c i (zip (map fd fs) (map htlc_owner fs)) = Some (True, c') \<and> same_view c c' \<and>
    ch_htlcs c' = Some (map (\<lambda>x. if x \<in> set fs then set_failure (fd x) (g x) else g x) hs)"
  using assms(4-)
proof (induction fs arbitrary: c g i)
  case Nil
  then show ?case by simp
next
  case (Cons f fs)
  let ?g = "\<lambda>x. if x = f then set_failure (fd x) (g x) else g x"
  let ?c = "channel_put_htlc c (htlc_owner f) (h_id f) (set_failure (fd f) (g f))"
  have f: "f \<in> set hs" "f \<notin> set fs" using Cons.prems(3,4) by auto
  have gf: "h_r (g f) = None" "h_fail (g f) = None" "h_failcode (g f) = 0" "htlc_has (g f) HTLC_REMOVING"
    using Cons.prems(5) [of f] Cons.prems(2) by (auto simp: has_in_place)
  have "(\<lambda>x. if x = f then set_failure (fd f) (g f) else g x) = ?g" by auto
  then have c: "ch_htlcs ?c = Some (map ?g hs)" using put_mapped [OF Cons.prems(1,2) assms(1) f(1) assms(2)] by simp
  have ip: "in_place ?g" using Cons.prems(2) by (simp add: in_place_def set_failure_def)
  have q: "htlc_has h HTLC_REMOVING \<and> h_r (?g h) = None \<and> h_fail (?g h) = None \<and> h_failcode (?g h) = 0"
    if "h \<in> set fs" for h using Cons.prems(5) [of h] that f(2) by auto
  obtain c' where c': "force_fail nf ?c (Suc i) (zip (map fd fs) (map htlc_owner fs)) = Some (True, c')" "same_view ?c c'"
    "ch_htlcs c' = Some (map (\<lambda>x. if x \<in> set fs then set_failure (fd x) (?g x) else ?g x) hs)"
    using Cons.IH [OF c ip _ _ q] Cons.prems(3,4) by auto
  have "force_fail nf c i (zip (map fd (f # fs)) (map htlc_owner (f # fs))) = Some (True, c')"
    using c'(1) get_mapped [OF Cons.prems(1,2) assms(1) f(1) assms(2)]
    by (simp add: assms(3) gf set_failure_def)
  moreover have "(\<lambda>x. if x \<in> set fs then set_failure (fd x) (?g x) else ?g x) =
      (\<lambda>x. if x \<in> set (f # fs) then set_failure (fd x) (g x) else g x)" using f(2) by auto
  ultimately show ?case using c'(2,3) by (auto simp: same_view_put)
qed

lemma force_adjust_loop:
  assumes "distinct (map htlc_ident hs)" "\<And>x. x \<in> set hs \<Longrightarrow> h_state x \<noteq> HTLC_STATE_INVALID"
    and "in_place g" "ch_htlcs c = Some (map g hs)" "set as \<subseteq> set hs"
    and "\<And>h v. h \<in> set as \<Longrightarrow> is_was_committed v (h_state h) \<Longrightarrow> \<not> is_committed v (h_state h) \<Longrightarrow>
      h_fail (g h) \<noteq> None \<or> h_failcode (g h) \<noteq> 0 \<or> h_r (g h) \<noteq> None"
  shows "force_adjust c (zip (map export_added as) (map h_state as)) =
    Some (True, shift_owed (\<lambda>v X. \<Sum>h\<leftarrow>as. contribution v (g h) X) c)"
  using assms(4-)
proof (induction as arbitrary: c)
  case Nil
  then show ?case by simp
next
  case (Cons a as)
  have "channel_get_htlc c (htlc_owner a) (h_id a) = Some (Some (g a))"
    using Cons.prems(2) by (intro get_mapped [OF Cons.prems(1) assms(3,1) _ assms(2)]) simp
  then have "channel_get_htlc c (htlc_state_owner (h_state a)) (ad_id (export_added a)) = Some (Some (g a))"
    by (simp add: export_added_def htlc_owner_def)
  moreover have "h_state (g a) = h_state a" using assms(3) by (simp add: in_place_def)
  then have "adjust_balance c (g a) = (True, shift_owed (\<lambda>v x. contribution v (g a) x) c)"
    using Cons.prems(3) [of a] by (intro adjust_balance_contribution) auto
  ultimately show ?case using Cons.IH [of "shift_owed (\<lambda>v x. contribution v (g a) x) c"] Cons.prems by (simp add: add.commute)
qed

text \<open>Adding without the aggregate limits.\<close>

definition mark_pending :: "htlc_state \<Rightarrow> 'pk channel \<Rightarrow> 'pk channel" where
  "mark_pending st c = c\<lparr>ch_changes_pending := \<lambda>v. ch_changes_pending c v \<or> is_pending v st\<rparr>"

lemma pending_updates:
  "(let c = (if htlc_state_flags st AND HTLC_LOCAL_F_PENDING \<noteq> 0 then set_changes_pending c LOCAL True else c);
        c = (if htlc_state_flags st AND HTLC_REMOTE_F_PENDING \<noteq> 0 then set_changes_pending c REMOTE True else c)
    in c) = mark_pending st c"
proof -
  have p: "is_pending LOCAL st \<longleftrightarrow> htlc_state_flags st AND HTLC_LOCAL_F_PENDING \<noteq> 0"
    "is_pending REMOTE st \<longleftrightarrow> htlc_state_flags st AND HTLC_REMOTE_F_PENDING \<noteq> 0"
    by (simp_all add: is_pending_def flag_simps)
  have "(\<lambda>v. ch_changes_pending c v \<or> is_pending v st) =
      (let f = (if is_pending LOCAL st then (ch_changes_pending c)(LOCAL := True) else ch_changes_pending c)
       in if is_pending REMOTE st then f(REMOTE := True) else f)"
    by (rule ext) (rename_tac v, case_tac v; simp add: Let_def)
  then show ?thesis
    unfolding mark_pending_def p [symmetric] set_changes_pending_def Let_def by (simp split: if_splits)
qed

lemma add_htlc_unlimited:
  assumes h: "ch_htlcs c = Some hs" and x: "htlc_ok c x" "\<forall>y\<in>set hs. h_state y \<noteq> HTLC_STATE_INVALID \<and> htlc_ident y \<noteq> htlc_ident x"
    and g: "gather_htlcs c (other X) = (cm, rm, ad)" and X: "X = htlc_owner x"
    and nonneg: "0 \<le> sint (cv_owed_msat (ch_view c (other X)) X)"
      "0 \<le> sint (fold (\<lambda>h b. b + balance_removing_htlc h X) rm (cv_owed_msat (ch_view c (other X)) X))"
  shows "add_htlc c (h_state x) (h_id x) (h_msatoshi x) (h_expiry x) (h_rhash x) (h_routing x) False =
    Some (CHANNEL_ERR_ADD_OK, mark_pending (h_state x) (c\<lparr>ch_htlcs := Some (hs @ [bare_htlc x])\<rparr>), Some (bare_htlc x))"
proof -
  have v: "htlc_state_owner_assert (h_state x)"
    using x(1) by (cases "h_state x") (simp_all add: htlc_ok_def htlc_state_owner_assert_def)
  have e: "blocks_to_abs_locktime (h_expiry x) = (True, h_expiry x)"
    using x(1) by (simp add: htlc_ok_def locktime_defs not_le)
  have n: "\<lparr>h_state = h_state x, h_id = h_id x, h_msatoshi = h_msatoshi x, h_expiry = h_expiry x, h_rhash = h_rhash x, h_r = None,
      h_shared_secret = None, h_routing = h_routing x, h_fail = None, h_failcode = 0, h_failed_scid = None\<rparr> = bare_htlc x"
    by (simp add: bare_htlc_def)
  have o: "htlc_state_owner (h_state x) = X" "htlc_owner (bare_htlc x) = X" "h_id (bare_htlc x) = h_id x"
    "h_msatoshi (bare_htlc x) = h_msatoshi x" "h_state (bare_htlc x) = h_state x" by (simp_all add: X htlc_owner_def bare_htlc_def)
  have "htlc_get hs (h_id x) X = None"
    using x(2) by (auto simp: htlc_get_find find_None_iff htlc_match_ident X htlc_ident_def)
  moreover have "add_htlc_limits c (bare_htlc x) X (other X) cm rm (ad @ [bare_htlc x]) False = Some None"
    using nonneg add_fee_range(1) [of c X cm rm "ad @ [bare_htlc x]"]
    by (cases "ch_funder c = X") (simp_all add: add_htlc_limits_def add_fee_def o Let_def not_less)
  ultimately show ?thesis
    using x(1) g h pending_updates [of "h_state x" "c\<lparr>ch_htlcs := Some (hs @ [bare_htlc x])\<rparr>"]
    by (simp add: add_htlc_def v e n o htlc_ok_def not_less Let_def X [symmetric])
qed

text \<open>What the first loop adds to a balance while it checks the next HTLC stays in range.\<close>

definition returned :: "side \<Rightarrow> htlc list \<Rightarrow> int" where
  "returned X hs = (\<Sum>h \<leftarrow> filter (\<lambda>h. htlc_owner h = X \<and> is_committed (other X) (h_state h)) hs. uint (h_msatoshi h))"

lemma fold_removing_bare:
  assumes "0 \<le> uint b + returned X hs" "uint b + returned X hs < 2 ^ 63"
    and "rm = filter (\<lambda>h. is_committed (other X) (h_state h) \<and> is_pending (other X) (h_state h)) (map bare_htlc hs)"
  shows "0 \<le> sint (fold (\<lambda>h b. b + balance_removing_htlc h X) rm b)"
proof -
  let ?R = "\<lambda>hs. \<Sum>h \<leftarrow> filter (\<lambda>h. htlc_owner h = X \<and> is_committed (other X) (h_state h) \<and> is_pending (other X) (h_state h)) hs.
    uint (h_msatoshi h)"
  have "fold (\<lambda>h b. b + balance_removing_htlc h X)
      (filter (\<lambda>h. is_committed (other X) (h_state h) \<and> is_pending (other X) (h_state h)) (map bare_htlc hs)) b = b + of_int (?R hs)" for b
    by (induction hs arbitrary: b) (auto simp: balance_removing_htlc_def bare_htlc_def htlc_owner_def)
  then have f: "fold (\<lambda>h b. b + balance_removing_htlc h X) rm b = of_int (uint b + ?R hs)" by (simp add: assms(3))
  have r0: "0 \<le> ?R hs" by (rule sum_list_nonneg) auto
  have "?R hs \<le> returned X hs"
    unfolding returned_def by (induction hs) (auto intro: add_increasing)
  then have "uint b + ?R hs < 2 ^ 63" using assms(2) by simp
  moreover have "0 \<le> uint b + ?R hs" using r0 uint_ge_0 [of b] by linarith
  ultimately show ?thesis unfolding f by (subst sint_of_int_u64) simp_all
qed

lemma force_add_loop:
  assumes ok: "\<And>h. h \<in> set (hs @ as) \<Longrightarrow> htlc_ok c h" and d: "distinct (map htlc_ident (hs @ as))"
    and c: "ch_htlcs c = Some (map bare_htlc hs)"
    and range: "\<And>X. uint (cv_owed_msat (ch_view c (other X)) X) + returned X (hs @ as) < 2 ^ 63"
  shows "\<exists>c'. force_add c (zip (map export_added as) (map h_state as)) = Some (True, c') \<and>
    ch_htlcs c' = Some (map bare_htlc (hs @ as)) \<and> ch_view c' = ch_view c \<and> same_params c c' \<and>
    (\<forall>v. ch_changes_pending c' v \<longleftrightarrow> ch_changes_pending c v \<or> (\<exists>h\<in>set as. is_pending v (h_state h)))"
  using assms
proof (induction as arbitrary: hs c)
  case Nil
  then show ?case by simp
next
  case (Cons a as)
  let ?X = "htlc_owner a" and ?c = "mark_pending (h_state a) (c\<lparr>ch_htlcs := Some (map bare_htlc hs @ [bare_htlc a])\<rparr>)"
  let ?b = "cv_owed_msat (ch_view c (other ?X)) ?X"
  obtain cm rm ad where g: "gather_htlcs c (other ?X) = (cm, rm, ad)" by (metis prod_cases3)
  then have rm: "rm = filter (\<lambda>h. is_committed (other ?X) (h_state h) \<and> is_pending (other ?X) (h_state h)) (map bare_htlc hs)"
    using gather_htlcs_filter [OF Cons.prems(3), of "other ?X"] by simp
  have le: "returned X xs \<le> returned X (xs @ ys)" "0 \<le> returned X xs" for X xs ys
    unfolding returned_def by (auto intro: sum_list_nonneg)
  have u: "uint ?b + returned ?X hs < 2 ^ 63" using Cons.prems(4) [of ?X] le(1) [of ?X hs "a # as"] by linarith
  have "uint ?b < 2 ^ 63" using u le(2) [of ?X hs] by linarith
  then have n1: "0 \<le> sint ?b" by (subst sint_uint_u64) simp_all
  have n2: "0 \<le> sint (fold (\<lambda>h b. b + balance_removing_htlc h ?X) rm ?b)"
    using u le(2) [of ?X hs] by (intro fold_removing_bare [OF _ _ rm]) simp_all
  have bare: "h_state (bare_htlc y) = h_state y" for y by (simp add: bare_htlc_def)
  have x: "htlc_ok c a" "\<forall>y\<in>set (map bare_htlc hs). h_state y \<noteq> HTLC_STATE_INVALID \<and> htlc_ident y \<noteq> htlc_ident a"
    using Cons.prems(1,2) htlc_ok_valid [of c] bare by (auto simp: in_place_ident image_iff)
  note add = add_htlc_unlimited [OF Cons.prems(3) x g refl n1 n2]
  have p: "same_params c ?c" "ch_view ?c = ch_view c" "ch_htlcs ?c = Some (map bare_htlc (hs @ [a]))"
    by (simp_all add: mark_pending_def same_params_def)
  have "htlc_ok ?c h = htlc_ok c h" for h using p(1) by (intro htlc_ok_cong) (simp_all add: same_params_def)
  then obtain c' where "force_add ?c (zip (map export_added as) (map h_state as)) = Some (True, c')"
      "ch_htlcs c' = Some (map bare_htlc ((hs @ [a]) @ as))" "ch_view c' = ch_view ?c" "same_params ?c c'"
      "\<forall>v. ch_changes_pending c' v \<longleftrightarrow> ch_changes_pending ?c v \<or> (\<exists>h\<in>set as. is_pending v (h_state h))"
    using Cons.IH [of "hs @ [a]" ?c] Cons.prems(1,2,4) p(2,3) by auto
  moreover have "force_add c (zip (map export_added (a # as)) (map h_state (a # as))) =
      force_add ?c (zip (map export_added as) (map h_state as))"
    using add by (simp add: export_added_def)
  ultimately show ?case using p(1,2) by (auto simp: same_params_def mark_pending_def)
qed

section \<open>Restoring\<close>

lemma dead_stage: "h_state h \<noteq> HTLC_STATE_INVALID \<Longrightarrow> htlc_is_dead h \<longleftrightarrow> stage (h_state h) = 9"
  by (cases "h_state h") (simp_all add: htlc_is_dead_def stage_simps)

lemma stage_le_9: "stage s \<le> 9"
  by (simp add: stage_def)

lemma removing_stage: "h_state h \<noteq> HTLC_STATE_INVALID \<Longrightarrow> htlc_has h HTLC_REMOVING \<longleftrightarrow> 5 \<le> stage (h_state h) \<and> \<not> htlc_is_dead h"
  by (cases "h_state h") (simp_all add: stage_simps htlc_has_def htlc_is_dead_def htlc_state_flags_def flag_simps)

lemma dead_contribution:
  assumes "h_state h \<noteq> HTLC_STATE_INVALID" "htlc_is_dead h"
  shows "contribution v h X = of_int (share (9, 9, 9) X h)"
  using assms by (simp add: contribution_share dead_stage view_cut_def)

lemma sum_list_partition: "(\<Sum>x \<leftarrow> filter P xs. f x) + (\<Sum>x \<leftarrow> filter (\<lambda>x. \<not> P x) xs. f x) = (\<Sum>x\<leftarrow>xs. f x)"
  for f :: "'a \<Rightarrow> 'b :: comm_monoid_add"
  by (induction xs) (simp_all add: ac_simps)

lemma settled_msat_balance:
  assumes v: "\<forall>h\<in>set hs. h_state h \<noteq> HTLC_STATE_INVALID"
  shows "settled_msat base hs X = of_int (balance base hs X (9, 9, 9))"
proof -
  have "(\<Sum>h \<leftarrow> filter htlc_is_dead hs. contribution LOCAL h X) = of_int (\<Sum>h\<leftarrow>hs. share (9, 9, 9) X h)"
    using v
  proof (induction hs)
    case (Cons h hs)
    have "share (9, 9, 9) X h = 0" if "\<not> htlc_is_dead h"
      using that Cons.prems stage_le_9 [of "h_state h"] by (simp add: dead_stage)
    then show ?case using Cons dead_contribution [of h LOCAL X] by (auto simp del: share.simps)
  qed simp
  then show ?thesis by (simp add: settled_msat_def balance_def)
qed

lemma settled_msat_range:
  assumes v: "\<forall>h\<in>set hs. h_state h \<noteq> HTLC_STATE_INVALID" and s: "solvent base hs"
    and f: "uint (base LOCAL) + uint (base REMOTE) < 2 ^ 63"
  shows "uint (settled_msat base hs X) = balance base hs X (9, 9, 9)"
    "uint (settled_msat base hs LOCAL) + uint (settled_msat base hs REMOTE) = uint (base LOCAL) + uint (base REMOTE)"
proof -
  have "share (4, 7, 9) X h \<le> share (9, 9, 9) X h" for X h using uint_ge_0 [of "h_msatoshi h"] by simp
  then have "balance base hs X (4, 7, 9) \<le> balance base hs X (9, 9, 9)" for X
    unfolding balance_def by (intro add_left_mono sum_list_mono)
  moreover have "0 \<le> balance base hs X (4, 7, 9)" for X using s by (simp add: solvent_def cuts_def)
  ultimately have p: "0 \<le> balance base hs X (9, 9, 9)" for X using order_trans by blast
  have "(\<Sum>h\<leftarrow>hs. share (9, 9, 9) LOCAL h) + (\<Sum>h\<leftarrow>hs. share (9, 9, 9) REMOTE h) = 0"
  proof -
    have "share (9, 9, 9) LOCAL h + share (9, 9, 9) REMOTE h = 0" for h by (cases "htlc_owner h") simp_all
    then show ?thesis unfolding sum_list_addf [symmetric] by (simp del: share.simps)
  qed
  then have t: "balance base hs LOCAL (9, 9, 9) + balance base hs REMOTE (9, 9, 9) = uint (base LOCAL) + uint (base REMOTE)"
    by (simp add: balance_def)
  have b: "balance base hs X (9, 9, 9) < 2 ^ 63" for X using t p [of LOCAL] p [of REMOTE] f by (cases X) auto
  show u: "uint (settled_msat base hs X) = balance base hs X (9, 9, 9)" for X
    using p [of X] b [of X] by (simp add: settled_msat_balance [OF v] uint_word_of_int_eq take_bit_int_eq_self)
  show "uint (settled_msat base hs LOCAL) + uint (settled_msat base hs REMOTE) = uint (base LOCAL) + uint (base REMOTE)"
    unfolding u by (rule t)
qed

lemma returned_live:
  assumes "\<forall>h\<in>set hs. h_state h \<noteq> HTLC_STATE_INVALID"
  shows "returned X (live_htlcs hs) \<le> in_htlcs (other X) hs"
  unfolding returned_def in_htlcs_def live_htlcs_def by (induction hs) (auto intro: add_increasing)

text \<open>What the restored HTLCs have in common with the saved ones.\<close>

definition htlc_core :: "htlc \<Rightarrow> htlc_state \<times> u64 \<times> u64 \<times> u32 \<times> bytes \<times> bytes option \<times> bytes" where
  "htlc_core h = (h_state h, h_id h, h_msatoshi h, h_expiry h, h_rhash h, h_r h, h_routing h)"

definition with_preimage :: "htlc \<Rightarrow> htlc" where
  "with_preimage h = (bare_htlc h)\<lparr>h_r := h_r h\<rparr>"

definition restored_htlc :: "(htlc \<Rightarrow> failed_htlc) \<Rightarrow> htlc \<Rightarrow> htlc" where
  "restored_htlc fd h = (if is_failed h then set_failure (fd h) (with_preimage h) else with_preimage h)"

lemma restored_simps:
  "in_place with_preimage" "in_place (restored_htlc fd)" "htlc_core (restored_htlc fd h) = htlc_core h"
  by (simp_all add: in_place_def htlc_core_def restored_htlc_def set_failure_def with_preimage_def bare_htlc_def)

lemma restored_contribution: "contribution v (restored_htlc fd h) X = contribution v h X"
  using restored_simps(3) [of fd h]
  by (simp add: htlc_core_def contribution_def balance_adding_htlc_def balance_removing_htlc_def htlc_owner_def)

lemma restored_removal:
  assumes v: "h_state h \<noteq> HTLC_STATE_INVALID" and live: "\<not> htlc_is_dead h" and fd: "fa_failcode (fd h) \<noteq> 0 \<or> fa_failreason (fd h) \<noteq> None"
    and "is_was_committed side (h_state h)" "\<not> is_committed side (h_state h)"
  shows "h_fail (restored_htlc fd h) \<noteq> None \<or> h_failcode (restored_htlc fd h) \<noteq> 0 \<or> h_r (restored_htlc fd h) \<noteq> None"
proof -
  have "6 \<le> stage (h_state h)" using assms(4,5) committed_stage(1,2) [OF v, of side] by (auto split: if_splits)
  then have r: "htlc_has h HTLC_REMOVING" using removing_stage [OF v] live by simp
  show ?thesis
  proof (cases "h_r h")
    case None
    then show ?thesis using r fd by (auto simp: restored_htlc_def is_failed_def set_failure_def)
  qed (simp add: restored_htlc_def is_failed_def with_preimage_def)
qed

text \<open>The second and the third loop together.\<close>

lemma force_removals:
  assumes v: "\<And>h. h \<in> set hs \<Longrightarrow> htlc_ok c h" and live: "\<And>h. h \<in> set hs \<Longrightarrow> \<not> htlc_is_dead h"
    and d: "distinct (map htlc_ident hs)" and c: "ch_htlcs c = Some (map bare_htlc hs)" and fd: "\<And>h. fa_id (fd h) = h_id h"
  shows "\<exists>c2 c3. force_fulfill c (zip (map export_fulfilled (filter is_fulfilled hs)) (map htlc_owner (filter is_fulfilled hs))) =
      Some (True, c2) \<and>
    force_fail nf c2 0 (zip (map fd (filter is_failed hs)) (map htlc_owner (filter is_failed hs))) = Some (True, c3) \<and>
    same_view c c3 \<and> ch_htlcs c3 = Some (map (restored_htlc fd) hs)"
proof -
  have valid: "h_state h \<noteq> HTLC_STATE_INVALID" if "h \<in> set hs" for h using v [OF that] htlc_ok_valid by blast
  have dd: "distinct hs" using d distinct_map by blast
  have bare: "h_r (bare_htlc h) = None" "h_fail (bare_htlc h) = None" "h_failcode (bare_htlc h) = 0" for h
    by (simp_all add: bare_htlc_def)
  have p: "h_r h \<noteq> None \<and> htlc_has h HTLC_REMOVING \<and> h_r (bare_htlc h) = None \<and> h_fail (bare_htlc h) = None \<and>
      h_failcode (bare_htlc h) = 0" if "h \<in> set (filter is_fulfilled hs)" for h
  proof -
    have h: "h \<in> set hs" "h_r h \<noteq> None" using that by (auto simp: is_fulfilled_def)
    then have "5 \<le> stage (h_state h)" using v [OF h(1)] by (cases "h_r h") (simp_all add: htlc_ok_def)
    then show ?thesis using removing_stage [OF valid [OF h(1)]] live [OF h(1)] h(2) by (simp add: bare)
  qed
  have g: "map (\<lambda>x. if x \<in> set (filter is_fulfilled hs) then (bare_htlc x)\<lparr>h_r := h_r x\<rparr> else bare_htlc x) hs = map with_preimage hs"
    by (simp add: is_fulfilled_def with_preimage_def bare_htlc_def)
  obtain c2 where c2: "force_fulfill c (zip (map export_fulfilled (filter is_fulfilled hs)) (map htlc_owner (filter is_fulfilled hs))) =
      Some (True, c2)" "same_view c c2" "ch_htlcs c2 = Some (map with_preimage hs)"
    using force_fulfill_loop [where fs = "filter is_fulfilled hs", OF d valid c in_place_bare distinct_filter [OF dd] filter_is_subset p]
    unfolding g by blast
  have q: "htlc_has h HTLC_REMOVING \<and> h_r (with_preimage h) = None \<and> h_fail (with_preimage h) = None \<and> h_failcode (with_preimage h) = 0"
    if "h \<in> set (filter is_failed hs)" for h using that by (simp add: is_failed_def with_preimage_def bare)
  have g': "map (\<lambda>x. if x \<in> set (filter is_failed hs) then set_failure (fd x) (with_preimage x) else with_preimage x) hs =
      map (restored_htlc fd) hs" by (simp add: restored_htlc_def)
  obtain c3 where c3: "force_fail nf c2 0 (zip (map fd (filter is_failed hs)) (map htlc_owner (filter is_failed hs))) = Some (True, c3)"
    "same_view c2 c3" "ch_htlcs c3 = Some (map (restored_htlc fd) hs)"
    using force_fail_loop [where fs = "filter is_failed hs" and nf = nf and i = 0,
        OF d valid fd c2(3) restored_simps(1) distinct_filter [OF dd] filter_is_subset q]
    unfolding g' by blast
  have "same_view c c3" using c2(2) c3(2) by (simp add: same_view_def same_params_def)
  with c2(1) c3 show ?thesis by blast
qed

lemma force_htlcs_restores:
  assumes v: "\<And>h. h \<in> set hs \<Longrightarrow> htlc_ok r h" and live: "\<And>h. h \<in> set hs \<Longrightarrow> \<not> htlc_is_dead h"
    and d: "distinct (map htlc_ident hs)" and r: "ch_htlcs r = Some []"
    and range: "\<And>X. uint (cv_owed_msat (ch_view r (other X)) X) + returned X hs < 2 ^ 63"
    and fd: "\<And>h. fa_id (fd h) = h_id h" "\<And>h. fa_failcode (fd h) \<noteq> 0 \<or> fa_failreason (fd h) \<noteq> None"
  shows "\<exists>c. channel_force_htlcs r (map export_added hs) (map h_state hs)
      (map export_fulfilled (filter is_fulfilled hs)) (map htlc_owner (filter is_fulfilled hs))
      (map fd (filter is_failed hs)) (map htlc_owner (filter is_failed hs)) = Some (True, c) \<and>
    (\<forall>v X. cv_owed_msat (ch_view c v) X = cv_owed_msat (ch_view r v) X + (\<Sum>h\<leftarrow>hs. contribution v h X)) \<and>
    (\<forall>v. cv_feerate_per_kw (ch_view c v) = cv_feerate_per_kw (ch_view r v)) \<and> same_params r c \<and>
    (\<forall>v. ch_changes_pending c v \<longleftrightarrow> ch_changes_pending r v \<or> (\<exists>h\<in>set hs. is_pending v (h_state h))) \<and>
    ch_htlcs c = Some (map (restored_htlc fd) hs)"
proof -
  have valid: "h_state h \<noteq> HTLC_STATE_INVALID" if "h \<in> set hs" for h using v [OF that] htlc_ok_valid by blast
  have "set ([] @ hs) = set hs" by simp
  then obtain c1 where c1: "force_add r (zip (map export_added hs) (map h_state hs)) = Some (True, c1)"
    "ch_htlcs c1 = Some (map bare_htlc hs)" "ch_view c1 = ch_view r" "same_params r c1"
    "\<forall>v. ch_changes_pending c1 v \<longleftrightarrow> ch_changes_pending r v \<or> (\<exists>h\<in>set hs. is_pending v (h_state h))"
    using force_add_loop [of "[]" hs r] v d r range by auto
  have "htlc_ok c1 h" if "h \<in> set hs" for h
    using v [OF that] c1(4) htlc_ok_cong [of c1 r h] by (simp add: same_params_def)
  from force_removals [OF this live d c1(2) fd(1)] obtain c2 c3 where
    c2: "force_fulfill c1 (zip (map export_fulfilled (filter is_fulfilled hs)) (map htlc_owner (filter is_fulfilled hs))) = Some (True, c2)"
    and c3: "force_fail (length (filter is_fulfilled hs)) c2 0 (zip (map fd (filter is_failed hs)) (map htlc_owner (filter is_failed hs))) =
      Some (True, c3)" "same_view c1 c3" "ch_htlcs c3 = Some (map (restored_htlc fd) hs)" by blast
  have "force_adjust c3 (zip (map export_added hs) (map h_state hs)) =
      Some (True, shift_owed (\<lambda>v X. \<Sum>h\<leftarrow>hs. contribution v (restored_htlc fd h) X) c3)"
    by (rule force_adjust_loop [OF d valid restored_simps(2) c3(3) order_refl restored_removal [OF valid live fd(2)]])
  then have f: "channel_force_htlcs r (map export_added hs) (map h_state hs)
      (map export_fulfilled (filter is_fulfilled hs)) (map htlc_owner (filter is_fulfilled hs))
      (map fd (filter is_failed hs)) (map htlc_owner (filter is_failed hs)) =
      Some (True, shift_owed (\<lambda>v X. \<Sum>h\<leftarrow>hs. contribution v h X) c3)"
    using c1(1) c2 c3(1) by (simp add: channel_force_htlcs_def restored_contribution)
  have "same_params r c3" "ch_view c3 = ch_view r" "ch_changes_pending c3 = ch_changes_pending c1"
    using c1(3,4) c3(2) by (simp_all add: same_view_def same_params_def)
  then show ?thesis
    unfolding f using c1(5) c3(3) by (intro exI [of _ "shift_owed (\<lambda>v X. \<Sum>h\<leftarrow>hs. contribution v h X) c3"]) (simp add: same_params_def)
qed

section \<open>Properties\<close>

lemma settled_opening:
  assumes i: "channel_inv (opening_msat sat local_msat) c" and p: "params_ok (opening_msat sat local_msat) c"
    and h: "ch_htlcs c = Some hs" and f: "ch_funding_msat c = sat * 1000"
  shows "opening_msat sat (settled_msat (opening_msat sat local_msat) hs LOCAL) = settled_msat (opening_msat sat local_msat) hs"
    "uint (settled_msat (opening_msat sat local_msat) hs X) \<le> uint (ch_funding_msat c)"
proof -
  let ?b = "opening_msat sat local_msat"
  have v: "\<forall>h\<in>set hs. h_state h \<noteq> HTLC_STATE_INVALID" and s: "solvent ?b hs"
    using i h by (auto simp: channel_inv_def htlc_ok_valid)
  have q: "uint (?b LOCAL) + uint (?b REMOTE) = uint (ch_funding_msat c)" "uint (ch_funding_msat c) < 2 ^ 63"
    using p by (simp_all add: params_ok_def)
  note t = settled_msat_range(2) [OF v s] q
  have sum: "uint (settled_msat ?b hs LOCAL) + uint (settled_msat ?b hs REMOTE) = uint (sat * 1000)" using t f by simp
  then have "uint (settled_msat ?b hs LOCAL) \<le> uint (ch_funding_msat c)" "uint (settled_msat ?b hs REMOTE) \<le> uint (ch_funding_msat c)"
    unfolding f using uint_ge_0 [of "settled_msat ?b hs LOCAL"] uint_ge_0 [of "settled_msat ?b hs REMOTE"] by linarith+
  then show "uint (settled_msat ?b hs X) \<le> uint (ch_funding_msat c)" by (cases X) simp_all
  have "of_int (uint (settled_msat ?b hs LOCAL) + uint (settled_msat ?b hs REMOTE)) = sat * 1000" unfolding sum by simp
  then have "settled_msat ?b hs LOCAL + settled_msat ?b hs REMOTE = sat * 1000" by simp
  then have "sat * 1000 - settled_msat ?b hs LOCAL = settled_msat ?b hs REMOTE" by (metis add_diff_cancel_left')
  then show "opening_msat sat (settled_msat ?b hs LOCAL) = settled_msat ?b hs"
    by (intro ext) (rename_tac x, case_tac x; simp add: opening_msat_def)
qed

lemma settled_live_sum:
  assumes "\<forall>h\<in>set hs. h_state h \<noteq> HTLC_STATE_INVALID"
  shows "settled_msat base hs X + (\<Sum>h\<leftarrow>live_htlcs hs. contribution v h X) = base X + (\<Sum>h\<leftarrow>hs. contribution v h X)"
proof -
  have "(\<Sum>h \<leftarrow> filter htlc_is_dead hs. contribution LOCAL h X) = (\<Sum>h \<leftarrow> filter htlc_is_dead hs. contribution v h X)"
    using assms dead_contribution by (intro arg_cong [where f = sum_list] map_cong refl) simp
  then show ?thesis
    using sum_list_partition [where P = htlc_is_dead and xs = hs and f = "\<lambda>h. contribution v h X"]
    by (simp add: settled_msat_def live_htlcs_def add.assoc)
qed

lemma settled_range:
  assumes i: "channel_inv (opening_msat sat local_msat) c" and p: "params_ok (opening_msat sat local_msat) c"
    and h: "ch_htlcs c = Some hs" and f: "ch_funding_msat c = sat * 1000" and small: "uint (ch_funding_msat c) < 2 ^ 62"
  shows "uint (settled_msat (opening_msat sat local_msat) hs X) + returned X (live_htlcs hs) < 2 ^ 63"
proof -
  have v: "\<forall>h\<in>set hs. h_state h \<noteq> HTLC_STATE_INVALID" using i h by (auto simp: channel_inv_def htlc_ok_valid)
  have "returned X (live_htlcs hs) \<le> uint (ch_funding_msat c)"
    using returned_live [OF v, of X] owed_within_funding [OF i p h, of "other X" LOCAL]
      uint_ge_0 [of "cv_owed_msat (ch_view c (other X)) LOCAL"] uint_ge_0 [of "cv_owed_msat (ch_view c (other X)) (other LOCAL)"]
    by linarith
  then show ?thesis using settled_opening(2) [OF i p h f, of X] small by simp
qed

lemma live_pending:
  assumes "\<forall>h\<in>set hs. h_state h \<noteq> HTLC_STATE_INVALID"
  shows "(\<exists>h\<in>set (live_htlcs hs). is_pending v (h_state h)) \<longleftrightarrow> (\<exists>h\<in>set hs. is_pending v (h_state h))"
proof -
  have "\<not> is_pending v (h_state h)" if "h \<in> set hs" "htlc_is_dead h" for h
    using that assms committed_stage(3) [of "h_state h" v] dead_stage [of h] by simp
  then show ?thesis by (auto simp: live_htlcs_def)
qed

text \<open>
  C7: restarting a channel loses nothing. Open it again with the balances to which the finished
  HTLCs have been applied, and put back the other HTLCs, the known preimages and the
  failures: this succeeds, and both commitments of the restored channel have the balances,
  fees and HTLCs the channel had in the state the run reached, and the sides that have
  HTLC changes to commit are known.
\<close>

theorem restart_restores:
  assumes "new_full_channel S chain_hash txid txout sat local_msat feerates local remote lb rb lk rk funder = Some c0"
    and "sane_opening sat local remote" and "uint sat * 1000 < 2 ^ 62"
    and "channel_run c0 evs c" and "ch_htlcs c = Some hs"
    and "new_full_channel S chain_hash txid txout sat (settled_msat (opening_msat sat local_msat) hs LOCAL)
      (\<lambda>s. cv_feerate_per_kw (ch_view c s)) local remote lb rb lk rk funder = Some r"
    and "\<And>h. fa_id (fd h) = h_id h" and "\<And>h. fa_failcode (fd h) \<noteq> 0 \<or> fa_failreason (fd h) \<noteq> None"
  shows "\<exists>c'. channel_force_htlcs r (map export_added (live_htlcs hs)) (map h_state (live_htlcs hs))
      (map export_fulfilled (filter is_fulfilled (live_htlcs hs))) (map htlc_owner (filter is_fulfilled (live_htlcs hs)))
      (map fd (filter is_failed (live_htlcs hs))) (map htlc_owner (filter is_failed (live_htlcs hs))) = Some (True, c') \<and>
    (\<forall>v. cv_owed_msat (ch_view c' v) = cv_owed_msat (ch_view c v) \<and> cv_feerate_per_kw (ch_view c' v) = cv_feerate_per_kw (ch_view c v) \<and>
       (ch_changes_pending c' v \<longleftrightarrow> (\<exists>h\<in>set hs. htlc_has h (HTLC_FLAG v HTLC_F_PENDING)))) \<and>
    (\<exists>hr. ch_htlcs c' = Some hr \<and> map htlc_core hr = map htlc_core (live_htlcs hs))"
proof -
  let ?b = "opening_msat sat local_msat" and ?l = "live_htlcs hs"
  let ?s = "settled_msat ?b hs"
  note i = new_full_channel_inv [OF assms(1,2)] and f = new_full_channel_fields [OF assms(6)]
  note inv = channel_run_inv [OF assms(4) i(1,2)]
  have c: "ch_funding_msat c = sat * 1000" using inv(3) i(3) by (simp add: same_params_def)
  note st = settled_opening [OF inv(1,2) assms(5) c]
  have ok: "\<forall>h\<in>set hs. htlc_ok c h" and d: "distinct (map htlc_ident hs)"
    and o: "owed_ok ?b hs c" using inv(1) assms(5) by (auto simp: channel_inv_def)
  then have v: "\<forall>h\<in>set hs. h_state h \<noteq> HTLC_STATE_INVALID" using htlc_ok_valid by blast
  have w: "cv_owed_msat (ch_view r v) = ?s" for v using f(13) [of v] st(1) by (simp add: opening_msat_def)
  have "Some (ch_chainparams r) = Some (ch_chainparams c0)" using f(9) new_full_channel_fields(9) [OF assms(1)] by (rule trans [OF _ sym])
  then have "ch_config r = ch_config c" "ch_chainparams r = ch_chainparams c"
    using f(6) new_full_channel_fields(6) [OF assms(1)] inv(3) by (simp_all add: same_params_def)
  then have ok': "htlc_ok r h" if "h \<in> set ?l" for h using ok htlc_ok_cong [of r c h] that by (simp add: live_htlcs_def)
  have range: "uint (cv_owed_msat (ch_view r (other X)) X) + returned X ?l < 2 ^ 63" for X
    unfolding w using assms(2,3) uint_mult_1000 [of sat] c
    by (intro settled_range [OF inv(1,2) assms(5) c]) (simp add: sane_opening_def)
  have distinct: "distinct (map htlc_ident ?l)" using d by (simp add: live_htlcs_def distinct_map_filter)
  have live: "\<not> htlc_is_dead h" if "h \<in> set ?l" for h using that by (simp add: live_htlcs_def)
  obtain c' where
    c': "channel_force_htlcs r (map export_added ?l) (map h_state ?l) (map export_fulfilled (filter is_fulfilled ?l))
      (map htlc_owner (filter is_fulfilled ?l)) (map fd (filter is_failed ?l)) (map htlc_owner (filter is_failed ?l)) = Some (True, c')"
    "\<And>v X. cv_owed_msat (ch_view c' v) X = cv_owed_msat (ch_view r v) X + (\<Sum>h\<leftarrow>?l. contribution v h X)"
    "\<And>v. cv_feerate_per_kw (ch_view c' v) = cv_feerate_per_kw (ch_view r v)"
    "\<And>v. ch_changes_pending c' v \<longleftrightarrow> ch_changes_pending r v \<or> (\<exists>h\<in>set ?l. is_pending v (h_state h))"
    "ch_htlcs c' = Some (map (restored_htlc fd) ?l)"
    using force_htlcs_restores [where fd = fd, OF ok' live distinct f(10) range assms(7,8)] by blast
  have "cv_owed_msat (ch_view c' v) = cv_owed_msat (ch_view c v)" for v
  proof (rule ext)
    fix X
    have "cv_owed_msat (ch_view c' v) X = ?s X + (\<Sum>h\<leftarrow>?l. contribution v h X)" unfolding c'(2) w ..
    also have "\<dots> = cv_owed_msat (ch_view c v) X" using o settled_live_sum [OF v, of ?b X] by (simp only: owed_ok_def)
    finally show "cv_owed_msat (ch_view c' v) X = cv_owed_msat (ch_view c v) X" .
  qed
  moreover have "ch_changes_pending c' v \<longleftrightarrow> (\<exists>h\<in>set hs. htlc_has h (HTLC_FLAG v HTLC_F_PENDING))" for v
    using c'(4) [of v] f(11) live_pending [OF v, of v] by (cases v) (simp_all add: htlc_has_is)
  moreover have "map htlc_core (map (restored_htlc fd) ?l) = map htlc_core ?l" by (simp add: restored_simps(3))
  moreover have "cv_feerate_per_kw (ch_view c' v) = cv_feerate_per_kw (ch_view c v)" for v unfolding c'(3) f(12) ..
  ultimately show ?thesis by (intro exI [of _ c'] exI [of _ "map (restored_htlc fd) ?l"] conjI allI c'(1,5))
qed

definition sample_failure :: "htlc \<Rightarrow> failed_htlc" where
  "sample_failure h = \<lparr>fa_id = h_id h, fa_failcode = 1, fa_failreason = None, fa_scid = None\<rparr>"

theorem restart_restores_witness:
  "\<exists>c0 c (r :: u8 channel) c' h hr. sample_open = Some c0 \<and> channel_run c0 [sample_offer] c \<and> ch_htlcs c = Some [h] \<and> \<not> htlc_is_dead h \<and>
    channel_force_htlcs r [export_added h] [h_state h] [] [] [] [] = Some (True, c') \<and>
    (\<forall>v. cv_owed_msat (ch_view c' v) = cv_owed_msat (ch_view c v)) \<and> ch_htlcs c' = Some hr \<and> map htlc_core hr = [htlc_core h]"
proof -
  obtain c0 where c0: "sample_open = Some c0" by (rule sample_opened)
  let ?h = "offered_htlc LOCAL 7 10000000 500 (replicate 32 9) []"
  obtain c where c: "channel_run c0 [sample_offer] c" "ch_htlcs c = Some [?h]" using sample_run [OF c0] by blast
  have "h_state ?h = SENT_ADD_HTLC" by (simp add: new_state_def)
  then have h: "\<not> htlc_is_dead ?h" "\<not> is_fulfilled ?h" "\<not> is_failed ?h"
    by (simp_all add: htlc_is_dead_def is_fulfilled_def is_failed_def htlc_has_def htlc_state_flags_def flag_simps)
  then have l: "live_htlcs [?h] = [?h]" "settled_msat (opening_msat 100000 60000000) [?h] LOCAL = 60000000"
    by (simp_all add: live_htlcs_def settled_msat_def opening_msat_def)
  have "chainparams_by_chainhash (cp_genesis_blockhash (hd networks)) = Some (hd networks)"
    by (simp add: chainparams_by_chainhash_def networks_def)
  then obtain r where r: "new_full_channel byte_secp (cp_genesis_blockhash (hd networks)) (replicate 32 1) 0 100000
      (settled_msat (opening_msat 100000 60000000) [?h] LOCAL)
      (\<lambda>s. cv_feerate_per_kw (ch_view c s)) sample_config sample_config (sample_points 10) (sample_points 20) 1 2 LOCAL = Some r"
    unfolding l by (auto simp: new_full_channel_def new_initial_channel_def Let_def UINT64_MAX_def)
  have small: "uint (100000 :: u64) * 1000 < 2 ^ 62" by simp
  have fd: "fa_id (sample_failure h) = h_id h" "fa_failcode (sample_failure h) \<noteq> 0 \<or> fa_failreason (sample_failure h) \<noteq> None" for h
    by (simp_all add: sample_failure_def)
  from restart_restores [OF c0 [unfolded sample_open_def] sample_sane small c r fd] obtain c' hr where
    c': "channel_force_htlcs r [export_added ?h] [h_state ?h] [] [] [] [] = Some (True, c')"
    "\<forall>v. cv_owed_msat (ch_view c' v) = cv_owed_msat (ch_view c v)" "ch_htlcs c' = Some hr" "map htlc_core hr = [htlc_core ?h]"
    unfolding l(1) using h by auto
  show ?thesis by (intro exI [of _ c0] exI [of _ c] exI [of _ r] exI [of _ c'] exI [of _ ?h] exI [of _ hr] conjI c0 c h(1) c')
qed

end
