(* ===== verification/ChannelLimits.thy ===== *)
theory ChannelLimits
  imports ChannelProtocol
begin

text \<open>
  What the channel accepts. The checks of \<open>channel_add_htlc\<close> are compared with a verdict on
  the HTLCs that the peer's next commitment would have, and the places where the code does
  not do what it means to are pinned down: the fee that the checks subtract is a thousandth
  of the real one, and a refused fulfillment leaves its preimage behind.
\<close>

section \<open>The next commitment\<close>

definition next_htlcs :: "side \<Rightarrow> htlc list \<Rightarrow> htlc list" where
  "next_htlcs v hs = filter (\<lambda>h. is_committed v (h_state h) \<noteq> is_pending v (h_state h)) hs"

lemma gathered_sum:
  fixes f :: "htlc \<Rightarrow> 'b :: ab_group_add"
  assumes "gather_htlcs c v = (cm, rm, ad)" "ch_htlcs c = Some hs"
  shows "(\<Sum>h\<leftarrow>cm. f h) - (\<Sum>h\<leftarrow>rm. f h) + (\<Sum>h\<leftarrow>ad. f h) = (\<Sum>h\<leftarrow>next_htlcs v hs. f h)"
proof -
  have "cm = filter (\<lambda>h. is_committed v (h_state h)) hs" "rm = filter (\<lambda>h. is_committed v (h_state h) \<and> is_pending v (h_state h)) hs"
    "ad = filter (\<lambda>h. \<not> is_committed v (h_state h) \<and> is_pending v (h_state h)) hs"
    using assms gather_htlcs_filter [OF assms(2), of v] by simp_all
  moreover have "(\<Sum>h \<leftarrow> filter P xs. f h) - (\<Sum>h \<leftarrow> filter (\<lambda>h. P h \<and> Q h) xs. f h) + (\<Sum>h \<leftarrow> filter (\<lambda>h. \<not> P h \<and> Q h) xs. f h) =
      (\<Sum>h \<leftarrow> filter (\<lambda>h. P h \<noteq> Q h) xs. f h)" for P Q and xs :: "htlc list"
    by (induction xs) (auto simp: algebra_simps)
  ultimately show ?thesis by (simp only: next_htlcs_def)
qed

lemma of_nat_length: "(of_nat (length xs) :: u64) = (\<Sum>x\<leftarrow>xs. 1)"
  by (induction xs) simp_all

lemma of_nat_untrimmed: "(of_nat (commit_tx_num_untrimmed hs f d s) :: u64) = (\<Sum>h\<leftarrow>hs. if trim h f d s then 0 else 1)"
  unfolding num_untrimmed by (induction hs) (auto simp: algebra_simps)

lemma base_fee_word: "commit_tx_base_fee f (unat w) = commit_tx_base_fee f n" if "w = of_nat n" for w :: u64
  using that by (simp add: commit_tx_base_fee_def)

section \<open>The verdict on a new HTLC\<close>

text \<open>
  The fee is the one of the peer's next commitment, but its satoshis are counted as
  millisatoshis, as the code does.
\<close>

definition next_fee :: "'pk channel \<Rightarrow> side \<Rightarrow> htlc list \<Rightarrow> u64" where
  "next_fee c v hs =
     (let f = cv_feerate_per_kw (ch_view c v)
      in commit_tx_base_fee f (commit_tx_num_untrimmed (next_htlcs v hs) f (cc_dust_limit_satoshis (ch_config c v)) v))"

definition add_verdict :: "(side \<Rightarrow> u64) \<Rightarrow> 'pk channel \<Rightarrow> htlc list \<Rightarrow> side \<Rightarrow> htlc \<Rightarrow> channel_add_err" where
  "add_verdict base c hs X n =
     (let v = other X; config = ch_config c v; nxt = next_htlcs v (hs @ [n]) in
      if SECONDS_POINT \<le> h_expiry n then CHANNEL_ERR_INVALID_EXPIRY
      else case find (\<lambda>h. h_id h = h_id n \<and> htlc_owner h = X) hs of
        Some old \<Rightarrow>
          if (h_state old, h_msatoshi old, h_expiry old, h_rhash old) = (h_state n, h_msatoshi n, h_expiry n, h_rhash n)
          then CHANNEL_ERR_DUPLICATE else CHANNEL_ERR_DUPLICATE_ID_DIFFERENT
      | None \<Rightarrow>
          if h_msatoshi n = 0 \<or> h_msatoshi n < cc_htlc_minimum_msat config then CHANNEL_ERR_HTLC_BELOW_MINIMUM
          else if h_msatoshi n > cp_max_payment_msat (ch_chainparams c) then CHANNEL_ERR_MAX_HTLC_VALUE_EXCEEDED
          else if of_nat (length nxt) > (ucast (cc_max_accepted_htlcs config) :: u64) then CHANNEL_ERR_TOO_MANY_HTLCS
          else if (\<Sum>h \<leftarrow> nxt. if htlc_owner h = X then h_msatoshi h else 0) > cc_max_htlc_value_in_flight_msat config
          then CHANNEL_ERR_MAX_HTLC_VALUE_EXCEEDED
          else if balance base (hs @ [n]) X (0, 7, 5) - (if ch_funder c = X then uint (next_fee c v (hs @ [n])) else 0)
                    < uint (channel_reserve_msat c X)
          then CHANNEL_ERR_CHANNEL_CAPACITY_EXCEEDED
          else CHANNEL_ERR_ADD_OK)"

lemma add_fee_next:
  assumes "gather_htlcs c (other X) = (cm, rm, ad)" "ch_htlcs c = Some hs"
    "next_htlcs (other X) (hs @ [n]) = next_htlcs (other X) hs @ [n]"
  shows "uint (add_fee c X cm rm (ad @ [n])) = (if ch_funder c = X then uint (next_fee c (other X) (hs @ [n])) else 0)"
proof -
  let ?f = "cv_feerate_per_kw (ch_view c (other X))" and ?d = "cc_dust_limit_satoshis (ch_config c (other X))"
  have "(of_nat (commit_tx_num_untrimmed cm ?f ?d (other X)) + of_nat (commit_tx_num_untrimmed (ad @ [n]) ?f ?d (other X))
      - of_nat (commit_tx_num_untrimmed rm ?f ?d (other X)) :: u64) =
      of_nat (commit_tx_num_untrimmed (next_htlcs (other X) (hs @ [n])) ?f ?d (other X))"
    using gathered_sum [OF assms(1,2), of "\<lambda>h. if trim h ?f ?d (other X) then 0 else 1 :: u64"]
    unfolding of_nat_untrimmed assms(3) by (simp add: algebra_simps)
  from base_fee_word [OF this] show ?thesis by (simp add: add_fee_def next_fee_def pending_untrimmed_def Let_def)
qed

lemma channel_add_verdict:
  assumes inv: "channel_inv base c" and p: "params_ok base c" and h: "ch_htlcs c = Some hs"
    and n_def: "n = offered_htlc X i m e ph ro"
  shows "channel_add_htlc c X i m e ph ro = Some (
    if add_verdict base c hs X n = CHANNEL_ERR_ADD_OK
    then (CHANNEL_ERR_ADD_OK, set_changes_pending (c\<lparr>ch_htlcs := Some (hs @ [n])\<rparr>) (other X) True, Some n)
    else (add_verdict base c hs X n, c, None))"
proof -
  obtain cm rm ad where g: "gather_htlcs c (other X) = (cm, rm, ad)" by (metis prod_cases3)
  have v: "\<forall>h\<in>set hs. h_state h \<noteq> HTLC_STATE_INVALID" using inv h by (auto simp: channel_inv_def htlc_ok_valid)
  have "find (\<lambda>h. h_id h = i \<and> htlc_owner h = X) hs = htlc_get hs i X"
    unfolding htlc_get_find using v by (intro find_cong refl) (simp add: htlc_match_ident htlc_ident_def)
  then have f: "find (\<lambda>h. h_id h = h_id n \<and> htlc_owner h = X) hs = htlc_get hs i X" by (simp add: n_def)
  have st: "is_pending (other X) (new_state X)" "\<not> is_committed (other X) (new_state X)"
    by (cases X; simp add: new_state_def state_table_simps)+
  then have nx: "next_htlcs (other X) (hs @ [n]) = next_htlcs (other X) hs @ [n]" by (simp add: next_htlcs_def n_def)
  have count: "of_nat (length cm) - of_nat (length rm) + of_nat (length (ad @ [n])) =
      (of_nat (length (next_htlcs (other X) (hs @ [n]))) :: u64)"
    using gathered_sum [OF g h, of "\<lambda>_. 1 :: u64"] unfolding of_nat_length nx by (simp add: algebra_simps)
  have worth: "total_offered_msatoshis cm X - total_offered_msatoshis rm X + total_offered_msatoshis (ad @ [n]) X =
      (\<Sum>h \<leftarrow> next_htlcs (other X) (hs @ [n]). if htlc_owner h = X then h_msatoshi h else 0)"
    using gathered_sum [OF g h, of "\<lambda>h. if htlc_owner h = X then h_msatoshi h else 0"] unfolding total_offered_sum nx
    by (simp add: algebra_simps)
  have lim: "add_htlc_limits c n X (other X) cm rm (ad @ [n]) True = Some (
    if of_nat (length (next_htlcs (other X) (hs @ [n]))) > (ucast (cc_max_accepted_htlcs (ch_config c (other X))) :: u64)
    then Some CHANNEL_ERR_TOO_MANY_HTLCS
    else if (\<Sum>h \<leftarrow> next_htlcs (other X) (hs @ [n]). if htlc_owner h = X then h_msatoshi h else 0) >
      cc_max_htlc_value_in_flight_msat (ch_config c (other X)) then Some CHANNEL_ERR_MAX_HTLC_VALUE_EXCEEDED
    else if balance base (hs @ [n]) X (0, 7, 5) - (if ch_funder c = X then uint (next_fee c (other X) (hs @ [n])) else 0)
      < uint (channel_reserve_msat c X)
    then Some CHANNEL_ERR_CHANNEL_CAPACITY_EXCEEDED else None)" if "m \<le> cp_max_payment_msat (ch_chainparams c)"
    using add_htlc_limits_exact [OF inv h p _ _ _ g, of n] that unfolding count worth add_fee_next [OF g h nx] by (simp add: n_def)
  have s: "h_expiry n = e" "h_msatoshi n = m" "h_state n = new_state X" "h_rhash n = ph" by (simp_all add: n_def offered_htlc_def)
  show ?thesis
    unfolding channel_add_htlc_cases [OF h g n_def] add_verdict_def Let_def f s
    using lim by (cases "htlc_get hs i X") auto
qed

section \<open>Commitments\<close>

definition commit_side :: "channel_op \<Rightarrow> side option" where
  "commit_side ev = (case ev of Op_sending_commit \<Rightarrow> Some REMOTE | Op_rcvd_commit \<Rightarrow> Some LOCAL | _ \<Rightarrow> None)"

lemma commit_advance:
  assumes "commit_side ev = Some v" "h_state h \<noteq> HTLC_STATE_INVALID"
  shows "is_committed v (h_state (advance (op_states ev) h)) \<longleftrightarrow> is_committed v (h_state h) \<noteq> is_pending v (h_state h)"
    "is_committed (other v) (h_state (advance (op_states ev) h)) \<longleftrightarrow> is_committed (other v) (h_state h)"
    "is_was_committed (other v) (h_state (advance (op_states ev) h)) \<longleftrightarrow> is_was_committed (other v) (h_state h)"
    "\<not> is_pending v (h_state (advance (op_states ev) h))"
    "htlc_ident (advance (op_states ev) h) = htlc_ident h"
    "balance_adding_htlc (advance (op_states ev) h) X = balance_adding_htlc h X"
    "balance_removing_htlc (advance (op_states ev) h) X = balance_removing_htlc h X"
  using assms by (cases ev; cases "h_state h"; auto simp: commit_side_def advance_def sending_commit_states_def rcvd_commit_states_def
      state_table_simps htlc_ident_def htlc_owner_def htlc_state_owner_def balance_adding_htlc_def balance_removing_htlc_def)+

lemma filter_map_ident:
  assumes "\<And>h. h \<in> set hs \<Longrightarrow> P (g h) = Q h \<and> f (g h) = f h"
  shows "map f (filter P (map g hs)) = map f (filter Q hs)"
  using assms by (induction hs) auto

section \<open>Properties\<close>

text \<open>
  C8: the channel decides on a new HTLC exactly as the verdict on the peer's next commitment
  says, with the error of the first limit that is exceeded; a refused HTLC changes nothing,
  an accepted one is added and marks the peer's commitment as having changes.
\<close>

theorem add_htlc_decides:
  assumes "new_full_channel S chain_hash txid txout sat local_msat feerates local remote lb rb lk rk funder = Some c0"
    and "sane_opening sat local remote" and "channel_run c0 evs c" and "ch_htlcs c = Some hs"
    and "n = offered_htlc X i m e ph ro" and "err = add_verdict (opening_msat sat local_msat) c hs X n"
  shows "channel_add_htlc c X i m e ph ro = Some (
    if err = CHANNEL_ERR_ADD_OK
    then (CHANNEL_ERR_ADD_OK, set_changes_pending (c\<lparr>ch_htlcs := Some (hs @ [n])\<rparr>) (other X) True, Some n)
    else (err, c, None))"
  unfolding assms(6)
  by (rule channel_add_verdict [OF channel_run_inv(1,2) [OF assms(3) new_full_channel_inv(1,2) [OF assms(1,2)]] assms(4,5)])

theorem add_htlc_decides_witness:
  "\<exists>c0 c h. sample_open = Some c0 \<and> channel_run c0 [sample_offer] c \<and> ch_htlcs c = Some [h] \<and>
    channel_add_htlc c LOCAL 7 10000000 500 (replicate 32 9) [] = Some (CHANNEL_ERR_DUPLICATE, c, None) \<and>
    channel_add_htlc c LOCAL 8 0 500 (replicate 32 9) [] = Some (CHANNEL_ERR_HTLC_BELOW_MINIMUM, c, None)"
proof -
  obtain c0 where c0: "sample_open = Some c0" by (rule sample_opened)
  let ?h = "offered_htlc LOCAL 7 10000000 500 (replicate 32 9) []"
  obtain c where c: "channel_run c0 [sample_offer] c" "ch_htlcs c = Some [?h]" using sample_run [OF c0] by blast
  note d = add_htlc_decides [OF c0 [unfolded sample_open_def] sample_sane c refl refl]
  have "add_verdict (opening_msat 100000 60000000) c [?h] LOCAL (offered_htlc LOCAL 7 10000000 500 (replicate 32 9) []) =
      CHANNEL_ERR_DUPLICATE"
    "add_verdict (opening_msat 100000 60000000) c [?h] LOCAL (offered_htlc LOCAL 8 0 500 (replicate 32 9) []) =
      CHANNEL_ERR_HTLC_BELOW_MINIMUM"
    by (simp_all add: add_verdict_def SECONDS_POINT_def)
  with d [of LOCAL 7 10000000 500 "replicate 32 9" "[]"] d [of LOCAL 8 0 500 "replicate 32 9" "[]"] c0 c show ?thesis by auto
qed

text \<open>
  C9: committing applies exactly the pending changes. When a commitment for the side \<open>v\<close> is
  signed (\<open>Op_sending_commit\<close> for the peer, \<open>Op_rcvd_commit\<close> for us), the HTLCs in it are
  those of its next commitment, nothing is pending on it any more, and the other side's
  commitment keeps its HTLCs and its balances.
\<close>

theorem commit_applies_pending:
  assumes "new_full_channel S chain_hash txid txout sat local_msat feerates local remote lb rb lk rk funder = Some c0"
    and "sane_opening sat local remote" and "channel_run c0 evs c" and "ch_htlcs c = Some hs"
    and "commit_side ev = Some v"
  shows "\<exists>c' hs'. run_op ev c = Some (True, c') \<and> ch_htlcs c' = Some hs' \<and>
    map htlc_ident (filter (\<lambda>h. htlc_has h (HTLC_FLAG v HTLC_F_COMMITTED)) hs') = map htlc_ident (next_htlcs v hs) \<and>
    (\<forall>h\<in>set hs'. \<not> htlc_has h (HTLC_FLAG v HTLC_F_PENDING)) \<and>
    map htlc_ident (filter (\<lambda>h. htlc_has h (HTLC_FLAG (other v) HTLC_F_COMMITTED)) hs') =
      map htlc_ident (filter (\<lambda>h. htlc_has h (HTLC_FLAG (other v) HTLC_F_COMMITTED)) hs) \<and>
    cv_owed_msat (ch_view c' (other v)) = cv_owed_msat (ch_view c (other v))"
proof -
  note i = channel_run_inv(1,2) [OF assms(3) new_full_channel_inv(1,2) [OF assms(1,2)]]
  have ev: "ev \<in> set commitment_round" using assms(5) by (cases ev) (simp_all add: commit_side_def commitment_round_def)
  obtain ok c' where c': "run_op ev c = Some (ok, c')" "ok \<Longrightarrow> keeps_inv (opening_msat sat local_msat) c c'"
    using run_op_inv [OF i] by blast
  have ok: "ok" using ev c'(1) by (auto simp: commitment_round_def)
  let ?hs = "map (advance (op_states ev)) hs"
  have h': "ch_htlcs c' = Some ?hs" by (rule run_op_advance [OF ev c'(1) assms(4)])
  have v: "\<And>h. h \<in> set hs \<Longrightarrow> h_state h \<noteq> HTLC_STATE_INVALID" and o: "owed_ok (opening_msat sat local_msat) hs c"
    using i(1) assms(4) by (auto simp: channel_inv_def htlc_ok_valid)
  have o': "owed_ok (opening_msat sat local_msat) ?hs c'" using c'(2) ok h' by (simp add: keeps_inv_def channel_inv_def)
  note a = commit_advance [OF assms(5) v]
  have "contribution (other v) (advance (op_states ev) h) X = contribution (other v) h X" if "h \<in> set hs" for h X
    using that by (simp add: contribution_def a)
  then have "(\<Sum>h\<leftarrow>?hs. contribution (other v) h X) = (\<Sum>h\<leftarrow>hs. contribution (other v) h X)" for X
    by (simp add: o_def cong: map_cong)
  then have "cv_owed_msat (ch_view c' (other v)) = cv_owed_msat (ch_view c (other v))"
    using o o' by (intro ext) (simp add: owed_ok_def)
  moreover have "map htlc_ident (filter (\<lambda>h. is_committed v (h_state h)) ?hs) = map htlc_ident (next_htlcs v hs)"
    unfolding next_htlcs_def using a by (intro filter_map_ident) simp
  moreover have "map htlc_ident (filter (\<lambda>h. is_committed (other v) (h_state h)) ?hs) =
      map htlc_ident (filter (\<lambda>h. is_committed (other v) (h_state h)) hs)"
    using a by (intro filter_map_ident) simp
  moreover have "\<forall>h\<in>set ?hs. \<not> is_pending v (h_state h)" using a(4) by simp
  moreover have "run_op ev c = Some (True, c')" using c'(1) ok by simp
  ultimately show ?thesis using h' unfolding htlc_has_is by blast
qed

theorem commit_applies_pending_witness:
  "\<exists>c0 c c' hs'. sample_open = Some c0 \<and> channel_run c0 [sample_offer] c \<and> run_op Op_sending_commit c = Some (True, c') \<and>
    ch_htlcs c' = Some hs' \<and> map htlc_ident (filter (\<lambda>h. htlc_has h (HTLC_FLAG REMOTE HTLC_F_COMMITTED)) hs') = [(7, LOCAL)]"
proof -
  obtain c0 where c0: "sample_open = Some c0" by (rule sample_opened)
  let ?h = "offered_htlc LOCAL 7 10000000 500 (replicate 32 9) []"
  obtain c where c: "channel_run c0 [sample_offer] c" "ch_htlcs c = Some [?h]" using sample_run [OF c0] by blast
  have "map htlc_ident (next_htlcs REMOTE [?h]) = [(7, LOCAL)]"
    by (simp add: next_htlcs_def new_state_def state_table_simps htlc_ident_def)
  moreover have "commit_side Op_sending_commit = Some REMOTE" by (simp add: commit_side_def)
  note commit_applies_pending [OF c0 [unfolded sample_open_def] sample_sane c this]
  ultimately show ?thesis using c0 c(1) by metis
qed

text \<open>
  C37: the check that the funder can pay for a new HTLC counts a thousandth of the fee: there is
  a channel in which the funder's HTLC is accepted although the fee of the peer's next
  commitment is more than what the funder has left.
\<close>

theorem add_accepts_unaffordable_fee:
  "\<exists>(c :: u8 channel) c' n. new_full_channel byte_secp (cp_genesis_blockhash (hd networks)) (replicate 32 1) 0 100000 12000000
      (both 10000 10000) sample_config sample_config (sample_points 10) (sample_points 20) 1 2 LOCAL = Some c \<and>
    channel_add_htlc c LOCAL 0 10000000 500 (replicate 32 9) [] = Some (CHANNEL_ERR_ADD_OK, c', Some n) \<and>
    balance (opening_msat 100000 12000000) [n] LOCAL (0, 7, 5) < 1000 * uint (next_fee c REMOTE [n])"
proof -
  have "chainparams_by_chainhash (cp_genesis_blockhash (hd networks)) = Some (hd networks)"
    by (simp add: chainparams_by_chainhash_def networks_def)
  then obtain c where c: "new_full_channel byte_secp (cp_genesis_blockhash (hd networks)) (replicate 32 1) 0 100000 12000000
      (both 10000 10000) sample_config sample_config (sample_points 10) (sample_points 20) 1 2 LOCAL = Some (c :: u8 channel)"
    and p: "ch_chainparams c = hd networks"
    by (auto simp: new_full_channel_def new_initial_channel_def Let_def UINT64_MAX_def)
  note i = new_full_channel_inv [OF c sample_sane] and f = new_full_channel_fields [OF c]
  define n where "n = offered_htlc LOCAL 0 10000000 500 (replicate 32 9) []"
  have b: "balance (opening_msat 100000 12000000) [n] LOCAL (0, 7, 5) = 2000000"
    by (simp add: balance_def opening_msat_def n_def)
  have m: "cp_max_payment_msat (hd networks) = 0xFFFFFFFF" by (simp add: networks_def)
  have nx: "next_htlcs REMOTE [n] = [n]" by (simp add: next_htlcs_def n_def new_state_def state_table_simps)
  have "commit_tx_base_fee 10000 (commit_tx_num_untrimmed [n] 10000 546 REMOTE) = 8960" unfolding n_def by code_simp
  then have fee: "next_fee c REMOTE [n] = 8960" by (simp add: next_fee_def nx f sample_config_def)
  have r: "channel_reserve_msat c LOCAL = 1000000" by (simp add: channel_reserve_msat_def f sample_config_def)
  have s: "h_expiry n = 500" "h_msatoshi n = 10000000" "h_state n = SENT_ADD_HTLC" "htlc_owner n = LOCAL"
    by (simp_all add: n_def new_state_def)
  have "add_verdict (opening_msat 100000 12000000) c [] LOCAL n = CHANNEL_ERR_ADD_OK"
    by (simp add: add_verdict_def s nx b fee r f p m sample_config_def SECONDS_POINT_def)
  then have "channel_add_htlc c LOCAL 0 10000000 500 (replicate 32 9) [] =
      Some (CHANNEL_ERR_ADD_OK, set_changes_pending (c\<lparr>ch_htlcs := Some ([] @ [n])\<rparr>) (other LOCAL) True, Some n)"
    using channel_add_verdict [OF i(1,2,4) n_def] by simp
  with c b fee show ?thesis by (intro exI [of _ c] exI [of _ n] exI conjI) simp_all
qed

text \<open>
  C38: a fulfillment that is refused because the HTLC is not yet committed still stores the
  preimage, and every later fulfillment of that HTLC is refused as a duplicate.
\<close>

theorem refused_fulfill_keeps_preimage:
  assumes "ch_htlcs c = Some hs" and "htlc_get hs i ow = Some h" and "h_r h = None" and "sha256 preimage = h_rhash h"
    and "\<not> htlc_has h (HTLC_FLAG (other (htlc_owner h)) HTLC_F_COMMITTED)"
  shows "\<exists>c'. channel_fulfill_htlc c ow i preimage = Some (CHANNEL_ERR_HTLC_UNCOMMITTED, c', None) \<and>
    channel_get_htlc c' ow i = Some (Some (h\<lparr>h_r := Some preimage\<rparr>)) \<and>
    (\<forall>p. channel_fulfill_htlc c' ow i p = Some (CHANNEL_ERR_ALREADY_FULFILLED, c', None))"
proof -
  let ?h = "h\<lparr>h_r := Some preimage\<rparr>"
  let ?c = "channel_put_htlc c ow i ?h"
  obtain xs ys where s: "hs = xs @ h # ys" "htlc_match i ow h" "\<forall>x\<in>set xs. \<not> htlc_match i ow x"
    using assms(2) by (rule htlc_get_split)
  have m: "htlc_match i ow ?h" using s(2) by (simp add: htlc_match_def htlc_has_def)
  have f: "find P (zs @ z # ys) = Some z" if "\<forall>x\<in>set zs. \<not> P x" "P z" for P and z :: htlc and zs ys
    using that by (induction zs) auto
  have "ch_htlcs ?c = Some (xs @ ?h # ys)" using put_htlc [OF _ s(3,2)] assms(1) s(1) by simp
  then have g: "channel_get_htlc ?c ow i = Some (Some ?h)" using f [OF s(3) m] by (simp add: channel_get_htlc_def htlc_get_find)
  have "htlc_owner ?h = htlc_owner h" "htlc_has ?h f = htlc_has h f" for f by (simp_all add: htlc_owner_def htlc_has_def)
  then have "channel_fulfill_htlc c ow i preimage = Some (CHANNEL_ERR_HTLC_UNCOMMITTED, ?c, None)"
    using assms by (simp add: channel_fulfill_htlc_def channel_get_htlc_def Let_def)
  moreover have "channel_fulfill_htlc ?c ow i p = Some (CHANNEL_ERR_ALREADY_FULFILLED, ?c, None)" for p
    using g by (simp add: channel_fulfill_htlc_def)
  ultimately show ?thesis using g by blast
qed

theorem refused_fulfill_keeps_preimage_witness:
  "\<exists>(c :: u8 channel) c' h. channel_get_htlc c LOCAL 7 = Some (Some h) \<and> h_r h = None \<and>
    channel_fulfill_htlc c LOCAL 7 [1] = Some (CHANNEL_ERR_HTLC_UNCOMMITTED, c', None) \<and>
    channel_get_htlc c' LOCAL 7 = Some (Some (h\<lparr>h_r := Some [1]\<rparr>))"
proof -
  obtain c0 where "sample_open = Some c0" by (rule sample_opened)
  define h where "h = offered_htlc LOCAL 7 10000000 500 (sha256 [1]) []"
  let ?c = "c0\<lparr>ch_htlcs := Some [h]\<rparr>"
  have h: "h_r h = None" "sha256 [1] = h_rhash h" by (simp_all add: h_def offered_htlc_def)
  have st: "h_state h = SENT_ADD_HTLC" "h_id h = 7" "htlc_owner h = LOCAL" by (simp_all add: h_def new_state_def)
  have g: "htlc_get [h] 7 LOCAL = Some h" by (simp add: htlc_get_find htlc_match_ident htlc_ident_def st)
  have u: "\<not> htlc_has h (HTLC_FLAG (other (htlc_owner h)) HTLC_F_COMMITTED)"
    by (simp add: htlc_has_def st htlc_state_flags_def flag_simps)
  have c: "ch_htlcs ?c = Some [h]" by simp
  have "channel_get_htlc ?c LOCAL 7 = Some (Some h)" using g by (simp add: channel_get_htlc_def)
  with refused_fulfill_keeps_preimage [OF c g h u] h(1) show ?thesis by blast
qed

end
