(* ===== verification/Hkdf.thy ===== *)
theory Hkdf
  imports Sha256
begin

text \<open>
  HMAC and HKDF over SHA-256 (\<^verbatim>\<open>ccan/crypto/hmac_sha256\<close>, \<^verbatim>\<open>ccan/crypto/hkdf_sha256\<close>). A block of
  eight 64-bit words is its 64 bytes; the pads have eight equal bytes, so that \<open>xor_block\<close>
  changes each byte alone. The lemmas relate the contexts to the one-line definitions of
  RFC 2104 and RFC 5869.
\<close>

unbundle bit_operations_syntax

section \<open>HMAC\<close>

definition HMAC_SHA256_BLOCKSIZE :: nat where
  "HMAC_SHA256_BLOCKSIZE = 64"

definition IPAD :: u8 where
  "IPAD = 0x36"

definition OPAD :: u8 where
  "OPAD = 0x5C"

definition xor_block :: "bytes \<Rightarrow> u8 \<Rightarrow> bytes" where
  "xor_block block pad = map (\<lambda>b. b XOR pad) block"

record hmac_sha256_ctx =
  hm_sha :: hash_ctx
  hm_k_opad :: bytes

definition hmac_sha256_init :: "bytes \<Rightarrow> hmac_sha256_ctx option" where
  "hmac_sha256_init k =
     (let k = (if length k > HMAC_SHA256_BLOCKSIZE then sha256 k else k);
          k_ipad = k @ replicate (HMAC_SHA256_BLOCKSIZE - length k) 0;
          k_ipad = xor_block k_ipad IPAD
      in do {
        sha \<leftarrow> sha256_update sha256_init k_ipad;
        Some \<lparr>hm_sha = sha, hm_k_opad = xor_block k_ipad (IPAD XOR OPAD)\<rparr>
      })"

definition hmac_sha256_update :: "hmac_sha256_ctx \<Rightarrow> bytes \<Rightarrow> hmac_sha256_ctx option" where
  "hmac_sha256_update ctx p = do { sha \<leftarrow> sha256_update (hm_sha ctx) p; Some (ctx\<lparr>hm_sha := sha\<rparr>) }"

definition hmac_sha256_done :: "hmac_sha256_ctx \<Rightarrow> bytes option" where
  "hmac_sha256_done ctx =
     (let (_, hmac) = sha256_done (hm_sha ctx)
      in do {
        sha \<leftarrow> sha256_update sha256_init (hm_k_opad ctx);
        sha \<leftarrow> sha256_update sha hmac;
        Some (snd (sha256_done sha))
      })"

definition hmac_sha256 :: "bytes \<Rightarrow> bytes \<Rightarrow> bytes option" where
  "hmac_sha256 k d =
     do {
       ctx \<leftarrow> hmac_sha256_init k;
       ctx \<leftarrow> hmac_sha256_update ctx d;
       hmac_sha256_done ctx
     }"

section \<open>HKDF\<close>

text \<open>The loop: \<open>t\<close> is the last block, \<open>c\<close> its number.\<close>

function hkdf_blocks :: "bytes \<Rightarrow> bytes \<Rightarrow> nat \<Rightarrow> bytes \<Rightarrow> u8 \<Rightarrow> bytes option" where
  "hkdf_blocks prk info okm_size t c =
     (if okm_size > 32
      then
        let c' = c + 1
        in do {
          ctx \<leftarrow> hmac_sha256_init prk;
          ctx \<leftarrow> hmac_sha256_update ctx t;
          ctx \<leftarrow> hmac_sha256_update ctx info;
          ctx \<leftarrow> hmac_sha256_update ctx [c'];
          t' \<leftarrow> hmac_sha256_done ctx;
          okm \<leftarrow> hkdf_blocks prk info (okm_size - 32) t' c';
          Some (t @ okm)
        }
      else Some (take okm_size t))"
  by pat_completeness auto
termination by (relation "measure (\<lambda>(_, _, n, _, _). n)") auto

definition hkdf_sha256 :: "nat \<Rightarrow> bytes \<Rightarrow> bytes \<Rightarrow> bytes \<Rightarrow> bytes option" where
  "hkdf_sha256 okm_size s k info =
     (if \<not> okm_size < 255 * 32 then None
      else do {
        prk \<leftarrow> hmac_sha256 s k;
        ctx \<leftarrow> hmac_sha256_init prk;
        ctx \<leftarrow> hmac_sha256_update ctx info;
        ctx \<leftarrow> hmac_sha256_update ctx [1];
        t \<leftarrow> hmac_sha256_done ctx;
        hkdf_blocks prk info okm_size t 1
      })"

section \<open>The reference definitions\<close>

definition hmac_key :: "bytes \<Rightarrow> bytes" where
  "hmac_key k = (let k = (if length k > 64 then sha256 k else k) in k @ replicate (64 - length k) 0)"

definition hmac_ref :: "bytes \<Rightarrow> bytes \<Rightarrow> bytes" where
  "hmac_ref k m = sha256 (map (\<lambda>b. b XOR 0x5C) (hmac_key k) @ sha256 (map (\<lambda>b. b XOR 0x36) (hmac_key k) @ m))"

text \<open>\<open>T(n)\<close> of RFC 5869, and the output keying material.\<close>

primrec hkdf_t :: "bytes \<Rightarrow> bytes \<Rightarrow> nat \<Rightarrow> bytes" where
  "hkdf_t prk info 0 = []"
| "hkdf_t prk info (Suc n) = hmac_ref prk (hkdf_t prk info n @ info @ [of_nat (Suc n)])"

definition hkdf_ref :: "nat \<Rightarrow> bytes \<Rightarrow> bytes \<Rightarrow> bytes \<Rightarrow> bytes" where
  "hkdf_ref l s k info = take l (concat (map (hkdf_t (hmac_ref s k) info) [1..<Suc ((l + 31) div 32)]))"

lemma length_hmac_key: "length (hmac_key k) = 64"
  by (simp add: hmac_key_def Let_def)

lemma length_hmac_ref [simp]: "length (hmac_ref k m) = 32"
  by (simp add: hmac_ref_def)

lemma sha256_update_init: "length m < 2 ^ 64 - 1 \<Longrightarrow> \<exists>ctx. sha256_update sha256_init m = Some ctx \<and> sha256_rep ctx m"
  using sha256_update_rep [OF sha256_rep_init, of m] by (simp add: sha256_init_def)

text \<open>A context that has been fed the message \<open>m\<close> under the key \<open>k\<close>.\<close>

definition hmac_rep :: "hmac_sha256_ctx \<Rightarrow> bytes \<Rightarrow> bytes \<Rightarrow> bool" where
  "hmac_rep ctx k m \<longleftrightarrow> hm_k_opad ctx = map (\<lambda>b. b XOR 0x5C) (hmac_key k) \<and>
     sha256_rep (hm_sha ctx) (map (\<lambda>b. b XOR 0x36) (hmac_key k) @ m)"

lemma hmac_init_rep: "\<exists>ctx. hmac_sha256_init k = Some ctx \<and> hmac_rep ctx k []"
proof -
  let ?i = "map (\<lambda>b. b XOR 0x36) (hmac_key k)"
  have k: "xor_block ((if length k > HMAC_SHA256_BLOCKSIZE then sha256 k else k) @
      replicate (HMAC_SHA256_BLOCKSIZE - length (if length k > HMAC_SHA256_BLOCKSIZE then sha256 k else k)) 0) IPAD = ?i"
    by (simp add: xor_block_def hmac_key_def HMAC_SHA256_BLOCKSIZE_def IPAD_def Let_def)
  have "(b XOR 0x36) XOR (0x36 XOR 0x5C) = b XOR 0x5C" for b :: u8 by (simp only: xor.assoc [symmetric]) (simp add: xor.assoc)
  then have "xor_block ?i (IPAD XOR OPAD) = map (\<lambda>b. b XOR 0x5C) (hmac_key k)"
    by (simp only: xor_block_def IPAD_def OPAD_def map_map o_def)
  moreover obtain ctx where "sha256_update sha256_init ?i = Some ctx" "sha256_rep ctx ?i"
    using sha256_update_init [of ?i] by (auto simp: length_hmac_key)
  ultimately show ?thesis unfolding hmac_sha256_init_def Let_def k by (simp add: hmac_rep_def)
qed

lemma hmac_update_rep:
  "hmac_rep ctx k m \<Longrightarrow> 64 + length m + length p < 2 ^ 64 - 1 \<Longrightarrow>
    \<exists>ctx'. hmac_sha256_update ctx p = Some ctx' \<and> hmac_rep ctx' k (m @ p)"
  using sha256_update_rep [of "hm_sha ctx" "map (\<lambda>b. b XOR 0x36) (hmac_key k) @ m" p]
  by (auto simp: hmac_rep_def hmac_sha256_update_def length_hmac_key)

lemma hmac_done_rep: "hmac_rep ctx k m \<Longrightarrow> hmac_sha256_done ctx = Some (hmac_ref k m)"
proof -
  assume r: "hmac_rep ctx k m"
  obtain sha where sha: "sha256_update sha256_init (hm_k_opad ctx) = Some sha" "sha256_rep sha (hm_k_opad ctx)"
    using sha256_update_init [of "hm_k_opad ctx"] r by (auto simp: hmac_rep_def length_hmac_key)
  let ?h = "snd (sha256_done (hm_sha ctx))"
  have h: "?h = sha256 (map (\<lambda>b. b XOR 0x36) (hmac_key k) @ m)" using r by (simp add: hmac_rep_def sha256_done_sha256)
  obtain sha' where sha': "sha256_update sha ?h = Some sha'" "sha256_rep sha' (hm_k_opad ctx @ ?h)"
    using sha256_update_rep [OF sha(2), of ?h] r h by (auto simp: hmac_rep_def length_hmac_key)
  show ?thesis
    unfolding hmac_sha256_done_def split_def Let_def sha(1)
    using sha256_done_sha256 [OF sha'(2)] sha'(1) r by (simp add: h hmac_ref_def hmac_rep_def)
qed

lemma hmac_sha256_ref: "length m < 2 ^ 63 \<Longrightarrow> hmac_sha256 k m = Some (hmac_ref k m)"
  using hmac_init_rep [of k] hmac_update_rep [of _ k "[]" m] hmac_done_rep
  by (fastforce simp: hmac_sha256_def)

text \<open>The sequences of updates of the expansion.\<close>

lemma hmac_updates:
  assumes "length a + length b < 2 ^ 63"
  shows "hmac_sha256_init k \<bind> (\<lambda>ctx. hmac_sha256_update ctx a \<bind> (\<lambda>ctx.
      hmac_sha256_update ctx b \<bind> (\<lambda>ctx. hmac_sha256_done ctx \<bind> f))) = f (hmac_ref k (a @ b))" (is ?two)
    and "hmac_sha256_init k \<bind> (\<lambda>ctx. hmac_sha256_update ctx a \<bind> (\<lambda>ctx.
      hmac_sha256_update ctx b \<bind> (\<lambda>ctx. hmac_sha256_update ctx [c] \<bind> (\<lambda>ctx.
        hmac_sha256_done ctx \<bind> f)))) = f (hmac_ref k (a @ b @ [c]))" (is ?three)
proof -
  obtain x where x: "hmac_sha256_init k = Some x" "hmac_rep x k []" using hmac_init_rep by blast
  obtain y where y: "hmac_sha256_update x a = Some y" "hmac_rep y k a"
    using hmac_update_rep [OF x(2), of a] assms by auto
  obtain z where z: "hmac_sha256_update y b = Some z" "hmac_rep z k (a @ b)"
    using hmac_update_rep [OF y(2), of b] assms by auto
  obtain w where w: "hmac_sha256_update z [c] = Some w" "hmac_rep w k ((a @ b) @ [c])"
    using hmac_update_rep [OF z(2), of "[c]"] assms by auto
  show ?two using x(1) y(1) z hmac_done_rep by simp
  show ?three using x(1) y(1) z(1) w(1) hmac_done_rep [OF w(2)] by simp
qed

lemma length_hkdf_t: "0 < n \<Longrightarrow> length (hkdf_t prk info n) = 32"
  by (cases n) auto

declare hkdf_blocks.simps [simp del]

lemma hkdf_blocks_ref:
  assumes "length info < 2 ^ 32" "0 < n"
  shows "hkdf_blocks prk info l (hkdf_t prk info n) (of_nat n) =
    Some (take l (concat (map (hkdf_t prk info) [n..<n + max 1 ((l + 31) div 32)])))"
  using assms(2)
proof (induction l arbitrary: n rule: less_induct)
  case (less l)
  note [simp] = length_hkdf_t [OF less.prems]
  show ?case
  proof (cases "l > 32")
    case True
    let ?t = "hkdf_t prk info"
    have k: "(l + 31) div 32 = Suc ((l - 32 + 31) div 32)" "1 \<le> (l - 32 + 31) div 32" using True by auto
    have t: "hmac_ref prk (?t n @ info @ [of_nat n + 1]) = ?t (Suc n)" by (simp add: add.commute)
    have "hkdf_blocks prk info l (?t n) (of_nat n) =
      hkdf_blocks prk info (l - 32) (?t (Suc n)) (of_nat n + 1) \<bind> (\<lambda>okm. Some (?t n @ okm))"
      using True assms(1) unfolding t [symmetric]
      by (subst hkdf_blocks.simps) (simp only: Let_def if_True, subst hmac_updates(2), auto)
    also have "hkdf_blocks prk info (l - 32) (?t (Suc n)) (of_nat n + 1) =
      Some (take (l - 32) (concat (map ?t [Suc n..<n + Suc ((l - 32 + 31) div 32)])))"
      using less.IH [of "l - 32" "Suc n"] True k(2) by (simp add: add.commute max_def)
    finally show ?thesis using True k by (simp add: upt_conv_Cons max_def)
  next
    case False
    then have "(l + 31) div 32 \<le> 1" by simp
    with False show ?thesis by (subst hkdf_blocks.simps) (simp add: max_def)
  qed
qed

lemma hkdf_sha256_ref:
  assumes "l < 8160" "length k < 2 ^ 63" "length info < 2 ^ 32"
  shows "hkdf_sha256 l s k info = Some (hkdf_ref l s k info)"
proof -
  let ?prk = "hmac_ref s k"
  have t: "hmac_ref ?prk (info @ [1]) = hkdf_t ?prk info 1" by simp
  have "hkdf_sha256 l s k info = hkdf_blocks ?prk info l (hkdf_t ?prk info 1) 1"
    using assms unfolding t [symmetric]
    by (simp add: hkdf_sha256_def hmac_sha256_ref hmac_updates(1))
  also have "\<dots> = Some (take l (concat (map (hkdf_t ?prk info) [1..<1 + max 1 ((l + 31) div 32)])))"
    using hkdf_blocks_ref [of info 1 ?prk l] assms(3) by simp
  also have "\<dots> = Some (hkdf_ref l s k info)"
    by (cases "l = 0") (auto simp: hkdf_ref_def max_def)
  finally show ?thesis .
qed

lemma length_hkdf_ref: "length (hkdf_ref l s k info) = l"
proof -
  have "length (concat (map (hkdf_t (hmac_ref s k) info) [1..<Suc n])) = 32 * n" for n
    by (induction n) (auto simp: length_hkdf_t simp del: hkdf_t.simps)
  then show ?thesis by (simp add: hkdf_ref_def del: upt_Suc)
qed

lemma hkdf_ref_prefix: "l \<le> l' \<Longrightarrow> take l (hkdf_ref l' s k info) = hkdf_ref l s k info"
proof -
  assume l: "l \<le> l'"
  let ?t = "\<lambda>n. concat (map (hkdf_t (hmac_ref s k) info) [1..<Suc n])"
  have len: "length (?t n) = 32 * n" for n
    by (induction n) (auto simp: length_hkdf_t simp del: hkdf_t.simps)
  have "[1..<Suc ((l' + 31) div 32)] = [1..<Suc ((l + 31) div 32)] @ [Suc ((l + 31) div 32)..<Suc ((l' + 31) div 32)]"
    using l upt_add_eq_append [of 1 "Suc ((l + 31) div 32)" "(l' + 31) div 32 - (l + 31) div 32"] div_le_mono [of "l + 31" "l' + 31" 32]
    by simp
  then have "take l (?t ((l' + 31) div 32)) = take l (?t ((l + 31) div 32))"
    using len [of "(l + 31) div 32"] by simp
  then show ?thesis using l by (simp add: hkdf_ref_def min_def)
qed

end
