(* ===== verification/Shachain.thy ===== *)
theory Shachain
  imports Sha256
begin

text \<open>
  The chain of revocation secrets (\<^verbatim>\<open>ccan/crypto/shachain/shachain.c\<close>, with the integer
  logarithm of \<^verbatim>\<open>ccan/ilog/ilog.c\<close>). A hash with index \<open>i\<close> lets one derive the hashes of all
  indices that differ from \<open>i\<close> only in its trailing zeroes, so that 49 stored hashes give
  every hash received so far. The build sets \<^verbatim>\<open>SHACHAIN_BITS\<close> to 48.

  The lemmas show that the stored indices always are the smallest received ones with each number
  of trailing zeroes, that every received hash can be recovered, and that hashes that come
  from one seed are never refused.
\<close>

unbundle bit_operations_syntax

section \<open>The integer logarithm\<close>

definition DEBRUIJN_IDX64 :: "nat list" where
  "DEBRUIJN_IDX64 =
     [0, 1, 2, 7, 3, 13, 8, 19, 4, 25, 14, 28, 9, 34, 20, 40,
      5, 17, 26, 38, 15, 46, 29, 48, 10, 31, 35, 54, 21, 50, 41, 57,
      63, 6, 12, 18, 24, 27, 33, 39, 16, 37, 45, 47, 30, 53, 49, 56,
      62, 11, 23, 32, 36, 44, 52, 55, 61, 22, 43, 51, 60, 42, 59, 58]"

definition ilog64 :: "u64 \<Rightarrow> nat" where
  "ilog64 v =
     (let ret = (if v > 0 then 1 else 0);
          v = v OR drop_bit 1 v;
          v = v OR drop_bit 2 v;
          v = v OR drop_bit 4 v;
          v = v OR drop_bit 8 v;
          v = v OR drop_bit 16 v;
          v = v OR drop_bit 32 v;
          v = drop_bit 1 v + 1
      in ret + DEBRUIJN_IDX64 ! unat (drop_bit 58 (v * 0x218A392CD3D5DBF) AND 0x3F))"

section \<open>Deriving hashes\<close>

definition SHACHAIN_BITS :: nat where
  "SHACHAIN_BITS = 48"

definition change_bit :: "bytes \<Rightarrow> nat \<Rightarrow> bytes" where
  "change_bit arr index = arr[index div 8 := arr ! (index div 8) XOR push_bit (index mod 8) 1]"

text \<open>The loop of the version without compiler support; the built-in gives the same below \<open>2 ^ 48\<close>.\<close>

definition count_trailing_zeroes :: "u64 \<Rightarrow> nat" where
  "count_trailing_zeroes index =
     (case find (\<lambda>i. index AND push_bit i 1 \<noteq> 0) [0..<SHACHAIN_BITS] of Some i \<Rightarrow> i | None \<Rightarrow> SHACHAIN_BITS)"

definition can_derive :: "u64 \<Rightarrow> u64 \<Rightarrow> bool" where
  "can_derive frm to =
     (if frm = 0 then True
      else
        let mask = NOT (push_bit (count_trailing_zeroes frm) 1 - 1)
        in (frm XOR to) AND mask = 0)"

text \<open>The hash, or \<open>None\<close> where the assertion fails.\<close>

definition derive :: "u64 \<Rightarrow> u64 \<Rightarrow> bytes \<Rightarrow> bytes option" where
  "derive frm to from_hash =
     (if \<not> can_derive frm to then None
      else
        let branches = frm XOR to
        in Some (fold (\<lambda>i hash. if drop_bit i branches AND 1 \<noteq> 0 then sha256 (change_bit hash i) else hash)
             (rev [0..<ilog64 branches]) from_hash))"

definition shachain_from_seed :: "bytes \<Rightarrow> u64 \<Rightarrow> bytes option" where
  "shachain_from_seed seed index = derive 0 index seed"

section \<open>The stored chain\<close>

record shachain =
  sc_min_index :: u64
  sc_num_valid :: nat
  sc_known :: "(u64 \<times> bytes) list"

definition shachain_next_index :: "shachain \<Rightarrow> u64" where
  "shachain_next_index chain = sc_min_index chain - 1"

text \<open>The entries of \<^verbatim>\<open>known\<close> are not initialised: they stay what the memory held.\<close>

definition shachain_init :: "shachain \<Rightarrow> shachain" where
  "shachain_init chain = chain\<lparr>sc_num_valid := 0, sc_min_index := drop_bit (64 - SHACHAIN_BITS) (NOT 0) + 1\<rparr>"

text \<open>The loop over the entries \<open>i\<close> below \<open>pos\<close>.\<close>

primrec check_known :: "u64 \<Rightarrow> bytes \<Rightarrow> (u64 \<times> bytes) list \<Rightarrow> bool option" where
  "check_known index hash [] = Some True"
| "check_known index hash (k # known) =
     do {
       expect \<leftarrow> derive index (fst k) hash;
       if expect \<noteq> snd k then Some False else check_known index hash known
     }"

definition shachain_add_hash :: "shachain \<Rightarrow> u64 \<Rightarrow> bytes \<Rightarrow> (bool \<times> shachain) option" where
  "shachain_add_hash chain index hash =
     (if index \<noteq> shachain_next_index chain then None
      else
        let pos = count_trailing_zeroes index
        in do {
          ok \<leftarrow> check_known index hash (take pos (sc_known chain));
          if \<not> ok then Some (False, chain)
          else Some (True, chain\<lparr>sc_known := (sc_known chain)[pos := (index, hash)],
                 sc_num_valid := (if pos + 1 > sc_num_valid chain then pos + 1 else sc_num_valid chain),
                 sc_min_index := index\<rparr>)
        })"

text \<open>The loop over the valid entries; \<open>Some None\<close> is \<^verbatim>\<open>false\<close>.\<close>

primrec get_known :: "u64 \<Rightarrow> (u64 \<times> bytes) list \<Rightarrow> bytes option option" where
  "get_known index [] = Some None"
| "get_known index (k # known) =
     (if \<not> can_derive (fst k) index then get_known index known
      else do { hash \<leftarrow> derive (fst k) index (snd k); Some (Some hash) })"

definition shachain_get_hash :: "shachain \<Rightarrow> u64 \<Rightarrow> bytes option option" where
  "shachain_get_hash chain index = get_known index (take (sc_num_valid chain) (sc_known chain))"

section \<open>The integer logarithm is the number of bits\<close>

lemma smear_bits:
  fixes v :: u64
  defines "w1 \<equiv> v OR drop_bit 1 v"
  defines "w2 \<equiv> w1 OR drop_bit 2 w1"
  defines "w3 \<equiv> w2 OR drop_bit 4 w2"
  defines "w4 \<equiv> w3 OR drop_bit 8 w3"
  defines "w5 \<equiv> w4 OR drop_bit 16 w4"
  defines "w6 \<equiv> w5 OR drop_bit 32 w5"
  shows "bit w6 i \<longleftrightarrow> (\<exists>j. i \<le> j \<and> j < 64 + i \<and> bit v j)"
proof -
  have step: "bit (w OR drop_bit n w) i \<longleftrightarrow> (\<exists>j. i \<le> j \<and> j < i + m \<and> bit v j)"
    if "\<And>i. bit w i \<longleftrightarrow> (\<exists>j. i \<le> j \<and> j < i + n \<and> bit v j)" "m = 2 * n" for w :: u64 and m n i
  proof -
    have "bit (w OR drop_bit n w) i \<longleftrightarrow> (\<exists>j. i \<le> j \<and> j < i + n \<and> bit v j) \<or> (\<exists>j. i + n \<le> j \<and> j < i + n + n \<and> bit v j)"
      by (simp add: bit_or_iff bit_drop_bit_eq that(1) add.commute)
    also have "\<dots> \<longleftrightarrow> (\<exists>j. i \<le> j \<and> j < i + m \<and> bit v j)"
    proof -
      have "i \<le> j \<and> j < i + m \<longleftrightarrow> (i \<le> j \<and> j < i + n) \<or> (i + n \<le> j \<and> j < i + n + n)" for j using that(2) by linarith
      then show ?thesis by blast
    qed
    finally show ?thesis .
  qed
  have 0: "bit v i \<longleftrightarrow> (\<exists>j. i \<le> j \<and> j < i + 1 \<and> bit v j)" for i by (auto simp: less_Suc_eq_le dest: le_antisym)
  have 1: "bit w1 i \<longleftrightarrow> (\<exists>j. i \<le> j \<and> j < i + 2 \<and> bit v j)" for i
    unfolding w1_def by (rule step [OF 0]) simp
  have 2: "bit w2 i \<longleftrightarrow> (\<exists>j. i \<le> j \<and> j < i + 4 \<and> bit v j)" for i
    unfolding w2_def by (rule step [OF 1]) simp
  have 3: "bit w3 i \<longleftrightarrow> (\<exists>j. i \<le> j \<and> j < i + 8 \<and> bit v j)" for i
    unfolding w3_def by (rule step [OF 2]) simp
  have 4: "bit w4 i \<longleftrightarrow> (\<exists>j. i \<le> j \<and> j < i + 16 \<and> bit v j)" for i
    unfolding w4_def by (rule step [OF 3]) simp
  have 5: "bit w5 i \<longleftrightarrow> (\<exists>j. i \<le> j \<and> j < i + 32 \<and> bit v j)" for i
    unfolding w5_def by (rule step [OF 4]) simp
  have 6: "bit w6 i \<longleftrightarrow> (\<exists>j. i \<le> j \<and> j < i + 64 \<and> bit v j)" for i
    unfolding w6_def by (rule step [OF 5]) simp
  show ?thesis using 6 by (simp add: add.commute)
qed

lemma debruijn_table:
  "list_all (\<lambda>k. DEBRUIJN_IDX64 ! unat (drop_bit 58 (push_bit k 1 * 0x218A392CD3D5DBF :: u64) AND 0x3F) = k) [0..<64]"
  by (simp add: upt_rec DEBRUIJN_IDX64_def)

lemma debruijn: "k < 64 \<Longrightarrow> DEBRUIJN_IDX64 ! unat (drop_bit 58 (push_bit k 1 * 0x218A392CD3D5DBF :: u64) AND 0x3F) = k"
  using debruijn_table by (simp only: list_all_iff set_upt) auto

definition high_bit :: "u64 \<Rightarrow> nat \<Rightarrow> bool" where
  "high_bit v k \<longleftrightarrow> bit v k \<and> (\<forall>j. bit v j \<longrightarrow> j \<le> k)"

lemma high_bit_exists: "v \<noteq> 0 \<Longrightarrow> \<exists>k. high_bit v k"
proof -
  assume "v \<noteq> 0"
  then obtain i where i: "bit v i" by (auto simp: bit_eq_iff)
  have b: "\<forall>j. bit v j \<longrightarrow> j \<le> 64" using bit_imp_le_length [of v] by (auto dest: less_imp_le)
  have "bit v (GREATEST j. bit v j)" by (rule GreatestI_nat [of "bit v", OF i]) (use b in blast)
  moreover have "\<forall>j. bit v j \<longrightarrow> j \<le> (GREATEST j. bit v j)" using Greatest_le_nat [of "bit v"] b by blast
  ultimately show ?thesis by (auto simp: high_bit_def)
qed

lemma ilog64_0: "ilog64 0 = 0"
  by (simp add: ilog64_def DEBRUIJN_IDX64_def)

lemma ilog64_high_bit:
  assumes "high_bit v k"
  shows "ilog64 v = Suc k"
proof -
  have k: "k < 64" "bit v k" using assms bit_imp_le_length [of v k] by (auto simp: high_bit_def)
  define w1 where "w1 = v OR drop_bit 1 v"
  define w2 where "w2 = w1 OR drop_bit 2 w1"
  define w3 where "w3 = w2 OR drop_bit 4 w2"
  define w4 where "w4 = w3 OR drop_bit 8 w3"
  define w5 where "w5 = w4 OR drop_bit 16 w4"
  define w6 where "w6 = w5 OR drop_bit 32 w5"
  note w = w6_def w5_def w4_def w3_def w2_def w1_def
  have l: "ilog64 v = (if v > 0 then 1 else 0) + DEBRUIJN_IDX64 ! unat (drop_bit 58 ((drop_bit 1 w6 + 1) * 0x218A392CD3D5DBF) AND 0x3F)"
    by (simp only: ilog64_def Let_def w)
  have "bit w6 i \<longleftrightarrow> (\<exists>j. i \<le> j \<and> j < 64 + i \<and> bit v j)" for i
    unfolding w by (rule smear_bits)
  then have b: "bit w6 i \<longleftrightarrow> i \<le> k" for i
    using assms k by (auto simp: high_bit_def intro: exI [of _ k] dest: le_trans)
  have "drop_bit 1 w6 = mask k"
    by (rule bit_word_eqI) (use k(1) in \<open>simp add: bit_drop_bit_eq bit_mask_iff b Suc_le_eq\<close>)
  then have "drop_bit 1 w6 + 1 = push_bit k 1" by (simp add: mask_eq_exp_minus_1 push_bit_eq_mult)
  moreover have "v > 0" using k(2) by (auto simp: word_neq_0_conv [symmetric])
  ultimately show ?thesis unfolding l using debruijn [OF k(1)] by (simp only: if_True)
qed

lemma ilog64_bits: "bit v i \<Longrightarrow> i < ilog64 v"
proof -
  assume i: "bit v i"
  then obtain k where k: "high_bit v k" using high_bit_exists by (metis bit_0_eq bot_apply bot_bool_def)
  then show ?thesis using i by (simp add: ilog64_high_bit high_bit_def less_Suc_eq_le)
qed

lemma ilog64_le: "ilog64 v \<le> 64"
proof (cases "v = 0")
  case False
  then obtain k where k: "high_bit v k" using high_bit_exists by blast
  then show ?thesis using bit_imp_le_length [of v k] by (simp add: ilog64_high_bit high_bit_def)
qed (simp add: ilog64_0)

section \<open>Indices as numbers\<close>

text \<open>\<open>k\<close> has \<open>i\<close> trailing zeroes among its 48 bits.\<close>

definition has_tz :: "nat \<Rightarrow> nat \<Rightarrow> bool" where
  "has_tz i k \<longleftrightarrow> (if k = 0 then i = 48 else 2 ^ i dvd k \<and> odd (k div 2 ^ i))"

lemma bit_unat: "bit w i \<longleftrightarrow> odd (unat w div 2 ^ i)" for w :: u64
proof -
  have "bit w i \<longleftrightarrow> bit (unat w) i" by (simp add: bit_unsigned_iff)
  then show ?thesis by (simp only: bit_iff_odd [of "unat w"])
qed

lemma and_push_bit_1: "w AND push_bit i 1 \<noteq> 0 \<longleftrightarrow> bit w i" for w :: u64
  by (simp add: and_exp_eq_0_iff_not_bit)

lemma ctz_le: "count_trailing_zeroes w \<le> 48"
  by (auto simp: count_trailing_zeroes_def SHACHAIN_BITS_def find_Some_iff split: option.splits)

lemma ctz_has_tz:
  assumes "unat w < 2 ^ 48"
  shows "has_tz (count_trailing_zeroes w) (unat w)"
proof (cases "find (\<lambda>i. w AND push_bit i 1 \<noteq> 0) [0..<48]")
  case None
  then have n: "\<not> bit w i" if "i < 48" for i using that unfolding find_None_iff and_push_bit_1 by simp
  have "\<not> bit w i" for i
  proof (cases "i < 48")
    case False
    then have "unat w < 2 ^ i" using assms by (metis le_less_linear less_le_trans power_increasing numeral_le_one_iff one_le_numeral not_less)
    then show ?thesis by (simp add: bit_unat)
  qed (rule n)
  then have "w = 0" by (auto simp: bit_eq_iff)
  then show ?thesis using None by (simp add: has_tz_def count_trailing_zeroes_def SHACHAIN_BITS_def)
next
  case (Some i)
  then have i: "bit w i" "i < 48" "\<And>j. j < i \<Longrightarrow> \<not> bit w j" unfolding find_Some_iff and_push_bit_1 by auto
  have "2 ^ j dvd unat w" if "j \<le> i" for j
    using that
  proof (induction j)
    case (Suc j)
    then have "2 ^ j dvd unat w" "even (unat w div 2 ^ j)" using i(3) [of j] by (simp_all add: bit_unat)
    then show ?case by (auto elim!: dvdE simp: mult.assoc)
  qed simp
  moreover have "w \<noteq> 0" using i(1) by auto
  then have "unat w \<noteq> 0" by (simp add: unat_eq_0)
  ultimately show ?thesis using Some i(1)
    by (simp add: has_tz_def count_trailing_zeroes_def SHACHAIN_BITS_def bit_unat)
qed

lemma has_tz_unique:
  assumes "has_tz i k" "has_tz j k"
  shows "i = j"
proof (cases "k = 0")
  case False
  have le: "\<not> i < j" if "has_tz i k" "has_tz j k" for i j
  proof
    assume "i < j"
    then obtain d where d: "j = Suc (i + d)" using less_imp_Suc_add by blast
    then have "2 * 2 ^ i dvd k" using that(2) False by (auto simp: has_tz_def power_add dest: dvd_mult_left)
    then have "even (k div 2 ^ i)" by (auto elim!: dvdE)
    then show False using that(1) False by (simp add: has_tz_def)
  qed
  from le [OF assms] le [OF assms(2,1)] show ?thesis by simp
qed (use assms in \<open>simp add: has_tz_def\<close>)

lemma has_tz_ctz: "unat w < 2 ^ 48 \<Longrightarrow> has_tz i (unat w) \<longleftrightarrow> count_trailing_zeroes w = i"
  using ctz_has_tz has_tz_unique by blast

lemma has_tz_exists: "k < 2 ^ 48 \<Longrightarrow> \<exists>i\<le>48. has_tz i k"
  using ctz_has_tz [of "of_nat k"] ctz_le [of "of_nat k"] by (auto simp: unat_of_nat take_bit_nat_eq_self)

text \<open>A hash is derived from another exactly if they agree above the trailing zeroes of the other.\<close>

lemma can_derive_bits:
  assumes "unat frm < 2 ^ 48" "unat to < 2 ^ 48"
  shows "can_derive frm to \<longleftrightarrow> (\<forall>j \<ge> count_trailing_zeroes frm. bit frm j = bit to j)"
proof (cases "frm = 0")
  case True
  have "\<not> bit to j" if "48 \<le> j" for j
  proof -
    have "unat to < 2 ^ j" using assms(2) that by (rule less_le_trans [OF _ power_increasing]) simp
    then show ?thesis by (simp add: bit_unat)
  qed
  moreover have "count_trailing_zeroes frm = 48" using ctz_has_tz [OF assms(1)] True by (simp add: has_tz_def)
  ultimately show ?thesis using True by (simp add: can_derive_def)
next
  case False
  let ?t = "count_trailing_zeroes frm"
  have "?t < 64" using ctz_le [of frm] by simp
  have m: "push_bit ?t 1 - 1 = (mask ?t :: u64)" by (simp add: mask_eq_exp_minus_1 push_bit_eq_mult)
  have "(frm XOR to) AND NOT (mask ?t) = 0 \<longleftrightarrow> (\<forall>j. \<not> bit ((frm XOR to) AND NOT (mask ?t)) j)"
    by (metis bit_0_eq bot_apply bot_bool_def bit_word_eqI)
  also have "\<dots> \<longleftrightarrow> (\<forall>j\<ge>?t. bit frm j = bit to j)"
    using bit_imp_le_length [of frm] bit_imp_le_length [of to]
    by (fastforce simp: bit_and_iff bit_xor_iff bit_not_iff bit_mask_iff not_less)
  finally show ?thesis unfolding can_derive_def m Let_def if_not_P [OF False] .
qed

lemma can_derive_div:
  assumes "unat frm < 2 ^ 48" "unat to < 2 ^ 48" "has_tz t (unat frm)"
  shows "can_derive frm to \<longleftrightarrow> unat to div 2 ^ t = unat frm div 2 ^ t"
proof -
  have t: "count_trailing_zeroes frm = t" using assms(1,3) by (simp add: has_tz_ctz)
  have "unat to div 2 ^ t = unat frm div 2 ^ t \<longleftrightarrow> (\<forall>j. bit (unat to div 2 ^ t) j = bit (unat frm div 2 ^ t) j)"
    by (simp add: bit_eq_iff)
  also have "\<dots> \<longleftrightarrow> (\<forall>j. bit to (t + j) = bit frm (t + j))"
    unfolding bit_unat bit_iff_odd [of "_ div _"] by (simp add: power_add div_mult2_eq)
  also have "\<dots> \<longleftrightarrow> (\<forall>j\<ge>t. bit frm j = bit to j)" by (metis le_add1 le_add_diff_inverse)
  finally show ?thesis using can_derive_bits [OF assms(1,2)] t by simp
qed

section \<open>Which indices are stored\<close>

definition least_tz :: "nat \<Rightarrow> nat \<Rightarrow> nat \<Rightarrow> bool" where
  "least_tz i m k \<longleftrightarrow> k < 2 ^ 48 \<and> m \<le> k \<and> has_tz i k \<and> (\<forall>k'. m \<le> k' \<and> k' < 2 ^ 48 \<and> has_tz i k' \<longrightarrow> k \<le> k')"

lemma least_tz_unique: "least_tz i m k \<Longrightarrow> least_tz i m k' \<Longrightarrow> k = k'"
  unfolding least_tz_def by (meson le_antisym)

lemma least_tz_exists:
  assumes "m \<le> k" "k < 2 ^ 48" "has_tz i k"
  shows "\<exists>k'. least_tz i m k'"
proof -
  let ?P = "\<lambda>k. m \<le> k \<and> k < 2 ^ 48 \<and> has_tz i k"
  have "?P (LEAST k. ?P k)" by (rule LeastI [of ?P k]) (use assms in simp)
  moreover have "\<forall>k'. ?P k' \<longrightarrow> (LEAST k. ?P k) \<le> k'" by (auto intro: Least_le)
  ultimately show ?thesis unfolding least_tz_def by blast
qed

lemma has_tz_dvd: "has_tz i k \<Longrightarrow> k < 2 ^ 48 \<Longrightarrow> 2 ^ i dvd k"
  by (auto simp: has_tz_def split: if_splits)

lemma dvd_next:
  fixes d :: nat
  assumes "d dvd a" "d dvd b" "a < b"
  shows "a + d \<le> b"
proof -
  obtain x y where "a = d * x" "b = d * y" using assms(1,2) by (auto elim!: dvdE)
  moreover from this assms(3) have "x < y" by simp
  then have "d * Suc x \<le> d * y" by (intro mult_le_mono2) simp
  ultimately show ?thesis by simp
qed

lemma has_tz_le: "has_tz i k \<Longrightarrow> k < 2 ^ 48 \<Longrightarrow> i \<le> 48"
  using has_tz_exists has_tz_unique by blast

lemma next_tz:
  assumes n: "n < 2 ^ 48" "has_tz pos n" and i: "i < pos"
  shows "has_tz i (n + 2 ^ i)" "n + 2 ^ i < 2 ^ 48"
proof -
  have p: "pos \<le> 48" by (rule has_tz_le [OF n(2,1)])
  obtain q where q: "n = 2 ^ pos * q" using has_tz_dvd [OF n(2,1)] by (auto elim: dvdE)
  obtain d where d: "pos = Suc (i + d)" using i less_imp_Suc_add by blast
  have "n + 2 ^ i = 2 ^ i * (2 * (2 ^ d * q) + 1)" by (simp add: q d power_add algebra_simps)
  then show "has_tz i (n + 2 ^ i)" by (simp add: has_tz_def)
  have "(2 :: nat) ^ pos dvd 2 ^ 48" by (rule le_imp_power_dvd [OF p])
  then have "n + 2 ^ pos \<le> 2 ^ 48" using q n(1) by (intro dvd_next) simp_all
  moreover have "(2 :: nat) ^ i < 2 ^ pos" using i by simp
  ultimately show "n + 2 ^ i < 2 ^ 48" by linarith
qed

lemma least_tz_next:
  assumes n: "n < 2 ^ 48" "has_tz pos n" and i: "i < pos"
  shows "least_tz i (Suc n) (n + 2 ^ i)"
  unfolding least_tz_def
proof (intro conjI allI impI)
  show "has_tz i (n + 2 ^ i)" "n + 2 ^ i < 2 ^ 48" by (rule next_tz [OF assms])+
  show "Suc n \<le> n + 2 ^ i" by (simp add: Suc_le_eq)
  fix k' assume k': "Suc n \<le> k' \<and> k' < 2 ^ 48 \<and> has_tz i k'"
  have "(2 :: nat) ^ i dvd 2 ^ pos" using i by (simp add: le_imp_power_dvd)
  then have "2 ^ i dvd n" using has_tz_dvd [OF n(2,1)] by (rule dvd_trans)
  then show "n + 2 ^ i \<le> k'" using k' has_tz_dvd [of i k'] by (intro dvd_next) simp_all
qed

lemma least_tz_step:
  assumes "has_tz pos n" "n < 2 ^ 48"
  shows "least_tz i n k \<longleftrightarrow> (if i = pos then k = n else least_tz i (Suc n) k)"
proof (cases "i = pos")
  case True
  then show ?thesis using assms unfolding least_tz_def by (auto intro: le_antisym)
next
  case False
  then have "\<not> has_tz i n" using assms(1) has_tz_unique by blast
  then have "n \<le> k \<and> has_tz i k \<longleftrightarrow> Suc n \<le> k \<and> has_tz i k" for k by (metis Suc_leI Suc_leD le_neq_implies_less)
  then show ?thesis using False unfolding least_tz_def by (metis (no_types, lifting))
qed

text \<open>Every index is derived from some stored one.\<close>

lemma top_difference:
  assumes "m < x" "x < 2 ^ N"
  shows "\<exists>j<N. even (m div 2 ^ j) \<and> x div 2 ^ j = Suc (m div 2 ^ j)"
  using assms
proof (induction N arbitrary: m x)
  case (Suc N)
  show ?case
  proof (cases "m div 2 = x div 2")
    case True
    then have "even m" using Suc.prems(1) by presburger
    moreover from True this have "x = Suc m" using Suc.prems(1) by presburger
    ultimately have "even m" "x = Suc m" by simp_all
    then show ?thesis by (intro exI [of _ 0]) simp
  next
    case False
    moreover have "m div 2 \<le> x div 2" using Suc.prems(1) by (intro div_le_mono) simp
    ultimately have lt: "m div 2 < x div 2" by simp
    have "x div 2 < 2 ^ N" using Suc.prems(2) by (simp add: div_less_iff_less_mult mult.commute)
    from Suc.IH [OF lt this] obtain j where "j < N" "even (m div 2 div 2 ^ j)" "x div 2 div 2 ^ j = Suc (m div 2 div 2 ^ j)" by blast
    then show ?thesis by (intro exI [of _ "Suc j"]) (simp add: div_mult2_eq)
  qed
qed simp

lemma covered:
  assumes "m \<le> x" "x < 2 ^ 48"
  shows "\<exists>i k. least_tz i m k \<and> x div 2 ^ i = k div 2 ^ i"
proof (cases "m = x")
  case True
  obtain i where "has_tz i x" using has_tz_exists [OF assms(2)] by blast
  then show ?thesis using assms(2) True by (intro exI [of _ i] exI [of _ x]) (simp add: least_tz_def)
next
  case False
  with assms obtain j where j: "even (m div 2 ^ j)" "x div 2 ^ j = Suc (m div 2 ^ j)" using top_difference [of m x 48] by auto
  define k where "k = x div 2 ^ j * 2 ^ j"
  have kd: "k div 2 ^ j = x div 2 ^ j" by (simp add: k_def)
  have tz: "has_tz j k" using j by (simp add: has_tz_def k_def)
  have "m < (m div 2 ^ j + 1) * 2 ^ j" using dividend_less_div_times [of "2 ^ j" m] by (simp add: add.commute)
  then have mk: "m \<le> k" by (simp add: k_def j(2))
  have "k \<le> x" unfolding k_def by (rule div_times_less_eq_dividend)
  then have kx: "k < 2 ^ 48" using assms(2) by (rule le_less_trans)
  have "k \<le> k'" if k': "m \<le> k'" "k' < 2 ^ 48" "has_tz j k'" for k'
  proof -
    have "m div 2 ^ j \<le> k' div 2 ^ j" by (rule div_le_mono [OF k'(1)])
    moreover have "m div 2 ^ j \<noteq> k' div 2 ^ j"
    proof (cases "k' = 0")
      case True
      then have "j = 48" using k'(3) by (simp add: has_tz_def)
      then show ?thesis using j(2) assms(2) by simp
    qed (use k'(3) j(1) in \<open>auto simp: has_tz_def\<close>)
    ultimately have "x div 2 ^ j \<le> k' div 2 ^ j" using j(2) by simp
    then have "k \<le> k' div 2 ^ j * 2 ^ j" unfolding k_def by (rule mult_le_mono1)
    also have "\<dots> \<le> k'" by simp
    finally show ?thesis .
  qed
  then have "least_tz j m k" using tz mk kx by (auto simp: least_tz_def)
  with kd show ?thesis by metis
qed

text \<open>The indices between \<open>n\<close> and the next one with as many trailing zeroes are derived from smaller entries.\<close>

lemma covered_below:
  assumes n: "n < 2 ^ 48" "has_tz pos n" and x: "n < x" "x div 2 ^ pos = n div 2 ^ pos"
  shows "\<exists>i<pos. x div 2 ^ i = (n + 2 ^ i) div 2 ^ i"
proof -
  have d: "2 ^ pos dvd n" by (rule has_tz_dvd [OF n(2,1)])
  have "x - n < 2 ^ pos"
  proof -
    have "x < (x div 2 ^ pos + 1) * 2 ^ pos" using dividend_less_div_times [of "2 ^ pos" x] by (simp add: add.commute)
    also have "\<dots> = n + 2 ^ pos" using d x(2) by (auto elim!: dvdE)
    finally show ?thesis using x(1) by simp
  qed
  with x(1) obtain j where j: "j < pos" "(x - n) div 2 ^ j = Suc 0" using top_difference [of 0 "x - n" pos] by auto
  have "(2 :: nat) ^ j dvd 2 ^ pos" using j(1) by (simp add: le_imp_power_dvd)
  then have "2 ^ j dvd n" using d by (rule dvd_trans)
  then obtain q where q: "n = 2 ^ j * q" by (auto elim: dvdE)
  have "x = 2 ^ j * q + (x - n)" using q x(1) by simp
  then have "x div 2 ^ j = q + (x - n) div 2 ^ j" by (metis div_mult_self4 power_not_zero zero_neq_numeral)
  moreover have "(n + 2 ^ j) div 2 ^ j = q + 1" using q by simp
  ultimately show ?thesis using j by auto
qed

section \<open>Derivation is transitive\<close>

definition derive_hash :: "u64 \<Rightarrow> bytes \<Rightarrow> bytes" where
  "derive_hash branches h = fold (\<lambda>i h. sha256 (change_bit h i)) (filter (bit branches) (rev [0..<64])) h"

lemma fold_filter_if: "fold (\<lambda>i h. if P i then f i h else h) xs h = fold f (filter P xs) h"
  by (induction xs arbitrary: h) simp_all

lemma derive_eq: "derive frm to h = (if can_derive frm to then Some (derive_hash (frm XOR to) h) else None)"
proof -
  let ?b = "frm XOR to"
  have b: "drop_bit i ?b AND 1 \<noteq> 0 \<longleftrightarrow> bit ?b i" for i by (simp add: bit_iff_odd_drop_bit and_one_eq odd_iff_mod_2_eq_one)
  have "[0..<64] = [0..<ilog64 ?b] @ [ilog64 ?b..<64]"
    using ilog64_le [of ?b] upt_add_eq_append [of 0 "ilog64 ?b" "64 - ilog64 ?b"] by simp
  moreover have "filter (bit ?b) (rev [ilog64 ?b..<64]) = []" using ilog64_bits [of ?b] by (auto simp: filter_empty_conv not_less [symmetric])
  ultimately have "filter (bit ?b) (rev [0..<64]) = filter (bit ?b) (rev [0..<ilog64 ?b])" by simp
  then show ?thesis unfolding derive_def derive_hash_def Let_def b fold_filter_if by simp
qed

lemma derive_hash_0 [simp]: "derive_hash 0 h = h"
  by (simp add: derive_hash_def filter_False)

lemma derive_hash_trans:
  assumes "t \<le> 64" "\<And>j. t \<le> j \<Longrightarrow> bit m j = bit x j" "\<And>j. j < t \<Longrightarrow> \<not> bit k j \<and> \<not> bit m j"
  shows "derive_hash (k XOR x) h = derive_hash (m XOR x) (derive_hash (k XOR m) h)"
proof -
  have s: "rev [0..<64] = rev [t..<64] @ rev [0..<t]"
    using assms(1) upt_add_eq_append [of 0 t "64 - t"] by simp
  have 1: "filter (bit (k XOR x)) (rev [t..<64]) = filter (bit (k XOR m)) (rev [t..<64])"
    using assms(2) by (intro filter_cong refl) (simp add: bit_xor_iff)
  have 2: "filter (bit (k XOR x)) (rev [0..<t]) = filter (bit (m XOR x)) (rev [0..<t])"
    using assms(3) by (intro filter_cong refl) (simp add: bit_xor_iff)
  have 3: "filter (bit (k XOR m)) (rev [0..<t]) = []" "filter (bit (m XOR x)) (rev [t..<64]) = []"
    using assms(2,3) by (auto simp: filter_empty_conv bit_xor_iff)
  show ?thesis unfolding derive_hash_def s filter_append 1 2 3 by simp
qed

lemma low_bits: "2 ^ t dvd unat w \<Longrightarrow> j < t \<Longrightarrow> \<not> bit w j" for w :: u64
proof -
  assume "2 ^ t dvd unat w" "j < t"
  moreover from this(2) have "(2 :: nat) ^ Suc j dvd 2 ^ t" by (intro le_imp_power_dvd) simp
  ultimately have "2 ^ Suc j dvd unat w" by (meson dvd_trans)
  then have "even (unat w div 2 ^ j)" by (auto elim!: dvdE)
  then show ?thesis unfolding bit_unat by simp
qed

lemma derive_trans:
  assumes b: "unat k < 2 ^ 48" "unat m < 2 ^ 48" "unat x < 2 ^ 48" and km: "can_derive k m" and mx: "can_derive m x"
    and t: "has_tz t (unat m)" "has_tz s (unat k)" "t \<le> s"
  shows "can_derive k x" "derive_hash (k XOR x) h = derive_hash (m XOR x) (derive_hash (k XOR m) h)"
proof -
  have c: "count_trailing_zeroes m = t" "count_trailing_zeroes k = s" using t(1,2) b(1,2) by (simp_all add: has_tz_ctz)
  have m: "bit m j = bit x j" if "t \<le> j" for j using mx that can_derive_bits [OF b(2,3)] c by simp
  have k: "bit k j = bit m j" if "s \<le> j" for j using km that can_derive_bits [OF b(1,2)] c by simp
  show "can_derive k x" using can_derive_bits [OF b(1,3)] c m k t(3) by simp
  have "(2 :: nat) ^ t dvd 2 ^ s" using t(3) by (rule le_imp_power_dvd)
  then have d: "2 ^ t dvd unat k" using has_tz_dvd [OF t(2) b(1)] by (rule dvd_trans)
  show "derive_hash (k XOR x) h = derive_hash (m XOR x) (derive_hash (k XOR m) h)"
    using has_tz_le [OF t(1) b(2)] m low_bits [OF d] low_bits [OF has_tz_dvd [OF t(1) b(2)]]
    by (intro derive_hash_trans [of t]) simp_all
qed

section \<open>Received hashes\<close>

definition idx :: "nat \<Rightarrow> u64" where
  "idx k = of_nat k"

lemma unat_idx: "k < 2 ^ 48 \<Longrightarrow> unat (idx k) = k"
  by (simp add: idx_def unat_of_nat take_bit_nat_eq_self)

lemma can_derive_idx: "k < 2 ^ 48 \<Longrightarrow> x < 2 ^ 48 \<Longrightarrow> has_tz t k \<Longrightarrow> can_derive (idx k) (idx x) \<longleftrightarrow> x div 2 ^ t = k div 2 ^ t"
  using can_derive_div [of "idx k" "idx x" t] by (simp add: unat_idx)

text \<open>
  \<open>A\<close> gives the hashes received for the indices from \<open>m\<close> on. Each entry holds the smallest of
  these indices with its number of trailing zeroes, and derives the hashes received before.
\<close>

definition holds_hashes :: "shachain \<Rightarrow> nat \<Rightarrow> (nat \<Rightarrow> bytes) \<Rightarrow> bool" where
  "holds_hashes c m A \<longleftrightarrow> length (sc_known c) = 49 \<and> sc_num_valid c \<le> 49 \<and> sc_min_index c = idx m \<and> m \<le> 2 ^ 48 \<and>
     (\<forall>i k. least_tz i m k \<longrightarrow> i < sc_num_valid c \<and> sc_known c ! i = (idx k, A k)) \<and>
     (\<forall>i < sc_num_valid c. \<exists>k. least_tz i m k) \<and>
     (\<forall>i k x. least_tz i m k \<and> m \<le> x \<and> x < 2 ^ 48 \<and> can_derive (idx k) (idx x) \<longrightarrow> derive_hash (idx k XOR idx x) (A k) = A x)"

lemma init_holds: "length (sc_known c) = 49 \<Longrightarrow> holds_hashes (shachain_init c) (2 ^ 48) A"
proof -
  have "\<not> least_tz i (2 ^ 48) k" for i k by (simp add: least_tz_def)
  moreover have "(drop_bit 16 (NOT 0) + 1 :: u64) = idx (2 ^ 48)" by (simp add: idx_def mask_eq_exp_minus_1)
  ultimately show "length (sc_known c) = 49 \<Longrightarrow> ?thesis" by (simp add: holds_hashes_def shachain_init_def SHACHAIN_BITS_def)
qed

lemma holdsD:
  assumes "holds_hashes c m A"
  shows "least_tz i m k \<Longrightarrow> i < sc_num_valid c" "least_tz i m k \<Longrightarrow> sc_known c ! i = (idx k, A k)"
    "i < sc_num_valid c \<Longrightarrow> \<exists>k. least_tz i m k"
    "least_tz i m k \<Longrightarrow> m \<le> x \<Longrightarrow> x < 2 ^ 48 \<Longrightarrow> can_derive (idx k) (idx x) \<Longrightarrow> derive_hash (idx k XOR idx x) (A k) = A x"
  using assms unfolding holds_hashes_def by blast+

lemma holds_next: "holds_hashes c (Suc n) A \<Longrightarrow> shachain_next_index c = idx n"
  by (simp add: holds_hashes_def shachain_next_index_def idx_def)

text \<open>The hashes that a new one has to lead to.\<close>

definition leads_to :: "nat \<Rightarrow> bytes \<Rightarrow> nat \<Rightarrow> (nat \<Rightarrow> bytes) \<Rightarrow> bool" where
  "leads_to n h pos A \<longleftrightarrow> (\<forall>i<pos. derive_hash (idx n XOR idx (n + 2 ^ i)) h = A (n + 2 ^ i))"

lemma derive_next:
  assumes "n < 2 ^ 48" "has_tz pos n" "i < pos"
  shows "can_derive (idx n) (idx (n + 2 ^ i))"
proof -
  obtain q where "n = 2 ^ pos * q" using has_tz_dvd [OF assms(2,1)] by (auto elim: dvdE)
  then have "(n + 2 ^ i) div 2 ^ pos = n div 2 ^ pos" using assms(3) by simp
  then show ?thesis using can_derive_idx [OF assms(1) next_tz(2) [OF assms] assms(2)] by simp
qed

lemma check_known_exact:
  assumes "\<And>k. k \<in> set ks \<Longrightarrow> can_derive index (fst k)"
  shows "check_known index h ks = Some (\<forall>k\<in>set ks. derive_hash (index XOR fst k) h = snd k)"
  using assms by (induction ks) (auto simp: derive_eq)

lemma add_hash_exact:
  assumes c: "holds_hashes c (Suc n) A" and n: "n < 2 ^ 48" and pos: "has_tz pos n"
  shows "shachain_add_hash c (idx n) h = Some (
    if leads_to n h pos A
    then (True, c\<lparr>sc_known := (sc_known c)[pos := (idx n, h)], sc_num_valid := max (pos + 1) (sc_num_valid c), sc_min_index := idx n\<rparr>)
    else (False, c))"
proof -
  have ctz: "count_trailing_zeroes (idx n) = pos" using pos n has_tz_ctz [of "idx n" pos] by (simp add: unat_idx)
  have p48: "pos \<le> 48" by (rule has_tz_le [OF pos n])
  have l: "length (sc_known c) = 49" using c by (simp add: holds_hashes_def)
  have k: "sc_known c ! i = (idx (n + 2 ^ i), A (n + 2 ^ i))" if "i < pos" for i
    by (rule holdsD(2) [OF c least_tz_next [OF n pos that]])
  have "take pos (sc_known c) = map (\<lambda>i. (idx (n + 2 ^ i), A (n + 2 ^ i))) [0..<pos]"
    using l p48 k by (intro nth_equalityI) simp_all
  moreover have "check_known (idx n) h (map (\<lambda>i. (idx (n + 2 ^ i), A (n + 2 ^ i))) [0..<pos]) = Some (leads_to n h pos A)"
    using derive_next [OF n pos] by (subst check_known_exact) (auto simp: leads_to_def)
  ultimately have "check_known (idx n) h (take pos (sc_known c)) = Some (leads_to n h pos A)" by simp
  then show ?thesis unfolding shachain_add_hash_def holds_next [OF c] ctz Let_def
    by (simp add: max_def)
qed

lemma add_hash_holds:
  assumes c: "holds_hashes c (Suc n) A" and n: "n < 2 ^ 48" and pos: "has_tz pos n" and h: "leads_to n h pos A"
  shows "holds_hashes (c\<lparr>sc_known := (sc_known c)[pos := (idx n, h)], sc_num_valid := max (pos + 1) (sc_num_valid c),
    sc_min_index := idx n\<rparr>) n (A(n := h))" (is "holds_hashes ?c n ?A")
proof -
  note step = least_tz_step [OF pos n]
  have p48: "pos \<le> 48" by (rule has_tz_le [OF pos n])
  have l: "length (sc_known c) = 49" "sc_num_valid c \<le> 49" using c by (simp_all add: holds_hashes_def)
  have later: "n < k" if "least_tz i (Suc n) k" for i k using that by (simp add: least_tz_def)
  have stored: "i < sc_num_valid ?c \<and> sc_known ?c ! i = (idx k, ?A k)" if "least_tz i n k" for i k
    using that holdsD(1,2) [OF c, of i k] later [of i k] l p48 unfolding step by (auto split: if_splits)
  have valid: "\<exists>k. least_tz i n k" if i: "i < sc_num_valid ?c" for i
  proof (cases "i = pos")
    case False
    have "\<exists>k. least_tz i (Suc n) k"
      using i False holdsD(3) [OF c, of i] least_tz_next [OF n pos, of i] by (cases "i < pos") auto
    then show ?thesis using False unfolding step by simp
  qed (auto simp: step)
  have derives: "derive_hash (idx k XOR idx x) (?A k) = ?A x"
    if k: "least_tz i n k" and x: "n \<le> x" "x < 2 ^ 48" and d: "can_derive (idx k) (idx x)" for i k x
  proof -
    have k': "k < 2 ^ 48" "has_tz i k" using k by (simp_all add: least_tz_def)
    have e: "x div 2 ^ i = k div 2 ^ i" using d can_derive_idx [OF k'(1) x(2) k'(2)] by simp
    show ?thesis
    proof (cases "i = pos")
      case False
      then have k1: "least_tz i (Suc n) k" using k unfolding step by simp
      have "k \<le> x" using has_tz_dvd [OF k'(2,1)] e by (metis div_times_less_eq_dividend dvd_div_mult_self)
      then show ?thesis using later [OF k1] holdsD(4) [OF c k1 _ x(2) d] by simp
    next
      case True
      then have kn: "k = n" using k unfolding step by simp
      show ?thesis
      proof (cases "x = n")
        case False
        then obtain j where j: "j < pos" "x div 2 ^ j = (n + 2 ^ j) div 2 ^ j"
          using covered_below [OF n pos, of x] x e True kn by auto
        note m = next_tz [OF n pos j(1)]
        have mx: "can_derive (idx (n + 2 ^ j)) (idx x)" using can_derive_idx [OF m(2) x(2) m(1)] j(2) by simp
        have "derive_hash (idx n XOR idx x) h = derive_hash (idx (n + 2 ^ j) XOR idx x) (derive_hash (idx n XOR idx (n + 2 ^ j)) h)"
          using j(1) n m x(2) pos by (intro derive_trans(2) [OF _ _ _ derive_next [OF n pos j(1)] mx, of j pos]) (simp_all add: unat_idx)
        also have "\<dots> = A x"
          using h j(1) holdsD(4) [OF c least_tz_next [OF n pos j(1)] _ x(2) mx] x(1) False by (simp add: leads_to_def)
        finally show ?thesis using kn False by simp
      qed (simp add: kn)
    qed
  qed
  show ?thesis unfolding holds_hashes_def
  proof (intro conjI allI impI)
    show "sc_num_valid ?c \<le> 49" "length (sc_known ?c) = 49" "sc_min_index ?c = idx n" "n \<le> 2 ^ 48" using l p48 n by simp_all
  qed (use stored valid derives in blast)+
qed

lemma get_known_match:
  assumes "\<And>k. k \<in> set ks \<Longrightarrow> can_derive (fst k) index \<Longrightarrow> derive_hash (fst k XOR index) (snd k) = v"
  shows "get_known index ks = Some (if \<exists>k\<in>set ks. can_derive (fst k) index then Some v else None)"
  using assms by (induction ks) (auto simp: derive_eq)

lemma get_hash_exact:
  assumes c: "holds_hashes c m A" and x: "x < 2 ^ 48"
  shows "shachain_get_hash c (idx x) = Some (if m \<le> x then Some (A x) else None)"
proof -
  let ?ks = "take (sc_num_valid c) (sc_known c)"
  have l: "length (sc_known c) = 49" "sc_num_valid c \<le> 49" using c by (simp_all add: holds_hashes_def)
  have entry: "\<exists>i y. least_tz i m y \<and> k = (idx y, A y)" if "k \<in> set ?ks" for k
  proof -
    obtain i where i: "i < sc_num_valid c" "k = sc_known c ! i" using \<open>k \<in> set ?ks\<close> l by (auto simp: in_set_conv_nth)
    with holdsD(3) [OF c i(1)] holdsD(2) [OF c] show ?thesis by metis
  qed
  have ge: "m \<le> x" if "least_tz i m y" "can_derive (idx y) (idx x)" for i y
  proof -
    have y: "y < 2 ^ 48" "has_tz i y" "m \<le> y" using that(1) by (simp_all add: least_tz_def)
    have "x div 2 ^ i = y div 2 ^ i" using that(2) can_derive_idx [OF y(1) x y(2)] by simp
    then have "y \<le> x" using has_tz_dvd [OF y(2,1)] by (metis div_times_less_eq_dividend dvd_div_mult_self)
    then show ?thesis using y(3) by simp
  qed
  have "derive_hash (fst k XOR idx x) (snd k) = A x" if "k \<in> set ?ks" "can_derive (fst k) (idx x)" for k
    using entry [OF that(1)] that(2) ge holdsD(4) [OF c _ _ x] by fastforce
  then have g: "get_known (idx x) ?ks = Some (if \<exists>k\<in>set ?ks. can_derive (fst k) (idx x) then Some (A x) else None)"
    by (rule get_known_match)
  have "(\<exists>k\<in>set ?ks. can_derive (fst k) (idx x)) \<longleftrightarrow> m \<le> x"
  proof
    assume "m \<le> x"
    then obtain i y where i: "least_tz i m y" "x div 2 ^ i = y div 2 ^ i" using covered [OF _ x] by blast
    then have d: "can_derive (idx y) (idx x)" using can_derive_idx [OF _ x, of y i] by (simp add: least_tz_def)
    have "sc_known c ! i \<in> set ?ks" using holdsD(1) [OF c i(1)] l by (auto simp: in_set_conv_nth)
    then show "\<exists>k\<in>set ?ks. can_derive (fst k) (idx x)" using holdsD(2) [OF c i(1)] d by (intro bexI [of _ "sc_known c ! i"]) simp_all
  qed (use entry ge in fastforce)
  then show ?thesis unfolding shachain_get_hash_def g by simp
qed

section \<open>What a chain gives back\<close>

text \<open>The chains that receive the hashes \<open>hs\<close>, the first one for the index \<open>2 ^ 48 - 1\<close>.\<close>

inductive received :: "shachain \<Rightarrow> bytes list \<Rightarrow> bool" where
  received_none: "length (sc_known c) = 49 \<Longrightarrow> received (shachain_init c) []"
| received_next: "received c hs \<Longrightarrow> length hs < 2 ^ 48 \<Longrightarrow>
    shachain_add_hash c (shachain_next_index c) h = Some (True, c') \<Longrightarrow> received c' (hs @ [h])"

lemma holds_cong:
  assumes "holds_hashes c m A" "\<And>k. m \<le> k \<Longrightarrow> k < 2 ^ 48 \<Longrightarrow> A k = A' k"
  shows "holds_hashes c m A'"
proof -
  have "A k = A' k" if "least_tz i m k" for i k using that assms(2) [of k] by (simp add: least_tz_def)
  note stored = this
  have h: "length (sc_known c) = 49" "sc_num_valid c \<le> 49" "sc_min_index c = idx m" "m \<le> 2 ^ 48"
    using assms(1) by (simp_all add: holds_hashes_def)
  show ?thesis unfolding holds_hashes_def
  proof (intro conjI allI impI h)
    fix i k assume k: "least_tz i m k"
    show "i < sc_num_valid c" by (rule holdsD(1) [OF assms(1) k])
    show "sc_known c ! i = (idx k, A' k)" using holdsD(2) [OF assms(1) k] stored [OF k] by simp
  next
    fix i assume "i < sc_num_valid c"
    then show "\<exists>k. least_tz i m k" by (rule holdsD(3) [OF assms(1)])
  next
    fix i k x assume *: "least_tz i m k \<and> m \<le> x \<and> x < 2 ^ 48 \<and> can_derive (idx k) (idx x)"
    then show "derive_hash (idx k XOR idx x) (A' k) = A' x"
      using holdsD(4) [OF assms(1), of i k x] stored [of i k] assms(2) [of x] by simp
  qed
qed

lemma received_holds:
  assumes "received c hs"
  shows "length hs \<le> 2 ^ 48 \<and> holds_hashes c (2 ^ 48 - length hs) (\<lambda>k. hs ! (2 ^ 48 - 1 - k))"
  using assms
proof induction
  case (received_none c)
  then show ?case using init_holds [of c] by simp
next
  case (received_next c hs h c')
  define n where "n = 2 ^ 48 - 1 - length hs"
  have n: "n < 2 ^ 48" "2 ^ 48 - length hs = Suc n" "2 ^ 48 - length (hs @ [h]) = n" using received_next.hyps(2) by (simp_all add: n_def)
  have c: "holds_hashes c (Suc n) (\<lambda>k. hs ! (2 ^ 48 - 1 - k))" using received_next.IH n(2) by simp
  obtain pos where pos: "has_tz pos n" using has_tz_exists [OF n(1)] by blast
  let ?c = "c\<lparr>sc_known := (sc_known c)[pos := (idx n, h)], sc_num_valid := max (pos + 1) (sc_num_valid c), sc_min_index := idx n\<rparr>"
  have "leads_to n h pos (\<lambda>k. hs ! (2 ^ 48 - 1 - k)) \<and> c' = ?c"
    using received_next.hyps(3) add_hash_exact [OF c n(1) pos, of h] holds_next [OF c] by (auto split: if_splits)
  then have "holds_hashes c' n ((\<lambda>k. hs ! (2 ^ 48 - 1 - k))(n := h))" using add_hash_holds [OF c n(1) pos] by blast
  then have "holds_hashes c' n (\<lambda>k. (hs @ [h]) ! (2 ^ 48 - 1 - k))"
  proof (rule holds_cong)
    fix k assume "n \<le> k" "k < 2 ^ 48"
    then have "k = n \<and> 2 ^ 48 - 1 - k = length hs \<or> k \<noteq> n \<and> 2 ^ 48 - 1 - k < length hs"
      using received_next.hyps(2) by (auto simp: n_def)
    then show "((\<lambda>k. hs ! (2 ^ 48 - 1 - k))(n := h)) k = (hs @ [h]) ! (2 ^ 48 - 1 - k)" by (auto simp: nth_append)
  qed
  then show ?case using n(3) received_next.hyps(2) by simp
qed

text \<open>
  Whatever hashes a chain has accepted, it gives back exactly these: the hash for an index
  is the one accepted for it, and for an index that is still to come there is none.
\<close>

lemma accepted_hashes_recovered:
  assumes "received c hs" and "x < 2 ^ 48"
  shows "shachain_get_hash c (of_nat x) = Some (if 2 ^ 48 - length hs \<le> x then Some (hs ! (2 ^ 48 - 1 - x)) else None)"
proof -
  have "holds_hashes c (2 ^ 48 - length hs) (\<lambda>k. hs ! (2 ^ 48 - 1 - k))" using received_holds [OF assms(1)] by blast
  from get_hash_exact [OF this assms(2)] show ?thesis unfolding idx_def .
qed

text \<open>A chain that has received one hash.\<close>

definition sample_chain :: shachain where
  "sample_chain = \<lparr>sc_min_index = 0, sc_num_valid = 0, sc_known = replicate 49 (0, [])\<rparr>"

lemma sample_received: "\<exists>c. received c [[7]]"
proof -
  have c: "received (shachain_init sample_chain) []" by (rule received_none) (simp add: sample_chain_def)
  note h = received_holds [OF c]
  have tz: "has_tz 0 (2 ^ 48 - 1)" by (simp add: has_tz_def)
  have "holds_hashes (shachain_init sample_chain) (Suc (2 ^ 48 - 1)) (\<lambda>k. [] ! (2 ^ 48 - 1 - k))" using h by simp
  from add_hash_exact [OF this _ tz, of "[7]"] holds_next [OF this]
  obtain c' where "shachain_add_hash (shachain_init sample_chain) (shachain_next_index (shachain_init sample_chain)) [7] = Some (True, c')"
    by (auto simp: leads_to_def)
  from received_next [OF c _ this] show ?thesis by auto
qed

text \<open>
  Hashes that come from one seed are never refused: a chain that received the hashes of the
  first \<open>n\<close> indices accepts that of the next index.
\<close>

lemma seed_hashes_accepted:
  assumes "received c hs" and "length hs < 2 ^ 48"
    and "\<forall>n < length hs. shachain_from_seed seed (of_nat (2 ^ 48 - 1 - n)) = Some (hs ! n)"
    and "shachain_from_seed seed (of_nat (2 ^ 48 - 1 - length hs)) = Some h"
  shows "\<exists>c'. shachain_add_hash c (shachain_next_index c) h = Some (True, c')"
proof -
  define n where "n = 2 ^ 48 - 1 - length hs"
  have n: "n < 2 ^ 48" "2 ^ 48 - length hs = Suc n" using assms(2) by (simp_all add: n_def)
  have c: "holds_hashes c (Suc n) (\<lambda>k. hs ! (2 ^ 48 - 1 - k))" using received_holds [OF assms(1)] n(2) by simp
  obtain pos where pos: "has_tz pos n" using has_tz_exists [OF n(1)] by blast
  have z: "has_tz 48 (unat (0 :: u64))" "can_derive 0 x" for x by (simp_all add: has_tz_def can_derive_def)
  have seed: "hs ! (2 ^ 48 - 1 - k) = derive_hash (idx k) seed" if "n < k" "k < 2 ^ 48" for k
  proof -
    have "2 ^ 48 - 1 - k < length hs" "2 ^ 48 - 1 - (2 ^ 48 - 1 - k) = k" using that by (simp_all add: n_def)
    then show ?thesis using assms(3) by (auto simp: shachain_from_seed_def derive_eq z idx_def)
  qed
  have h: "h = derive_hash (idx n) seed"
    using assms(4) unfolding n_def [symmetric] by (simp add: shachain_from_seed_def derive_eq z idx_def)
  have "derive_hash (idx n XOR idx (n + 2 ^ i)) h = hs ! (2 ^ 48 - 1 - (n + 2 ^ i))" if i: "i < pos" for i
  proof -
    note m = next_tz [OF n(1) pos i]
    have "derive_hash (0 XOR idx (n + 2 ^ i)) seed = derive_hash (idx n XOR idx (n + 2 ^ i)) (derive_hash (0 XOR idx n) seed)"
      using n(1) m(2) pos has_tz_le [OF pos n(1)]
      by (intro derive_trans(2) [OF _ _ _ z(2) derive_next [OF n(1) pos i] _ z(1), of pos]) (simp_all add: unat_idx)
    then show ?thesis using seed [of "n + 2 ^ i"] m(2) h by simp
  qed
  then have "leads_to n h pos (\<lambda>k. hs ! (2 ^ 48 - 1 - k))" by (simp add: leads_to_def)
  then show ?thesis using add_hash_exact [OF c n(1) pos, of h] holds_next [OF c] by simp
qed

end
