(* ===== verification/Wire.thy ===== *)
theory Wire
  imports BitcoinTx
begin

text \<open>
  \<^verbatim>\<open>wire/fromwire.c\<close>, \<^verbatim>\<open>wire/towire.c\<close> and \<^verbatim>\<open>bitcoin/short_channel_id.c\<close>: the primitives that put
  values into a message and read them back. A message under construction is the list of its
  bytes, a cursor is the one of \<open>PullPush\<close>. The locale \<open>wire_codec\<close> is the contract of a pair
  of a writer and a reader; \<open>strict_reader\<close> is the part of it that composes.
\<close>

unbundle bit_operations_syntax

section \<open>Reading\<close>

definition fromwire_fail :: cursor where
  "fromwire_fail = None"

text \<open>
  The result is \<open>None\<close> for the return value NULL; the memory \<^verbatim>\<open>copy\<close> points to receives
  \<open>copied n\<close> of it. Unlike \<open>pull\<close>, a read of no bytes from a failed cursor returns NULL.
\<close>

definition fromwire :: "cursor \<Rightarrow> nat \<Rightarrow> bytes option \<times> cursor" where
  "fromwire c n =
     (if cursor_max c < n then (None, fromwire_fail)
      else (map_option (take n) c, map_option (drop n) c))"

definition fromwire_peektype :: "cursor \<Rightarrow> int" where
  "fromwire_peektype c =
     (let (r, c) = fromwire c 2
      in if c = None then - 1 else uint (be16_to_cpu (copied 2 r)))"

definition fromwire_u8 :: "cursor \<Rightarrow> u8 \<times> cursor" where
  "fromwire_u8 c = (let (r, c) = fromwire c 1 in (case r of None \<Rightarrow> 0 | Some b \<Rightarrow> b ! 0, c))"

definition fromwire_u16 :: "cursor \<Rightarrow> u16 \<times> cursor" where
  "fromwire_u16 c = (let (r, c) = fromwire c 2 in (case r of None \<Rightarrow> 0 | Some b \<Rightarrow> be16_to_cpu b, c))"

definition fromwire_u32 :: "cursor \<Rightarrow> u32 \<times> cursor" where
  "fromwire_u32 c = (let (r, c) = fromwire c 4 in (case r of None \<Rightarrow> 0 | Some b \<Rightarrow> be32_to_cpu b, c))"

definition fromwire_u64 :: "cursor \<Rightarrow> u64 \<times> cursor" where
  "fromwire_u64 c = (let (r, c) = fromwire c 8 in (case r of None \<Rightarrow> 0 | Some b \<Rightarrow> be64_to_cpu b, c))"

definition fromwire_bool :: "cursor \<Rightarrow> bool \<times> cursor" where
  "fromwire_bool c =
     (let (r, c) = fromwire c 1
      in case r of
           None \<Rightarrow> (False, c)
         | Some b \<Rightarrow> (b ! 0 \<noteq> 0, if b ! 0 \<noteq> 0 \<and> b ! 0 \<noteq> 1 then fromwire_fail else c))"

text \<open>Arrays of bytes; \<^verbatim>\<open>struct\<close>s that are one array, and a \<^verbatim>\<open>double\<close>, are read and written as such.\<close>

definition fromwire_u8_array :: "cursor \<Rightarrow> nat \<Rightarrow> bytes \<times> cursor" where
  "fromwire_u8_array c num = (let (r, c) = fromwire c num in (copied num r, c))"

definition fromwire_double :: "cursor \<Rightarrow> bytes \<times> cursor" where
  "fromwire_double c = (let (r, c) = fromwire c 8 in (copied 8 r, c))"

definition fromwire_secret :: "cursor \<Rightarrow> bytes \<times> cursor" where
  "fromwire_secret c = (let (r, c) = fromwire c 32 in (copied 32 r, c))"

definition fromwire_privkey :: "cursor \<Rightarrow> bytes \<times> cursor" where
  "fromwire_privkey c = fromwire_secret c"

definition fromwire_channel_id :: "cursor \<Rightarrow> bytes \<times> cursor" where
  "fromwire_channel_id c = (let (r, c) = fromwire c 32 in (copied 32 r, c))"

definition fromwire_short_channel_id :: "cursor \<Rightarrow> u64 \<times> cursor" where
  "fromwire_short_channel_id c = fromwire_u64 c"

definition fromwire_sha256 :: "cursor \<Rightarrow> bytes \<times> cursor" where
  "fromwire_sha256 c = (let (r, c) = fromwire c 32 in (copied 32 r, c))"

definition fromwire_sha256_double :: "cursor \<Rightarrow> bytes \<times> cursor" where
  "fromwire_sha256_double c = fromwire_sha256 c"

definition fromwire_bitcoin_txid :: "cursor \<Rightarrow> bytes \<times> cursor" where
  "fromwire_bitcoin_txid c = fromwire_sha256_double c"

definition fromwire_bitcoin_blkid :: "cursor \<Rightarrow> bytes \<times> cursor" where
  "fromwire_bitcoin_blkid c = fromwire_sha256_double c"

definition fromwire_preimage :: "cursor \<Rightarrow> bytes \<times> cursor" where
  "fromwire_preimage c = (let (r, c) = fromwire c 32 in (copied 32 r, c))"

definition fromwire_ripemd160 :: "cursor \<Rightarrow> bytes \<times> cursor" where
  "fromwire_ripemd160 c = (let (r, c) = fromwire c 20 in (copied 20 r, c))"

definition fromwire_siphash_seed :: "cursor \<Rightarrow> bytes \<times> cursor" where
  "fromwire_siphash_seed c = (let (r, c) = fromwire c 16 in (copied 16 r, c))"

definition fromwire_pad :: "cursor \<Rightarrow> nat \<Rightarrow> cursor" where
  "fromwire_pad c num = snd (fromwire c num)"

text \<open>Keys and signatures: \<open>None\<close> when the object is left unset.\<close>

definition fromwire_pubkey :: "('pk, 'sg) secp \<Rightarrow> cursor \<Rightarrow> 'pk option \<times> cursor" where
  "fromwire_pubkey S c =
     (let (r, c) = fromwire c PUBKEY_DER_LEN
      in case r of
           None \<Rightarrow> (None, c)
         | Some der \<Rightarrow> (case pubkey_from_der S der of None \<Rightarrow> (None, fromwire_fail) | Some k \<Rightarrow> (Some k, c)))"

definition fromwire_secp256k1_ecdsa_signature :: "(bytes \<Rightarrow> 'sg option) \<Rightarrow> cursor \<Rightarrow> 'sg option \<times> cursor" where
  "fromwire_secp256k1_ecdsa_signature parse_compact c =
     (let (r, c) = fromwire c 64
      in case r of
           None \<Rightarrow> (None, c)
         | Some compact \<Rightarrow> (case parse_compact compact of None \<Rightarrow> (None, fromwire_fail) | Some sg \<Rightarrow> (Some sg, c)))"

definition fromwire_secp256k1_ecdsa_recoverable_signature ::
    "(bytes \<Rightarrow> u8 \<Rightarrow> 'rs option) \<Rightarrow> cursor \<Rightarrow> 'rs option \<times> cursor" where
  "fromwire_secp256k1_ecdsa_recoverable_signature parse_compact c =
     (let (r, c) = fromwire c 64; (recid, c) = fromwire_u8 c
      in case parse_compact (copied 64 r) recid of None \<Rightarrow> (None, fromwire_fail) | Some sg \<Rightarrow> (Some sg, c))"

text \<open>The loop over the bytes: the length of the string with its terminator.\<close>

primrec wirestring_size :: "bytes \<Rightarrow> nat option" where
  "wirestring_size [] = None"
| "wirestring_size (b # bs) =
     (if b = 0 then Some 1 else if b < 32 then None else map_option Suc (wirestring_size bs))"

definition fromwire_wirestring :: "cursor \<Rightarrow> bytes option \<times> cursor" where
  "fromwire_wirestring c =
     (case wirestring_size (cursor_bytes c) of
        None \<Rightarrow> (None, fromwire_fail)
      | Some n \<Rightarrow> (let (r, c) = fromwire c n in (Some (copied n r), c)))"

definition fromwire_bitcoin_tx :: "u64 option \<Rightarrow> cursor \<Rightarrow> (bitcoin_tx option \<times> cursor) option" where
  "fromwire_bitcoin_tx uninit c = pull_bitcoin_tx uninit c"

text \<open>\<^verbatim>\<open>funding_output_index\<close> changes the last two bytes of the txid.\<close>

definition derive_channel_id :: "bytes \<Rightarrow> u16 \<Rightarrow> bytes" where
  "derive_channel_id txid txout =
     (let channel_id = txid;
          channel_id = channel_id[30 := channel_id ! 30 XOR ucast (drop_bit 8 txout)];
          channel_id = channel_id[31 := channel_id ! 31 XOR ucast txout]
      in channel_id)"

section \<open>Writing\<close>

definition towire :: "bytes \<Rightarrow> bytes \<Rightarrow> bytes" where
  "towire p data = p @ data"

definition towire_u8 :: "bytes \<Rightarrow> u8 \<Rightarrow> bytes" where
  "towire_u8 p v = towire p [v]"

definition towire_u16 :: "bytes \<Rightarrow> u16 \<Rightarrow> bytes" where
  "towire_u16 p v = towire p (cpu_to_be16 v)"

definition towire_u32 :: "bytes \<Rightarrow> u32 \<Rightarrow> bytes" where
  "towire_u32 p v = towire p (cpu_to_be32 v)"

definition towire_u64 :: "bytes \<Rightarrow> u64 \<Rightarrow> bytes" where
  "towire_u64 p v = towire p (cpu_to_be64 v)"

definition towire_double :: "bytes \<Rightarrow> bytes \<Rightarrow> bytes" where
  "towire_double p v = towire p v"

definition towire_bool :: "bytes \<Rightarrow> bool \<Rightarrow> bytes" where
  "towire_bool p v = towire p [if v then 1 else 0]"

definition towire_pubkey :: "('pk, 'sg) secp \<Rightarrow> bytes \<Rightarrow> 'pk \<Rightarrow> bytes" where
  "towire_pubkey S p pubkey = towire p (ec_pubkey_serialize S pubkey)"

definition towire_secret :: "bytes \<Rightarrow> bytes \<Rightarrow> bytes" where
  "towire_secret p secret = towire p secret"

definition towire_privkey :: "bytes \<Rightarrow> bytes \<Rightarrow> bytes" where
  "towire_privkey p privkey = towire_secret p privkey"

definition towire_secp256k1_ecdsa_signature :: "('sg \<Rightarrow> bytes) \<Rightarrow> bytes \<Rightarrow> 'sg \<Rightarrow> bytes" where
  "towire_secp256k1_ecdsa_signature serialize_compact p sg = towire p (serialize_compact sg)"

definition towire_secp256k1_ecdsa_recoverable_signature :: "('rs \<Rightarrow> bytes \<times> u8) \<Rightarrow> bytes \<Rightarrow> 'rs \<Rightarrow> bytes" where
  "towire_secp256k1_ecdsa_recoverable_signature serialize_compact p rsig =
     (let (compact, recid) = serialize_compact rsig; p = towire p compact in towire_u8 p recid)"

definition towire_channel_id :: "bytes \<Rightarrow> bytes \<Rightarrow> bytes" where
  "towire_channel_id p channel_id = towire p channel_id"

definition towire_short_channel_id :: "bytes \<Rightarrow> u64 \<Rightarrow> bytes" where
  "towire_short_channel_id p short_channel_id = towire_u64 p short_channel_id"

definition towire_sha256 :: "bytes \<Rightarrow> bytes \<Rightarrow> bytes" where
  "towire_sha256 p h = towire p h"

definition towire_sha256_double :: "bytes \<Rightarrow> bytes \<Rightarrow> bytes" where
  "towire_sha256_double p h = towire_sha256 p h"

definition towire_bitcoin_txid :: "bytes \<Rightarrow> bytes \<Rightarrow> bytes" where
  "towire_bitcoin_txid p txid = towire_sha256_double p txid"

definition towire_bitcoin_blkid :: "bytes \<Rightarrow> bytes \<Rightarrow> bytes" where
  "towire_bitcoin_blkid p blkid = towire_sha256_double p blkid"

definition towire_preimage :: "bytes \<Rightarrow> bytes \<Rightarrow> bytes" where
  "towire_preimage p preimage = towire p preimage"

definition towire_ripemd160 :: "bytes \<Rightarrow> bytes \<Rightarrow> bytes" where
  "towire_ripemd160 p ripemd = towire p ripemd"

definition towire_u8_array :: "bytes \<Rightarrow> bytes \<Rightarrow> bytes" where
  "towire_u8_array p arr = towire p arr"

definition towire_pad :: "bytes \<Rightarrow> nat \<Rightarrow> bytes" where
  "towire_pad p num = p @ replicate num 0"

text \<open>A C string is given without its terminator.\<close>

definition towire_wirestring :: "bytes \<Rightarrow> bytes \<Rightarrow> bytes" where
  "towire_wirestring p str = towire p (str @ [0])"

definition towire_bitcoin_tx :: "bytes \<Rightarrow> bitcoin_tx \<Rightarrow> bytes" where
  "towire_bitcoin_tx p tx = towire_u8_array p (linearize_tx tx)"

definition towire_siphash_seed :: "bytes \<Rightarrow> bytes \<Rightarrow> bytes" where
  "towire_siphash_seed p seed = towire p seed"

section \<open>Short channel ids\<close>

definition short_channel_id_blocknum :: "u64 \<Rightarrow> u32" where
  "short_channel_id_blocknum scid = ucast (drop_bit 40 scid)"

definition short_channel_id_txnum :: "u64 \<Rightarrow> u32" where
  "short_channel_id_txnum scid = ucast (drop_bit 16 scid AND 0x00FFFFFF)"

definition short_channel_id_outnum :: "u64 \<Rightarrow> u16" where
  "short_channel_id_outnum scid = ucast (scid AND 0xFFFF)"

definition mk_short_channel_id :: "u32 \<Rightarrow> u32 \<Rightarrow> u16 \<Rightarrow> u64" where
  "mk_short_channel_id blocknum txnum outnum =
     push_bit 40 (ucast blocknum AND 0xFFFFFF) OR push_bit 16 (ucast txnum AND 0xFFFFFF) OR
     ucast (outnum AND 0xFFFF)"

section \<open>Readers\<close>

text \<open>
  A strict reader keeps a failed cursor failed. When it succeeds it has consumed a prefix of
  the bytes, and its result depends on that prefix only.
\<close>

definition strict_reader :: "(cursor \<Rightarrow> 'b \<times> cursor) \<Rightarrow> bool" where
  "strict_reader f \<longleftrightarrow> snd (f None) = None \<and>
     (\<forall>p v r. f (Some p) = (v, Some r) \<longrightarrow> (\<exists>d. p = d @ r \<and> (\<forall>s. f (Some (d @ s)) = (v, Some s))))"

named_theorems strict

lemma strict_readerI:
  assumes "snd (f None) = None"
    and "\<And>p v r. f (Some p) = (v, Some r) \<Longrightarrow> \<exists>d. p = d @ r \<and> (\<forall>s. f (Some (d @ s)) = (v, Some s))"
  shows "strict_reader f"
  using assms unfolding strict_reader_def by blast

lemma strict_readerD: "strict_reader f \<Longrightarrow> f (Some p) = (v, Some r) \<Longrightarrow>
    \<exists>d. p = d @ r \<and> (\<forall>s. f (Some (d @ s)) = (v, Some s))"
  unfolding strict_reader_def by blast

lemma strict_return [strict]: "strict_reader (\<lambda>c. (v, c))"
  by (rule strict_readerI) auto

lemma strict_fail [strict]: "strict_reader (\<lambda>c. (v, None))"
  by (rule strict_readerI) auto

lemma strict_fail' [strict]: "strict_reader (\<lambda>c. (v, fromwire_fail))"
  by (simp add: fromwire_fail_def strict_fail)

lemma strict_bind [strict]:
  assumes f: "strict_reader f" and g: "\<And>x. strict_reader (g x)"
  shows "strict_reader (\<lambda>c. let (x, c) = f c in g x c)"
proof (rule strict_readerI)
  show "snd (let (x, c) = f None in g x c) = None"
    using f g unfolding strict_reader_def by (cases "f None") auto
next
  fix p v r assume *: "(let (x, c) = f (Some p) in g x c) = (v, Some r)"
  obtain x c where fp: "f (Some p) = (x, c)" by fastforce
  show "\<exists>d. p = d @ r \<and> (\<forall>s. (let (x, c) = f (Some (d @ s)) in g x c) = (v, Some s))"
  proof (cases c)
    case None
    with * fp g [of x] show ?thesis by (auto simp: strict_reader_def)
  next
    case (Some q)
    obtain d where d: "p = d @ q" "\<And>s. f (Some (d @ s)) = (x, Some s)"
      using strict_readerD [OF f] fp Some by blast
    obtain e where e: "q = e @ r" "\<And>s. g x (Some (e @ s)) = (v, Some s)"
      using strict_readerD [OF g, of x q v r] * fp Some by auto
    have "f (Some ((d @ e) @ s)) = (x, Some (e @ s))" for s using d(2) [of "e @ s"] by simp
    then have "\<forall>s. (let (x, c) = f (Some ((d @ e) @ s)) in g x c) = (v, Some s)"
      using e(2) by (simp del: append_assoc)
    moreover have "p = (d @ e) @ r" using d(1) e(1) by simp
    ultimately show ?thesis by blast
  qed
qed

lemma strict_if [strict]:
  "strict_reader f \<Longrightarrow> strict_reader g \<Longrightarrow> strict_reader (\<lambda>c. if b then f c else g c)"
  by (cases b) auto

lemma strict_option [strict]:
  "strict_reader f \<Longrightarrow> (\<And>x. strict_reader (g x)) \<Longrightarrow>
    strict_reader (\<lambda>c. case b of None \<Rightarrow> f c | Some x \<Rightarrow> g x c)"
  by (cases b) auto

lemma strict_if_fail [strict]: "strict_reader (\<lambda>c. (v, if b then fromwire_fail else c))"
  by (cases b) (simp_all add: strict)

lemma strict_fromwire [strict]: "strict_reader (\<lambda>c. fromwire c n)"
proof (rule strict_readerI)
  show "snd (fromwire None n) = None" by (simp add: fromwire_def fromwire_fail_def)
next
  fix p v r assume "fromwire (Some p) n = (v, Some r)"
  then have n: "n \<le> length p" "v = Some (take n p)" "r = drop n p"
    by (auto simp: fromwire_def fromwire_fail_def cursor_max_def cursor_bytes_def split: if_splits)
  then have "p = take n p @ r \<and> (\<forall>s. fromwire (Some (take n p @ s)) n = (v, Some s))"
    by (auto simp: fromwire_def cursor_max_def cursor_bytes_def)
  then show "\<exists>d. p = d @ r \<and> (\<forall>s. fromwire (Some (d @ s)) n = (v, Some s))" by blast
qed

lemma strict_fromwire_prims [strict]:
  "strict_reader fromwire_u8" "strict_reader fromwire_u16" "strict_reader fromwire_u32" "strict_reader fromwire_u64"
  "strict_reader fromwire_bool" "strict_reader (\<lambda>c. fromwire_u8_array c n)" "strict_reader fromwire_double"
  "strict_reader fromwire_secret" "strict_reader fromwire_channel_id"
  "strict_reader fromwire_sha256" "strict_reader fromwire_preimage"
  "strict_reader fromwire_ripemd160" "strict_reader fromwire_siphash_seed" "strict_reader (fromwire_pubkey S)"
  "strict_reader (fromwire_secp256k1_ecdsa_signature pc)"
  "strict_reader (fromwire_secp256k1_ecdsa_recoverable_signature pr)"
  unfolding fromwire_u8_def [abs_def] fromwire_u16_def [abs_def] fromwire_u32_def [abs_def] fromwire_u64_def [abs_def]
    fromwire_bool_def [abs_def] fromwire_u8_array_def [abs_def] fromwire_double_def [abs_def]
    fromwire_secret_def [abs_def] fromwire_channel_id_def [abs_def] fromwire_sha256_def [abs_def]
    fromwire_preimage_def [abs_def] fromwire_ripemd160_def [abs_def] fromwire_siphash_seed_def [abs_def]
    fromwire_pubkey_def [abs_def] fromwire_secp256k1_ecdsa_signature_def [abs_def]
    fromwire_secp256k1_ecdsa_recoverable_signature_def [abs_def]
  by (intro strict)+

lemma strict_fromwire_wraps [strict]:
  "strict_reader fromwire_privkey" "strict_reader fromwire_short_channel_id" "strict_reader fromwire_sha256_double"
  "strict_reader fromwire_bitcoin_txid" "strict_reader fromwire_bitcoin_blkid"
  unfolding fromwire_privkey_def [abs_def] fromwire_short_channel_id_def [abs_def] fromwire_sha256_double_def [abs_def]
    fromwire_bitcoin_txid_def [abs_def] fromwire_bitcoin_blkid_def [abs_def]
  by (intro strict)+

lemma wirestring_size_take:
  "wirestring_size p = Some n \<Longrightarrow> n \<le> length p \<and> wirestring_size (take n p @ s) = Some n"
  by (induction p arbitrary: n) (auto split: if_splits)

lemma wirestring_size_str: "list_all (\<lambda>b. 32 \<le> b) str \<Longrightarrow> wirestring_size (str @ 0 # r) = Some (Suc (length str))"
  by (induction str) (auto simp: not_le [symmetric])

lemma strict_fromwire_wirestring [strict]: "strict_reader fromwire_wirestring"
proof (rule strict_readerI)
  show "snd (fromwire_wirestring None) = None"
    by (simp add: fromwire_wirestring_def cursor_bytes_def fromwire_fail_def)
next
  fix p v r assume "fromwire_wirestring (Some p) = (v, Some r)"
  then obtain n where n: "wirestring_size p = Some n" "(let (r, c) = fromwire (Some p) n in (Some (copied n r), c)) = (v, Some r)"
    by (auto simp: fromwire_wirestring_def cursor_bytes_def fromwire_fail_def split: option.splits)
  have "strict_reader (\<lambda>c. let (r, c) = fromwire c n in (Some (copied n r), c))" by (intro strict)
  from strict_readerD [OF this n(2)] obtain d where
    d: "p = d @ r" "\<And>s. (let (r, c) = fromwire (Some (d @ s)) n in (Some (copied n r), c)) = (v, Some s)" by blast
  have "drop n p = r" using n(2) wirestring_size_take [OF n(1), of "[]"] by (auto simp: fromwire_def cursor_max_def cursor_bytes_def)
  then have "take n p = d" using d(1) by (metis append_same_eq append_take_drop_id)
  then have "fromwire_wirestring (Some (d @ s)) = (v, Some s)" for s
    using wirestring_size_take [OF n(1), of s] d(2) [of s] by (simp add: fromwire_wirestring_def cursor_bytes_def)
  with d(1) show "\<exists>d. p = d @ r \<and> (\<forall>s. fromwire_wirestring (Some (d @ s)) = (v, Some s))" by blast
qed

section \<open>Codecs\<close>

text \<open>The reader \<open>get\<close> finds exactly the bytes \<open>d\<close> of the value \<open>v\<close>.\<close>

definition carried :: "(cursor \<Rightarrow> 'b \<times> cursor) \<Rightarrow> bytes \<Rightarrow> 'b \<Rightarrow> bool" where
  "carried get d v \<longleftrightarrow> (\<forall>r. get (Some (d @ r)) = (v, Some r)) \<and>
     (\<forall>k. k < length d \<longrightarrow> snd (get (Some (take k d))) = None)"

text \<open>
  The contract of a writer and its reader. \<open>ok\<close> says which values can be sent and \<open>view\<close> what
  the reader makes of them.
\<close>

locale wire_codec =
  fixes put :: "bytes \<Rightarrow> 'a \<Rightarrow> bytes"
    and get :: "cursor \<Rightarrow> 'b \<times> cursor"
    and ok :: "'a \<Rightarrow> bool"
    and view :: "'a \<Rightarrow> 'b"
  assumes put_append: "ok x \<Longrightarrow> put p x = p @ put [] x"
    and get_put: "ok x \<Longrightarrow> get (Some (put [] x @ r)) = (view x, Some r)"
    and strict_get: "strict_reader get"
begin

text \<open>A message that ends inside the value is rejected.\<close>

lemma get_truncated:
  assumes "ok x" "k < length (put [] x)"
  shows "snd (get (Some (take k (put [] x)))) = None"
proof (rule ccontr)
  assume "snd (get (Some (take k (put [] x)))) \<noteq> None"
  then obtain v r where f: "get (Some (take k (put [] x))) = (v, Some r)"
    by (metis not_None_eq prod.collapse)
  then obtain d where d: "take k (put [] x) = d @ r" "\<And>s. get (Some (d @ s)) = (v, Some s)"
    using strict_readerD [OF strict_get] by blast
  have "put [] x = d @ r @ drop k (put [] x)" using d(1) by (metis append_assoc append_take_drop_id)
  then have "get (Some (put [] x)) = (v, Some (r @ drop k (put [] x)))" using d(2) by metis
  moreover have "get (Some (put [] x)) = (view x, Some [])" using get_put [OF assms(1), of "[]"] by simp
  ultimately show False using assms(2) by simp
qed

text \<open>What arrives: the value when its bytes are there, followed by anything, and no value when one is missing.\<close>

lemma carried: "ok x \<Longrightarrow> carried get (put [] x) (view x)"
  by (simp add: carried_def get_put get_truncated)

text \<open>What is read back after the message so far.\<close>

lemma get_after: "ok x \<Longrightarrow> get (Some (drop (length p) (put p x) @ r)) = (view x, Some r)"
  using put_append [of x p] get_put by simp

text \<open>No encoding is a proper prefix of another.\<close>

lemma uniquely_decodable: "ok x \<Longrightarrow> ok y \<Longrightarrow> put [] x @ r = put [] y @ s \<Longrightarrow> view x = view y \<and> r = s"
  using get_put [of x r] get_put [of y s] by simp

lemma get_failed: "snd (get None) = None"
  using strict_get by (simp add: strict_reader_def)

text \<open>Arrays, read with their count known.\<close>

lemma put_list_append: "list_all ok xs \<Longrightarrow> fold (\<lambda>x p. put p x) xs p = p @ fold (\<lambda>x p. put p x) xs []"
proof (induction xs arbitrary: p)
  case (Cons x xs)
  then have "put p x = p @ put [] x" by (intro put_append) simp
  moreover have "fold (\<lambda>x p. put p x) xs (put p x) = put p x @ fold (\<lambda>x p. put p x) xs []"
    "fold (\<lambda>x p. put p x) xs (put [] x) = put [] x @ fold (\<lambda>x p. put p x) xs []"
    using Cons.prems by (auto intro!: Cons.IH)
  ultimately show ?case by (simp only: fold_simps append_assoc)
qed simp

end

text \<open>The loop that reads \<open>n\<close> entries of an array.\<close>

primrec read_array :: "(cursor \<Rightarrow> 'b \<times> cursor) \<Rightarrow> nat \<Rightarrow> cursor \<Rightarrow> 'b list \<times> cursor" where
  "read_array f 0 c = ([], c)"
| "read_array f (Suc n) c = (let (x, c) = f c; (xs, c) = read_array f n c in (x # xs, c))"

lemma strict_read_array [strict]: "strict_reader f \<Longrightarrow> strict_reader (read_array f n)"
proof (induction n)
  case 0
  then show ?case by (simp add: strict_return [of "[]"] cong: if_cong)
next
  case (Suc n)
  have "read_array f (Suc n) = (\<lambda>c. let (x, c) = f c in (let (xs, c) = read_array f n c in (x # xs, c)))"
    by (rule ext) simp
  moreover have "strict_reader \<dots>" using Suc by (intro strict) simp_all
  ultimately show ?case by simp
qed

context wire_codec
begin

lemma read_array_put_list:
  "list_all ok xs \<Longrightarrow> read_array get (length xs) (Some (fold (\<lambda>x p. put p x) xs [] @ r)) = (map view xs, Some r)"
proof (induction xs)
  case (Cons x xs)
  then have "fold (\<lambda>x p. put p x) (x # xs) [] = put [] x @ fold (\<lambda>x p. put p x) xs []"
    using put_list_append [of xs "put [] x"] by simp
  then show ?case using Cons get_put [of x "fold (\<lambda>x p. put p x) xs [] @ r"] by simp
qed simp

end

lemma fromwire_app: "length d = n \<Longrightarrow> fromwire (Some (d @ r)) n = (Some d, Some r)"
  by (simp add: fromwire_def cursor_max_def cursor_bytes_def)

lemmas fromwire_defs =
  fromwire_u8_def fromwire_u16_def fromwire_u32_def fromwire_u64_def fromwire_bool_def fromwire_u8_array_def
  fromwire_secret_def fromwire_privkey_def fromwire_sha256_def fromwire_sha256_double_def fromwire_bitcoin_txid_def
  fromwire_preimage_def fromwire_short_channel_id_def fromwire_channel_id_def fromwire_pubkey_def

lemmas towire_defs =
  towire_def towire_u8_def towire_u16_def towire_u32_def towire_u64_def towire_bool_def towire_u8_array_def
  towire_secret_def towire_privkey_def towire_sha256_def towire_sha256_double_def towire_bitcoin_txid_def
  towire_preimage_def towire_short_channel_id_def towire_channel_id_def towire_pubkey_def

lemmas strict_prims = strict_fromwire_prims strict_fromwire_wraps strict_fromwire_wirestring

lemma fromwire_1: "fromwire (Some (b # r)) (Suc 0) = (Some [b], Some r)"
  using fromwire_app [of "[b]" "Suc 0" r] by simp

interpretation wu8: wire_codec towire_u8 fromwire_u8 "\<lambda>_. True" "\<lambda>v. v"
  by unfold_locales (auto simp: towire_defs fromwire_u8_def fromwire_1 strict_prims)

interpretation wu16: wire_codec towire_u16 fromwire_u16 "\<lambda>_. True" "\<lambda>v. v"
  by unfold_locales (auto simp: towire_defs fromwire_u16_def fromwire_app strict_prims)

interpretation wu32: wire_codec towire_u32 fromwire_u32 "\<lambda>_. True" "\<lambda>v. v"
  by unfold_locales (auto simp: towire_defs fromwire_u32_def fromwire_app strict_prims)

interpretation wu64: wire_codec towire_u64 fromwire_u64 "\<lambda>_. True" "\<lambda>v. v"
  by unfold_locales (auto simp: towire_defs fromwire_u64_def fromwire_app strict_prims)

interpretation wbool: wire_codec towire_bool fromwire_bool "\<lambda>_. True" "\<lambda>v. v"
  by unfold_locales (auto simp: towire_defs fromwire_bool_def fromwire_1 strict_prims)

interpretation wscid: wire_codec towire_short_channel_id fromwire_short_channel_id "\<lambda>_. True" "\<lambda>v. v"
  by unfold_locales (auto simp: towire_defs fromwire_short_channel_id_def fromwire_u64_def fromwire_app strict_prims)

interpretation wsha256: wire_codec towire_sha256 fromwire_sha256 "\<lambda>h. length h = 32" "\<lambda>h. h"
  by unfold_locales (auto simp: towire_defs fromwire_sha256_def fromwire_app copied_def strict_prims)

interpretation wtxid: wire_codec towire_bitcoin_txid fromwire_bitcoin_txid "\<lambda>h. length h = 32" "\<lambda>h. h"
  by unfold_locales (auto simp: towire_defs fromwire_defs fromwire_app copied_def strict_prims)

interpretation wpreimage: wire_codec towire_preimage fromwire_preimage "\<lambda>h. length h = 32" "\<lambda>h. h"
  by unfold_locales (auto simp: towire_defs fromwire_defs fromwire_app copied_def strict_prims)

interpretation wstring: wire_codec towire_wirestring fromwire_wirestring "list_all (\<lambda>b. 32 \<le> b)" "\<lambda>s. Some (s @ [0])"
proof unfold_locales
  fix x r assume x: "list_all (\<lambda>b. 32 \<le> b) (x :: bytes)"
  show "fromwire_wirestring (Some (towire_wirestring [] x @ r)) = (Some (x @ [0]), Some r)"
    using wirestring_size_str [OF x, of r] fromwire_app [of "x @ [0]" "Suc (length x)" r]
    by (simp add: fromwire_wirestring_def towire_wirestring_def towire_def cursor_bytes_def copied_def)
qed (auto simp: towire_wirestring_def towire_def strict_prims)

text \<open>Keys, with what the curve library promises of its encoding.\<close>

lemma wire_pubkey_codec:
  assumes "secp_der33 S" "secp_parse_law S"
  shows "wire_codec (towire_pubkey S) (fromwire_pubkey S) (\<lambda>_. True) Some"
proof unfold_locales
  fix x r
  show "fromwire_pubkey S (Some (towire_pubkey S [] x @ r)) = (Some x, Some r)"
    using assms fromwire_app [of "pubkey_to_der S x" PUBKEY_DER_LEN r] pubkey_der_roundtrip [OF assms, of x]
    by (simp add: fromwire_pubkey_def towire_pubkey_def towire_def pubkey_to_der_def PUBKEY_DER_LEN_def secp_der33_def)
qed (auto simp: towire_pubkey_def towire_def strict_prims)

section \<open>Fields of a short channel id\<close>

lemma field_masks: "0xFFFFFF = (mask 24 :: 'a::len word)" "0xFFFF = (mask 16 :: 'a::len word)"
  by (simp_all add: mask_eq_exp_minus_1)

lemmas field_bits = bit_or_iff bit_and_iff bit_push_bit_iff bit_mask_iff bit_ucast_iff bit_drop_bit_eq bit_take_bit_iff
  possible_bit_word

lemma scid_blocknum: "short_channel_id_blocknum (mk_short_channel_id b t n) = take_bit 24 b"
  unfolding short_channel_id_blocknum_def mk_short_channel_id_def field_masks
  by (rule bit_word_eqI) (auto simp: field_bits dest: bit_imp_le_length)

lemma scid_txnum: "short_channel_id_txnum (mk_short_channel_id b t n) = take_bit 24 t"
  unfolding short_channel_id_txnum_def mk_short_channel_id_def field_masks
  by (rule bit_word_eqI) (auto simp: field_bits dest: bit_imp_le_length)

lemma scid_outnum: "short_channel_id_outnum (mk_short_channel_id b t n) = n"
  unfolding short_channel_id_outnum_def mk_short_channel_id_def field_masks
  by (rule bit_word_eqI) (auto simp: field_bits dest: bit_imp_le_length)

lemma scid_from_fields:
  "mk_short_channel_id (short_channel_id_blocknum s) (short_channel_id_txnum s) (short_channel_id_outnum s) = s"
  unfolding short_channel_id_blocknum_def short_channel_id_txnum_def short_channel_id_outnum_def mk_short_channel_id_def field_masks
proof (rule bit_word_eqI)
  fix n assume "n < LENGTH(64)"
  then consider "n < 16" | "16 \<le> n" "n < 40" | "40 \<le> n" "n < 64" by fastforce
  then show "bit (push_bit 40 (ucast (ucast (drop_bit 40 s) :: u32) AND mask 24) OR
      push_bit 16 (ucast (ucast (drop_bit 16 s AND mask 24) :: u32) AND mask 24) OR
      ucast ((ucast (s AND mask 16) :: u16) AND mask 16) :: u64) n = bit s n"
    by cases (auto simp: field_bits)
qed

end
