(* ===== verification/Basepoints.thy ===== *)
theory Basepoints
  imports Hkdf Shachain Wire
begin

text \<open>
  \<^verbatim>\<open>common/derive_basepoints.c\<close>: the keys of a channel from its seed, and the secrets of its
  commitment transactions. The library of the curve is the argument \<open>S\<close>. An output pointer that
  may be NULL is a flag that says whether it is given; \<open>Some None\<close> is the return value
  \<^verbatim>\<open>false\<close>, after which no caller looks at the outputs.
\<close>

unbundle bit_operations_syntax

section \<open>Keys from the seed\<close>

record secrets =
  se_funding_privkey :: bytes
  se_revocation_basepoint_secret :: bytes
  se_payment_basepoint_secret :: bytes
  se_htlc_basepoint_secret :: bytes
  se_delayed_payment_basepoint_secret :: bytes

text \<open>\<^verbatim>\<open>struct keys\<close> is filled as 192 bytes of memory.\<close>

record keys =
  k_f :: bytes
  k_r :: bytes
  k_h :: bytes
  k_p :: bytes
  k_d :: bytes
  k_shaseed :: bytes

definition keys_size :: nat where
  "keys_size = 6 * 32"

definition keys_of :: "bytes \<Rightarrow> keys" where
  "keys_of okm =
     \<lparr>k_f = take 32 okm, k_r = take 32 (drop 32 okm), k_h = take 32 (drop 64 okm), k_p = take 32 (drop 96 okm),
      k_d = take 32 (drop 128 okm), k_shaseed = take 32 (drop 160 okm)\<rparr>"

definition c_lightning :: bytes where
  "c_lightning = map of_char ''c-lightning''"

text \<open>The outputs of \<^verbatim>\<open>derive_basepoints\<close>, each one \<open>None\<close> when its pointer was NULL.\<close>

record 'pk derived =
  dv_funding_pubkey :: "'pk option"
  dv_basepoints :: "'pk basepoints option"
  dv_secrets :: "secrets option"
  dv_shaseed :: "bytes option"

text \<open>
  A computation under a flag: nothing is done when the pointer is NULL; \<open>None\<close> when the
  computation fails.
\<close>

definition when_given :: "bool \<Rightarrow> 'a option \<Rightarrow> 'a option option" where
  "when_given flag r = (if flag then map_option Some r else Some None)"

definition derive_basepoints ::
    "('pk, 'sg) secp \<Rightarrow> bytes \<Rightarrow> bool \<Rightarrow> bool \<Rightarrow> bool \<Rightarrow> bool \<Rightarrow> 'pk derived option option" where
  "derive_basepoints S seed funding_pubkey basepoints secrets shaseed =
     do {
       okm \<leftarrow> hkdf_sha256 keys_size [] seed c_lightning;
       let keys = keys_of okm;
       Some (do {
         f \<leftarrow> when_given funding_pubkey (pubkey_from_privkey S (k_f keys));
         b \<leftarrow> when_given basepoints (do {
             r \<leftarrow> pubkey_from_privkey S (k_r keys);
             p \<leftarrow> pubkey_from_privkey S (k_p keys);
             h \<leftarrow> pubkey_from_privkey S (k_h keys);
             d \<leftarrow> pubkey_from_privkey S (k_d keys);
             Some \<lparr>bp_revocation = r, bp_payment = p, bp_htlc = h, bp_delayed_payment = d\<rparr>
           });
         Some \<lparr>dv_funding_pubkey = f, dv_basepoints = b,
           dv_secrets = (if secrets
             then Some \<lparr>se_funding_privkey = k_f keys, se_revocation_basepoint_secret = k_r keys,
               se_payment_basepoint_secret = k_p keys, se_htlc_basepoint_secret = k_h keys,
               se_delayed_payment_basepoint_secret = k_d keys\<rparr>
             else None),
           dv_shaseed = (if shaseed then Some (k_shaseed keys) else None)\<rparr>
       })
     }"

definition derive_payment_basepoint ::
    "('pk, 'sg) secp \<Rightarrow> bytes \<Rightarrow> bool \<Rightarrow> bool \<Rightarrow> ('pk option \<times> bytes option) option option" where
  "derive_payment_basepoint S seed payment_basepoint payment_secret =
     do {
       okm \<leftarrow> hkdf_sha256 keys_size [] seed c_lightning;
       let keys = keys_of okm;
       Some (do {
         b \<leftarrow> when_given payment_basepoint (pubkey_from_privkey S (k_p keys));
         Some (b, if payment_secret then Some (k_p keys) else None)
       })
     }"

definition derive_delayed_payment_basepoint ::
    "('pk, 'sg) secp \<Rightarrow> bytes \<Rightarrow> bool \<Rightarrow> bool \<Rightarrow> ('pk option \<times> bytes option) option option" where
  "derive_delayed_payment_basepoint S seed delayed_payment_basepoint delayed_payment_secret =
     do {
       okm \<leftarrow> hkdf_sha256 keys_size [] seed c_lightning;
       let keys = keys_of okm;
       Some (do {
         b \<leftarrow> when_given delayed_payment_basepoint (pubkey_from_privkey S (k_d keys));
         Some (b, if delayed_payment_secret then Some (k_d keys) else None)
       })
     }"

definition derive_shaseed :: "bytes \<Rightarrow> bytes option" where
  "derive_shaseed seed =
     do { okm \<leftarrow> hkdf_sha256 keys_size [] seed c_lightning; Some (k_shaseed (keys_of okm)) }"

text \<open>The one that asks for 32 bytes only.\<close>

definition derive_funding_key ::
    "('pk, 'sg) secp \<Rightarrow> bytes \<Rightarrow> bool \<Rightarrow> bool \<Rightarrow> ('pk option \<times> bytes option) option option" where
  "derive_funding_key S seed funding_pubkey funding_privkey =
     do {
       f \<leftarrow> hkdf_sha256 32 [] seed c_lightning;
       Some (do {
         b \<leftarrow> when_given funding_pubkey (pubkey_from_privkey S f);
         Some (b, if funding_privkey then Some f else None)
       })
     }"

definition derive_revocation_basepoint ::
    "('pk, 'sg) secp \<Rightarrow> bytes \<Rightarrow> bool \<Rightarrow> bool \<Rightarrow> ('pk option \<times> bytes option) option option" where
  "derive_revocation_basepoint S seed revocation_basepoint revocation_secret =
     do {
       okm \<leftarrow> hkdf_sha256 keys_size [] seed c_lightning;
       let keys = keys_of okm;
       Some (do {
         b \<leftarrow> when_given revocation_basepoint (pubkey_from_privkey S (k_r keys));
         Some (b, if revocation_secret then Some (k_r keys) else None)
       })
     }"

definition derive_htlc_basepoint ::
    "('pk, 'sg) secp \<Rightarrow> bytes \<Rightarrow> bool \<Rightarrow> bool \<Rightarrow> ('pk option \<times> bytes option) option option" where
  "derive_htlc_basepoint S seed htlc_basepoint htlc_secret =
     do {
       okm \<leftarrow> hkdf_sha256 keys_size [] seed c_lightning;
       let keys = keys_of okm;
       Some (do {
         b \<leftarrow> when_given htlc_basepoint (pubkey_from_privkey S (k_h keys));
         Some (b, if htlc_secret then Some (k_h keys) else None)
       })
     }"

definition towire_basepoints :: "('pk, 'sg) secp \<Rightarrow> bytes \<Rightarrow> 'pk basepoints \<Rightarrow> bytes" where
  "towire_basepoints S p b =
     (let p = towire_pubkey S p (bp_revocation b);
          p = towire_pubkey S p (bp_payment b);
          p = towire_pubkey S p (bp_htlc b)
      in towire_pubkey S p (bp_delayed_payment b))"

definition fromwire_basepoints :: "('pk, 'sg) secp \<Rightarrow> cursor \<Rightarrow> 'pk option basepoints \<times> cursor" where
  "fromwire_basepoints S c =
     (let (revocation, c) = fromwire_pubkey S c;
          (payment, c) = fromwire_pubkey S c;
          (htlc, c) = fromwire_pubkey S c;
          (delayed_payment, c) = fromwire_pubkey S c
      in (\<lparr>bp_revocation = revocation, bp_payment = payment, bp_htlc = htlc, bp_delayed_payment = delayed_payment\<rparr>, c))"

section \<open>Secrets of the commitment transactions\<close>

text \<open>\<open>None\<close> where the assertion fails.\<close>

definition shachain_index :: "u64 \<Rightarrow> u64 option" where
  "shachain_index per_commit_index =
     (if \<not> per_commit_index < push_bit SHACHAIN_BITS 1 then None
      else Some (push_bit SHACHAIN_BITS 1 - 1 - per_commit_index))"

definition revocations_received :: "shachain \<Rightarrow> u64" where
  "revocations_received sc = push_bit SHACHAIN_BITS 1 - (shachain_next_index sc + 1)"

definition per_commit_secret :: "bytes \<Rightarrow> u64 \<Rightarrow> bytes option option" where
  "per_commit_secret shaseed per_commit_index =
     (if per_commit_index \<ge> push_bit SHACHAIN_BITS 1 then Some None
      else do {
        index \<leftarrow> shachain_index per_commit_index;
        s \<leftarrow> shachain_from_seed shaseed index;
        Some (Some s)
      })"

definition per_commit_point :: "('pk, 'sg) secp \<Rightarrow> bytes \<Rightarrow> u64 \<Rightarrow> 'pk option option" where
  "per_commit_point S shaseed per_commit_index =
     do {
       r \<leftarrow> per_commit_secret shaseed per_commit_index;
       case r of
         None \<Rightarrow> Some None
       | Some secret \<Rightarrow> Some (ec_pubkey_create S secret)
     }"

definition shachain_get_secret :: "shachain \<Rightarrow> u64 \<Rightarrow> bytes option option" where
  "shachain_get_secret sc commit_num =
     (if commit_num \<ge> push_bit SHACHAIN_BITS 1 then Some None
      else do {
        index \<leftarrow> shachain_index commit_num;
        shachain_get_hash sc index
      })"

section \<open>Lemmas\<close>

lemma length_c_lightning: "length c_lightning = 11"
  by (simp add: c_lightning_def)

lemma derive_okm:
  "length seed < 2 ^ 63 \<Longrightarrow> hkdf_sha256 keys_size [] seed c_lightning = Some (hkdf_ref 192 [] seed c_lightning)"
  "length seed < 2 ^ 63 \<Longrightarrow> hkdf_sha256 32 [] seed c_lightning = Some (take 32 (hkdf_ref 192 [] seed c_lightning))"
  by (simp_all add: keys_size_def hkdf_sha256_ref hkdf_ref_prefix length_c_lightning)

text \<open>The secret with the number \<open>n\<close>, for the \<open>2 ^ 48\<close> numbers there are.\<close>

definition commit_secret :: "bytes \<Rightarrow> nat \<Rightarrow> bytes" where
  "commit_secret shaseed n = derive_hash (idx (2 ^ 48 - 1 - n)) shaseed"

lemma shachain_index_idx: "n < 2 ^ 48 \<Longrightarrow> shachain_index (of_nat n) = Some (idx (2 ^ 48 - 1 - n))"
proof -
  assume n: "n < 2 ^ 48"
  then have "(of_nat n :: u64) < push_bit SHACHAIN_BITS 1"
    by (simp add: word_less_nat_alt unat_of_nat take_bit_nat_eq_self SHACHAIN_BITS_def)
  moreover have "of_nat (2 ^ 48 - 1 - n) = (of_nat (2 ^ 48 - 1) - of_nat n :: u64)" using n by (intro of_nat_diff) simp
  ultimately show ?thesis by (simp add: shachain_index_def idx_def SHACHAIN_BITS_def)
qed

lemma below_bits: "n < 2 ^ 48 \<Longrightarrow> \<not> (of_nat n :: u64) \<ge> push_bit SHACHAIN_BITS 1"
  by (simp add: word_le_nat_alt unat_of_nat take_bit_nat_eq_self SHACHAIN_BITS_def)

lemma from_seed_idx: "n < 2 ^ 48 \<Longrightarrow> shachain_from_seed shaseed (idx n) = Some (derive_hash (idx n) shaseed)"
  by (simp add: shachain_from_seed_def derive_eq can_derive_def)

lemma per_commit_secret_eq:
  assumes n: "n < 2 ^ 48"
  shows "per_commit_secret shaseed (of_nat n) = Some (Some (commit_secret shaseed n))"
proof -
  have "2 ^ 48 - 1 - n < (2 :: nat) ^ 48" by simp
  from from_seed_idx [OF this, of shaseed] show ?thesis
    unfolding per_commit_secret_def if_not_P [OF below_bits [OF n]] shachain_index_idx [OF n] commit_secret_def by simp
qed

lemma get_secret_eq:
  assumes n: "n < 2 ^ 48"
  shows "shachain_get_secret sc (of_nat n) = shachain_get_hash sc (idx (2 ^ 48 - 1 - n))"
  unfolding shachain_get_secret_def if_not_P [OF below_bits [OF n]] shachain_index_idx [OF n] by simp

lemma received_get_secret:
  assumes "received sc hs" "n < 2 ^ 48"
  shows "shachain_get_secret sc (of_nat n) = Some (if n < length hs then Some (hs ! n) else None)"
proof -
  have h: "holds_hashes sc (2 ^ 48 - length hs) (\<lambda>k. hs ! (2 ^ 48 - 1 - k))" "length hs \<le> 2 ^ 48"
    using received_holds [OF assms(1)] by auto
  have x: "2 ^ 48 - 1 - n < (2 :: nat) ^ 48" "2 ^ 48 - 1 - (2 ^ 48 - 1 - n) = n"
    "2 ^ 48 - length hs \<le> 2 ^ 48 - 1 - n \<longleftrightarrow> n < length hs" using assms(2) h(2) by auto
  show ?thesis unfolding get_secret_eq [OF assms(2)] get_hash_exact [OF h(1) x(1)] x(2,3) ..
qed

lemma received_count:
  assumes "received sc hs"
  shows "revocations_received sc = of_nat (length hs)"
    and "length hs < 2 ^ 48 \<Longrightarrow> shachain_index (of_nat (length hs)) = Some (shachain_next_index sc)"
proof -
  have h: "holds_hashes sc (2 ^ 48 - length hs) (\<lambda>k. hs ! (2 ^ 48 - 1 - k))" "length hs \<le> 2 ^ 48"
    using received_holds [OF assms] by auto
  have m: "sc_min_index sc = idx (2 ^ 48 - length hs)" using h(1) by (simp add: holds_hashes_def)
  have "of_nat (2 ^ 48 - length hs) = (of_nat (2 ^ 48) - of_nat (length hs) :: u64)" using h(2) by (rule of_nat_diff)
  then show "revocations_received sc = of_nat (length hs)"
    by (simp add: revocations_received_def shachain_next_index_def m idx_def SHACHAIN_BITS_def)
  assume l: "length hs < 2 ^ 48"
  then have "2 ^ 48 - length hs = Suc (2 ^ 48 - 1 - length hs)" by simp
  with h(1) have "holds_hashes sc (Suc (2 ^ 48 - 1 - length hs)) (\<lambda>k. hs ! (2 ^ 48 - 1 - k))" by simp
  from holds_next [OF this] shachain_index_idx [OF l]
  show "shachain_index (of_nat (length hs)) = Some (shachain_next_index sc)" by simp
qed

lemma wire_basepoints_codec:
  assumes S: "secp_der33 S" "secp_parse_law S"
  shows "wire_codec (towire_basepoints S) (fromwire_basepoints S) (\<lambda>_. True)
    (\<lambda>b. \<lparr>bp_revocation = Some (bp_revocation b), bp_payment = Some (bp_payment b), bp_htlc = Some (bp_htlc b),
      bp_delayed_payment = Some (bp_delayed_payment b)\<rparr>)"
proof unfold_locales
  have pk: "fromwire_pubkey S (Some (ec_pubkey_serialize S k @ r)) = (Some k, Some r)" for k r
    using wire_codec.get_put [OF wire_pubkey_codec [OF S], of k r] by (simp add: towire_defs)
  fix b :: "'a basepoints" and r
  show "fromwire_basepoints S (Some (towire_basepoints S [] b @ r)) =
      (\<lparr>bp_revocation = Some (bp_revocation b), bp_payment = Some (bp_payment b), bp_htlc = Some (bp_htlc b),
        bp_delayed_payment = Some (bp_delayed_payment b)\<rparr>, Some r)"
    by (simp add: towire_basepoints_def fromwire_basepoints_def towire_defs pk)
next
  show "strict_reader (fromwire_basepoints S)"
    unfolding fromwire_basepoints_def [abs_def] by (intro strict)
qed (simp add: towire_basepoints_def towire_defs)

section \<open>Properties\<close>

text \<open>
  C14: the secrets of revoked commitment transactions can all be found again. A chain that has
  accepted the secrets \<open>hs\<close> counts them, gives the secret with the number \<open>n\<close> for every \<open>n\<close>
  below that count, whatever secrets the peer sent, and none for a later number.
\<close>

theorem revoked_secrets_kept:
  assumes "received sc hs" "n < 2 ^ 48"
  shows "revocations_received sc = of_nat (length hs) \<and>
    shachain_get_secret sc (of_nat n) = Some (if n < length hs then Some (hs ! n) else None)"
  using received_count(1) [OF assms(1)] received_get_secret [OF assms] by simp

theorem revoked_secrets_kept_witness:
  "\<exists>sc. received sc [[7]] \<and> shachain_get_secret sc 0 = Some (Some [7]) \<and> shachain_get_secret sc 5 = Some None"
proof -
  obtain sc where sc: "received sc [[7]]" using sample_received by blast
  from revoked_secrets_kept [OF sc, of 0] revoked_secrets_kept [OF sc, of 5] sc show ?thesis by auto
qed

text \<open>
  C15: a peer that follows the protocol is never refused. When the secrets received so far are
  those of one seed in their order, the next secret of that seed is accepted at the index
  \<^verbatim>\<open>channeld\<close> adds it at, and neither side fails an assertion.
\<close>

theorem honest_secret_accepted:
  assumes "received sc hs" "length hs < 2 ^ 48"
    and "\<forall>n < length hs. per_commit_secret shaseed (of_nat n) = Some (Some (hs ! n))"
  shows "\<exists>h index sc'. per_commit_secret shaseed (revocations_received sc) = Some (Some h) \<and>
    shachain_index (revocations_received sc) = Some index \<and>
    shachain_add_hash sc index h = Some (True, sc') \<and> received sc' (hs @ [h])"
proof -
  let ?h = "commit_secret shaseed (length hs)"
  have s: "shachain_from_seed shaseed (of_nat (2 ^ 48 - 1 - n)) = Some (commit_secret shaseed n)" for n
    unfolding commit_secret_def idx_def [symmetric] by (rule from_seed_idx) simp
  have "\<forall>n < length hs. shachain_from_seed shaseed (of_nat (2 ^ 48 - 1 - n)) = Some (hs ! n)"
  proof (intro allI impI)
    fix n assume n: "n < length hs"
    then have "n < 2 ^ 48" using assms(2) by (rule less_trans)
    with assms(3) n per_commit_secret_eq [of n shaseed] have "hs ! n = commit_secret shaseed n" by simp
    then show "shachain_from_seed shaseed (of_nat (2 ^ 48 - 1 - n)) = Some (hs ! n)" using s [of n] by simp
  qed
  from seed_hashes_accepted [OF assms(1,2) this s] obtain sc' where
    sc': "shachain_add_hash sc (shachain_next_index sc) ?h = Some (True, sc')" by blast
  have "per_commit_secret shaseed (revocations_received sc) = Some (Some ?h)"
    unfolding received_count(1) [OF assms(1)] by (rule per_commit_secret_eq [OF assms(2)])
  moreover have "shachain_index (revocations_received sc) = Some (shachain_next_index sc)"
    unfolding received_count(1) [OF assms(1)] by (rule received_count(2) [OF assms(1,2)])
  ultimately show ?thesis using sc' received_next [OF assms(1,2) sc'] by blast
qed

theorem honest_secret_accepted_witness:
  "\<exists>h sc sc'. received sc [] \<and> per_commit_secret (replicate 32 1) 0 = Some (Some h) \<and> received sc' [h]"
proof -
  have c: "received (shachain_init sample_chain) []" by (rule received_none) (simp add: sample_chain_def)
  have r: "revocations_received (shachain_init sample_chain) = 0" using received_count(1) [OF c] by simp
  from honest_secret_accepted [OF c, of "replicate 32 1"] c r show ?thesis by auto
qed

text \<open>
  C16: the functions that derive one key of a channel agree with the one that derives them all.
  No derivation fails an assertion; when \<^verbatim>\<open>derive_basepoints\<close> succeeds, each public key belongs to
  its secret, and each cut-down version returns its part, although \<^verbatim>\<open>derive_funding_key\<close> asks for
  32 bytes of the keying material instead of 192.
\<close>

theorem cutdown_derivations_agree:
  assumes "length seed = 32"
  shows "\<exists>r. derive_basepoints S seed True True True True = Some r \<and>
    (\<forall>d. r = Some d \<longrightarrow> (\<exists>f b s sh.
      d = \<lparr>dv_funding_pubkey = Some f, dv_basepoints = Some b, dv_secrets = Some s, dv_shaseed = Some sh\<rparr> \<and>
      pubkey_from_privkey S (se_funding_privkey s) = Some f \<and>
      pubkey_from_privkey S (se_revocation_basepoint_secret s) = Some (bp_revocation b) \<and>
      pubkey_from_privkey S (se_payment_basepoint_secret s) = Some (bp_payment b) \<and>
      pubkey_from_privkey S (se_htlc_basepoint_secret s) = Some (bp_htlc b) \<and>
      pubkey_from_privkey S (se_delayed_payment_basepoint_secret s) = Some (bp_delayed_payment b) \<and>
      derive_funding_key S seed True True = Some (Some (Some f, Some (se_funding_privkey s))) \<and>
      derive_revocation_basepoint S seed True True = Some (Some (Some (bp_revocation b), Some (se_revocation_basepoint_secret s))) \<and>
      derive_payment_basepoint S seed True True = Some (Some (Some (bp_payment b), Some (se_payment_basepoint_secret s))) \<and>
      derive_htlc_basepoint S seed True True = Some (Some (Some (bp_htlc b), Some (se_htlc_basepoint_secret s))) \<and>
      derive_delayed_payment_basepoint S seed True True =
        Some (Some (Some (bp_delayed_payment b), Some (se_delayed_payment_basepoint_secret s))) \<and>
      derive_shaseed seed = Some sh))"
proof -
  have s: "length seed < 2 ^ 63" using assms by simp
  define okm where "okm = hkdf_ref 192 [] seed c_lightning"
  have f: "take 32 okm = k_f (keys_of okm)" by (simp add: keys_of_def)
  have okm: "hkdf_sha256 keys_size [] seed c_lightning = Some okm" "hkdf_sha256 32 [] seed c_lightning = Some (k_f (keys_of okm))"
    using derive_okm [OF s] by (simp_all only: okm_def [symmetric] f)
  show ?thesis
    unfolding derive_basepoints_def derive_funding_key_def derive_revocation_basepoint_def derive_payment_basepoint_def
      derive_htlc_basepoint_def derive_delayed_payment_basepoint_def derive_shaseed_def okm Let_def when_given_def
    by (auto simp: bind_eq_Some_conv)
qed

theorem cutdown_derivations_agree_witness:
  "\<exists>d f s. derive_basepoints byte_secp (replicate 32 7) True True True True = Some (Some d) \<and>
     dv_funding_pubkey d = Some f \<and> dv_secrets d = Some s \<and>
     derive_funding_key byte_secp (replicate 32 7) True True = Some (Some (Some f, Some (se_funding_privkey s)))"
proof -
  let ?seed = "replicate 32 7 :: bytes"
  have "length ?seed = 32" by simp
  note * = cutdown_derivations_agree [OF this, of byte_secp]
  have "derive_basepoints byte_secp ?seed True True True True \<noteq> Some None"
    using derive_okm(1) [of ?seed]
    by (simp add: derive_basepoints_def when_given_def pubkey_from_privkey_def pubkey_from_secret_def Let_def)
  with * show ?thesis by fastforce
qed

end
