(* ===== verification/WireStructs.thy ===== *)
theory WireStructs
  imports Wire Shachain FullChannel
begin

text \<open>
  \<^verbatim>\<open>common/htlc_wire.c\<close>, \<^verbatim>\<open>common/channel_config.c\<close> and \<^verbatim>\<open>common/utxo.c\<close>: the structures the daemons
  send each other. Every reader is strict, and reads back what the writer wrote; the exception
  is the minimum HTLC value of a channel configuration, which is cut to 32 bits.
\<close>

unbundle bit_operations_syntax

section \<open>HTLC messages to the master\<close>

definition TOTAL_PACKET_SIZE :: nat where
  "TOTAL_PACKET_SIZE = 1 + 33 + 32 + (1 + 32 + 32) * 20"


definition UPDATE :: u16 where
  "UPDATE = 0x1000"









definition fromwire_known :: "cursor \<Rightarrow> (u64 \<times> bytes) \<times> cursor" where
  "fromwire_known c = (let (index, c) = fromwire_u64 c; (hash, c) = fromwire_sha256 c in ((index, hash), c))"


definition fromwire_added_htlc :: "cursor \<Rightarrow> added_htlc \<times> cursor" where
  "fromwire_added_htlc c =
     (let (i, c) = fromwire_u64 c;
          (amount_msat, c) = fromwire_u64 c;
          (payment_hash, c) = fromwire_sha256 c;
          (cltv_expiry, c) = fromwire_u32 c;
          (onion, c) = fromwire_u8_array c TOTAL_PACKET_SIZE
      in (\<lparr>ad_id = i, ad_amount_msat = amount_msat, ad_payment_hash = payment_hash,
            ad_cltv_expiry = cltv_expiry, ad_onion_routing_packet = onion\<rparr>, c))"

definition fromwire_fulfilled_htlc :: "cursor \<Rightarrow> fulfilled_htlc \<times> cursor" where
  "fromwire_fulfilled_htlc c =
     (let (i, c) = fromwire_u64 c; (preimage, c) = fromwire_preimage c
      in (\<lparr>fu_id = i, fu_payment_preimage = preimage\<rparr>, c))"

definition fromwire_failed_htlc :: "cursor \<Rightarrow> failed_htlc \<times> cursor" where
  "fromwire_failed_htlc c =
     (let (i, c) = fromwire_u64 c;
          (failcode, c) = fromwire_u16 c
      in if failcode = 0
         then
           let (failreason_len, c) = fromwire_u16 c;
               (failreason, c) = fromwire_u8_array c (unat failreason_len)
           in (\<lparr>fa_id = i, fa_failcode = failcode, fa_failreason = Some failreason, fa_scid = None\<rparr>, c)
         else if failcode AND UPDATE \<noteq> 0
         then
           let (scid, c) = fromwire_short_channel_id c
           in (\<lparr>fa_id = i, fa_failcode = failcode, fa_failreason = None, fa_scid = Some scid\<rparr>, c)
         else (\<lparr>fa_id = i, fa_failcode = failcode, fa_failreason = None, fa_scid = None\<rparr>, c))"

text \<open>The enumerators in the order of their values.\<close>

definition htlc_states :: "htlc_state list" where
  "htlc_states =
     [SENT_ADD_HTLC, SENT_ADD_COMMIT, RCVD_ADD_REVOCATION, RCVD_ADD_ACK_COMMIT, SENT_ADD_ACK_REVOCATION,
      RCVD_REMOVE_HTLC, RCVD_REMOVE_COMMIT, SENT_REMOVE_REVOCATION, SENT_REMOVE_ACK_COMMIT, RCVD_REMOVE_ACK_REVOCATION,
      RCVD_ADD_HTLC, RCVD_ADD_COMMIT, SENT_ADD_REVOCATION, SENT_ADD_ACK_COMMIT, RCVD_ADD_ACK_REVOCATION,
      SENT_REMOVE_HTLC, SENT_REMOVE_COMMIT, RCVD_REMOVE_REVOCATION, RCVD_REMOVE_ACK_COMMIT, SENT_REMOVE_ACK_REVOCATION,
      HTLC_STATE_INVALID]"

definition fromwire_htlc_state :: "cursor \<Rightarrow> htlc_state \<times> cursor" where
  "fromwire_htlc_state c =
     (let (hstate, c) = fromwire_u8 c
      in if unat hstate \<ge> htlc_state_num HTLC_STATE_INVALID
         then (HTLC_STATE_INVALID, fromwire_fail)
         else (htlc_states ! unat hstate, c))"


text \<open>\<open>None\<close> is \<^verbatim>\<open>NUM_SIDES\<close>.\<close>

definition fromwire_side :: "cursor \<Rightarrow> side option \<times> cursor" where
  "fromwire_side c =
     (let (s, c) = fromwire_u8 c
      in if unat s \<ge> 2 then (None, fromwire_fail)
         else (Some (if s = 0 then LOCAL else REMOTE), c))"


section \<open>Channel configuration\<close>

definition towire_channel_config :: "bytes \<Rightarrow> channel_config \<Rightarrow> bytes" where
  "towire_channel_config p config =
     (let p = towire_u64 p (cc_dust_limit_satoshis config);
          p = towire_u64 p (cc_max_htlc_value_in_flight_msat config);
          p = towire_u64 p (cc_channel_reserve_satoshis config);
          p = towire_u32 p (ucast (cc_htlc_minimum_msat config));
          p = towire_u16 p (cc_to_self_delay config)
      in towire_u16 p (cc_max_accepted_htlcs config))"

definition fromwire_channel_config :: "channel_config \<Rightarrow> cursor \<Rightarrow> channel_config \<times> cursor" where
  "fromwire_channel_config config c =
     (let (dust_limit, c) = fromwire_u64 c;
          (max_htlc_value, c) = fromwire_u64 c;
          (reserve, c) = fromwire_u64 c;
          (htlc_minimum, c) = fromwire_u32 c;
          (to_self_delay, c) = fromwire_u16 c;
          (max_accepted, c) = fromwire_u16 c
      in (config\<lparr>cc_dust_limit_satoshis := dust_limit, cc_max_htlc_value_in_flight_msat := max_htlc_value,
            cc_channel_reserve_satoshis := reserve, cc_htlc_minimum_msat := ucast htlc_minimum,
            cc_to_self_delay := to_self_delay, cc_max_accepted_htlcs := max_accepted\<rparr>, c))"

section \<open>Wallet outputs\<close>

record 'pk unilateral_close_info =
  uc_channel_id :: u64
  uc_peer_id :: 'pk
  uc_commitment_point :: 'pk

record 'pk utxo =
  ut_txid :: bytes
  ut_outnum :: u32
  ut_amount :: u64
  ut_keyindex :: u32
  ut_is_p2sh :: bool
  ut_status :: u8
  ut_close_info :: "'pk unilateral_close_info option"
  ut_blockheight :: "u32 option"
  ut_spendheight :: "u32 option"


text \<open>
  A key that could not be read is \<open>None\<close>. The structure is allocated without being cleared: \<open>mem\<close> is what
  the memory held, which the status and the two heights keep.
\<close>

definition fromwire_utxo :: "('pk, 'sg) secp \<Rightarrow> 'pk option utxo \<Rightarrow> cursor \<Rightarrow> 'pk option utxo \<times> cursor" where
  "fromwire_utxo S mem c =
     (let (txid, c) = fromwire_bitcoin_txid c;
          (outnum, c) = fromwire_u32 c;
          (amount, c) = fromwire_u64 c;
          (keyindex, c) = fromwire_u32 c;
          (is_p2sh, c) = fromwire_bool c;
          (is_unilateral_close, c) = fromwire_bool c
      in if is_unilateral_close
         then
           let (channel_id, c) = fromwire_u64 c;
               (peer_id, c) = fromwire_pubkey S c;
               (commitment_point, c) = fromwire_pubkey S c
           in (mem\<lparr>ut_txid := txid, ut_outnum := outnum, ut_amount := amount, ut_keyindex := keyindex, ut_is_p2sh := is_p2sh,
                 ut_close_info := Some \<lparr>uc_channel_id = channel_id, uc_peer_id = peer_id,
                   uc_commitment_point = commitment_point\<rparr>\<rparr>, c)
         else (mem\<lparr>ut_txid := txid, ut_outnum := outnum, ut_amount := amount, ut_keyindex := keyindex, ut_is_p2sh := is_p2sh,
                 ut_close_info := None\<rparr>, c))"

section \<open>Strict readers\<close>

lemma strict_structs [strict]:
  "strict_reader fromwire_added_htlc" "strict_reader fromwire_fulfilled_htlc" "strict_reader fromwire_failed_htlc"
  "strict_reader fromwire_htlc_state" "strict_reader fromwire_side" "strict_reader fromwire_known"
  "strict_reader (fromwire_channel_config config)" "strict_reader (fromwire_utxo S mem)"
  unfolding fromwire_added_htlc_def [abs_def] fromwire_fulfilled_htlc_def [abs_def] fromwire_failed_htlc_def [abs_def]
    fromwire_htlc_state_def [abs_def] fromwire_side_def [abs_def] fromwire_known_def [abs_def]
    fromwire_channel_config_def [abs_def] fromwire_utxo_def [abs_def]
  by (intro strict)+


section \<open>Round trips\<close>

text \<open>What a primitive reader makes of the bytes of its writer, with the writers unfolded.\<close>

lemma fromwire_reads:
  "fromwire_u8 (Some (b # r)) = (b, Some r)"
  "fromwire_u16 (Some (cpu_to_be16 v @ r)) = (v, Some r)"
  "fromwire_u32 (Some (cpu_to_be32 w @ r)) = (w, Some r)"
  "fromwire_u64 (Some (cpu_to_be64 x @ r)) = (x, Some r)"
  "fromwire_short_channel_id (Some (cpu_to_be64 x @ r)) = (x, Some r)"
  "fromwire_bool (Some (1 # r)) = (True, Some r)" "fromwire_bool (Some (0 # r)) = (False, Some r)"
  "length d = n \<Longrightarrow> fromwire_u8_array (Some (d @ r)) n = (d, Some r)"
  "length h = 32 \<Longrightarrow> fromwire_sha256 (Some (h @ r)) = (h, Some r)"
  "length h = 32 \<Longrightarrow> fromwire_preimage (Some (h @ r)) = (h, Some r)"
  "length h = 32 \<Longrightarrow> fromwire_bitcoin_txid (Some (h @ r)) = (h, Some r)"
  using wu8.get_put [of b r] wu16.get_put [of v r] wu32.get_put [of w r] wu64.get_put [of x r] wscid.get_put [of x r]
    wbool.get_put [of True r] wbool.get_put [of False r] wsha256.get_put [of h r] wpreimage.get_put [of h r]
    wtxid.get_put [of h r]
  by (simp_all add: towire_defs fromwire_u8_array_def fromwire_app copied_def)
















text \<open>The configuration: the identifier is not sent, and the minimum HTLC value loses its upper half.\<close>

interpretation wconfig: wire_codec towire_channel_config "fromwire_channel_config config" "\<lambda>_. True"
    "\<lambda>x. x\<lparr>cc_id := cc_id config, cc_htlc_minimum_msat := ucast (ucast (cc_htlc_minimum_msat x) :: u32)\<rparr>"
  for config :: channel_config
  by unfold_locales
    (auto simp: towire_channel_config_def fromwire_channel_config_def towire_defs fromwire_reads Let_def strict_structs)



section \<open>Properties\<close>






text \<open>
  C39: a channel configuration does not survive. \<^verbatim>\<open>htlc_minimum_msat\<close> has 64 bits in the structure
  and 32 in the message, so that it arrives modulo \<open>2 ^ 32\<close>; every other field that is sent
  arrives as it was. A channel whose peer asked for a minimum of \<open>2 ^ 32\<close> millisatoshi arrives
  with no minimum.
\<close>

theorem config_minimum_cut:
  "(\<exists>y. carried (fromwire_channel_config config) (towire_channel_config [] x) y \<and>
     unat (cc_htlc_minimum_msat y) = unat (cc_htlc_minimum_msat x) mod 2 ^ 32 \<and>
     y = x\<lparr>cc_id := cc_id config, cc_htlc_minimum_msat := cc_htlc_minimum_msat y\<rparr>) \<and>
   cc_htlc_minimum_msat (fst (fromwire_channel_config config
       (Some (towire_channel_config [] (x\<lparr>cc_htlc_minimum_msat := 2 ^ 32\<rparr>))))) = 0"
proof (rule conjI)
  have "unat (ucast (ucast v :: u32) :: u64) = unat v mod 2 ^ 32" for v :: u64
  proof -
    have "unat (ucast (ucast v :: u32) :: u64) = take_bit 32 (unat v)"
      by (simp add: unsigned_ucast_eq unsigned_take_bit_eq)
    then show ?thesis by (simp only: take_bit_eq_mod)
  qed
  then show "\<exists>y. carried (fromwire_channel_config config) (towire_channel_config [] x) y \<and>
     unat (cc_htlc_minimum_msat y) = unat (cc_htlc_minimum_msat x) mod 2 ^ 32 \<and>
     y = x\<lparr>cc_id := cc_id config, cc_htlc_minimum_msat := cc_htlc_minimum_msat y\<rparr>"
    using wconfig.carried [of config x]
    by (intro exI [of _ "x\<lparr>cc_id := cc_id config, cc_htlc_minimum_msat := ucast (ucast (cc_htlc_minimum_msat x) :: u32)\<rparr>"])
      simp
next
  have "(ucast (ucast (2 ^ 32 :: u64) :: u32) :: u64) = 0" by simp
  then show "cc_htlc_minimum_msat (fst (fromwire_channel_config config
       (Some (towire_channel_config [] (x\<lparr>cc_htlc_minimum_msat := 2 ^ 32\<rparr>))))) = 0"
    using wconfig.get_put [of config "x\<lparr>cc_htlc_minimum_msat := 2 ^ 32\<rparr>" "[]"] by simp
qed

end
