(* ===== verification/Bitmap.thy ===== *)
theory Bitmap
  imports Prelude
begin

text \<open>
  \<^verbatim>\<open>ccan/bitmap\<close>: an array of bits in 64-bit words, the first bit of a word its highest one. A
  word is kept in the byte order the functions compute in: \<^verbatim>\<open>bitmap_bswap\<close> exchanges bytes and
  so commutes with the bitwise operations that are applied to the stored word. Positions are
  below \<open>2 ^ 64 - 64\<close>, where \<^verbatim>\<open>BIT_ALIGN_UP\<close> does not wrap. \<open>None\<close> is a failed assertion or an
  access outside the array. The locale \<open>bit_array\<close> is what the users of a bitmap rely on.
\<close>

unbundle bit_operations_syntax

section \<open>Operations\<close>

type_synonym bitmap = "u64 list"

definition BITMAP_NWORDS :: "nat \<Rightarrow> nat" where
  "BITMAP_NWORDS n = (n + 64 - 1) div 64"

definition BIT_ALIGN_DOWN :: "nat \<Rightarrow> nat" where
  "BIT_ALIGN_DOWN n = n div 64 * 64"

definition BIT_ALIGN_UP :: "nat \<Rightarrow> nat" where
  "BIT_ALIGN_UP n = BIT_ALIGN_DOWN (n + 64 - 1)"

definition headmask :: "nat \<Rightarrow> u64" where
  "headmask n = drop_bit (n mod 64) (- 1)"

definition tailmask :: "nat \<Rightarrow> u64" where
  "tailmask m = NOT (drop_bit (m mod 64) (- 1))"

definition bitmap_word :: "bitmap \<Rightarrow> nat \<Rightarrow> u64 option" where
  "bitmap_word bm n = (if n div 64 < length bm then Some (bm ! (n div 64)) else None)"

definition bitmap_word_update :: "(u64 \<Rightarrow> u64) \<Rightarrow> bitmap \<Rightarrow> nat \<Rightarrow> bitmap option" where
  "bitmap_word_update f bm n =
     (if n div 64 < length bm then Some (bm[n div 64 := f (bm ! (n div 64))]) else None)"

text \<open>\<^verbatim>\<open>memset\<close> of the words from the position \<open>an\<close> to before \<open>am\<close>.\<close>

definition memset_words :: "bitmap \<Rightarrow> nat \<Rightarrow> nat \<Rightarrow> u64 \<Rightarrow> bitmap option" where
  "memset_words bm an am v =
     (if am div 64 \<le> length bm
      then Some (take (an div 64) bm @ replicate ((am - an) div 64) v @ drop (am div 64) bm)
      else None)"

definition bitmap_test_bit :: "bitmap \<Rightarrow> nat \<Rightarrow> bool option" where
  "bitmap_test_bit bm n =
     do { w \<leftarrow> bitmap_word bm n; Some (w AND push_bit (64 - n mod 64 - 1) 1 \<noteq> 0) }"

definition bitmap_zero_range :: "bitmap \<Rightarrow> nat \<Rightarrow> nat \<Rightarrow> bitmap option" where
  "bitmap_zero_range bm n m =
     (let an = BIT_ALIGN_UP n; am = BIT_ALIGN_DOWN m
      in if \<not> m \<ge> n then None
         else if am < an then bitmap_word_update (\<lambda>w. w AND NOT (headmask n AND tailmask m)) bm n
         else do {
           bm \<leftarrow> if an > n then bitmap_word_update (\<lambda>w. w AND NOT (headmask n)) bm n else Some bm;
           bm \<leftarrow> if am > an then memset_words bm an am 0 else Some bm;
           if m > am then bitmap_word_update (\<lambda>w. w AND NOT (tailmask m)) bm m else Some bm
         })"

definition bitmap_fill_range :: "bitmap \<Rightarrow> nat \<Rightarrow> nat \<Rightarrow> bitmap option" where
  "bitmap_fill_range bm n m =
     (let an = BIT_ALIGN_UP n; am = BIT_ALIGN_DOWN m
      in if \<not> m \<ge> n then None
         else if am < an then bitmap_word_update (\<lambda>w. w OR (headmask n AND tailmask m)) bm n
         else do {
           bm \<leftarrow> if an > n then bitmap_word_update (\<lambda>w. w OR headmask n) bm n else Some bm;
           bm \<leftarrow> if am > an then memset_words bm an am (- 1) else Some bm;
           if m > am then bitmap_word_update (\<lambda>w. w OR tailmask m) bm m else Some bm
         })"

text \<open>The number of leading zeroes, by the loop of the version without compiler support.\<close>

definition bitmap_clz :: "u64 \<Rightarrow> nat" where
  "bitmap_clz w = (case find (\<lambda>lz. w AND push_bit (63 - lz) 1 \<noteq> 0) [0..<64] of Some lz \<Rightarrow> lz | None \<Rightarrow> 64)"

text \<open>The loop over whole words: \<open>Some (Some i)\<close> is a return of \<open>i\<close>.\<close>

function ffs_words :: "bitmap \<Rightarrow> nat \<Rightarrow> nat \<Rightarrow> nat option option" where
  "ffs_words bm an am =
     (if an < am
      then
        case bitmap_word bm an of
          None \<Rightarrow> None
        | Some w \<Rightarrow> if w \<noteq> 0 then Some (Some (an + bitmap_clz w)) else ffs_words bm (an + 64) am
      else Some None)"
  by pat_completeness auto
termination by (relation "measure (\<lambda>(_, an, am). am - an)") auto

definition bitmap_ffs :: "bitmap \<Rightarrow> nat \<Rightarrow> nat \<Rightarrow> nat option" where
  "bitmap_ffs bm n m =
     (let an = BIT_ALIGN_UP n; am = BIT_ALIGN_DOWN m
      in if \<not> m \<ge> n then None
         else if am < an
         then do {
           w \<leftarrow> bitmap_word bm n;
           let w = w AND (headmask n AND tailmask m);
           Some (if w \<noteq> 0 then am + bitmap_clz w else m)
         }
         else do {
           w \<leftarrow> if an > n then bitmap_word bm n else Some 0;
           let w = w AND headmask n;
           if an > n \<and> w \<noteq> 0 then Some (BIT_ALIGN_DOWN n + bitmap_clz w)
           else do {
             r \<leftarrow> ffs_words bm an am;
             case r of
               Some i \<Rightarrow> Some i
             | None \<Rightarrow>
                 if m > am
                 then do {
                   w \<leftarrow> bitmap_word bm m;
                   let w = w AND tailmask m;
                   Some (if w \<noteq> 0 then am + bitmap_clz w else m)
                 }
                 else Some m
           }
         })"

declare ffs_words.simps [simp del]

section \<open>The bits\<close>

definition bm_bit :: "bitmap \<Rightarrow> nat \<Rightarrow> bool" where
  "bm_bit bm i \<longleftrightarrow> i div 64 < length bm \<and> bit (bm ! (i div 64)) (63 - i mod 64)"

lemma bit_headmask: "j < 64 \<Longrightarrow> bit (headmask n) (63 - j) \<longleftrightarrow> n mod 64 \<le> j"
  by (auto simp: headmask_def bit_drop_bit_eq bit_mask_iff less_diff_conv)

lemma bit_tailmask: "j < 64 \<Longrightarrow> bit (tailmask m) (63 - j) \<longleftrightarrow> j < m mod 64"
  by (auto simp: tailmask_def bit_not_iff bit_drop_bit_eq bit_mask_iff less_diff_conv)

lemma align_cases:
  fixes n m :: nat
  assumes "n \<le> m"
  obtains (one) "n div 64 = m div 64" "n mod 64 \<noteq> 0" "BIT_ALIGN_DOWN m < BIT_ALIGN_UP n" "BIT_ALIGN_DOWN m = 64 * (n div 64)"
  | (more) a where "BIT_ALIGN_UP n = 64 * a" "BIT_ALIGN_DOWN m = 64 * (m div 64)" "a \<le> m div 64"
      "(n = 64 * a \<and> BIT_ALIGN_UP n = n) \<or> (n mod 64 \<noteq> 0 \<and> a = Suc (n div 64) \<and> n < BIT_ALIGN_UP n)"
proof -
  define q r where "q = n div 64" and "r = n mod 64"
  then have n: "n = 64 * q + r" "r < 64" by simp_all
  have qr: "n div 64 = q" "n mod 64 = r" using n by simp_all
  have r: "(r + 63) div 64 = (if r = 0 then 0 else 1)" using n(2) by (auto intro: div_nat_eqI)
  have "(n + 63) div 64 = q + (r + 63) div 64" unfolding n(1) add.assoc by (subst div_mult_self4) simp_all
  then have up: "BIT_ALIGN_UP n = (if n mod 64 = 0 then n else 64 * Suc (n div 64))"
    unfolding r qr BIT_ALIGN_UP_def BIT_ALIGN_DOWN_def using n(1) by (auto simp: add.commute)
  have dn: "BIT_ALIGN_DOWN m = 64 * (m div 64)" by (simp add: BIT_ALIGN_DOWN_def)
  have le: "n div 64 \<le> m div 64" using assms by (rule div_le_mono)
  show thesis
  proof (cases "n mod 64 \<noteq> 0 \<and> n div 64 = m div 64")
    case True
    then show thesis using one up dn by simp
  next
    case False
    show thesis
    proof (cases "n mod 64 = 0")
      case True
      then show thesis using more [of q] n qr up dn le by simp
    next
      case nz: False
      then have "Suc (n div 64) \<le> m div 64" using False le by simp
      moreover have "n < 64 * Suc (n div 64)" using n qr by simp
      ultimately show thesis using more [of "Suc (n div 64)"] nz up dn by simp
    qed
  qed
qed

lemma div_mod_range:
  fixes i n m :: nat
  shows "i div 64 = n div 64 \<and> n mod 64 \<le> i mod 64 \<longleftrightarrow> n \<le> i \<and> i < 64 * Suc (n div 64)"
    and "i div 64 = m div 64 \<and> i mod 64 < m mod 64 \<longleftrightarrow> 64 * (m div 64) \<le> i \<and> i < m"
proof -
  define q r p s where "q = i div 64" "r = i mod 64" "p = n div 64" "s = n mod 64"
  define u v where "u = m div 64" "v = m mod 64"
  have e: "i = 64 * q + r" "r < 64" "n = 64 * p + s" "s < 64" "m = 64 * u + v" "v < 64"
    by (simp_all add: q_r_p_s_def u_v_def)
  show "i div 64 = n div 64 \<and> n mod 64 \<le> i mod 64 \<longleftrightarrow> n \<le> i \<and> i < 64 * Suc (n div 64)"
    unfolding q_r_p_s_def [symmetric] using e(1-4) by (cases q p rule: linorder_cases) auto
  show "i div 64 = m div 64 \<and> i mod 64 < m mod 64 \<longleftrightarrow> 64 * (m div 64) \<le> i \<and> i < m"
    unfolding q_r_p_s_def [symmetric] u_v_def [symmetric] using e(1,2,5,6) by (cases q u rule: linorder_cases) auto
qed

text \<open>Both range operations at once: \<open>b\<close> is the new value of the bits.\<close>

definition set_bits :: "bool \<Rightarrow> u64 \<Rightarrow> u64 \<Rightarrow> u64" where
  "set_bits b k w = (if b then w OR k else w AND NOT k)"

definition set_range :: "bool \<Rightarrow> bitmap \<Rightarrow> nat \<Rightarrow> nat \<Rightarrow> bitmap option" where
  "set_range b bm n m =
     (let an = BIT_ALIGN_UP n; am = BIT_ALIGN_DOWN m
      in if \<not> m \<ge> n then None
         else if am < an then bitmap_word_update (set_bits b (headmask n AND tailmask m)) bm n
         else do {
           bm \<leftarrow> if an > n then bitmap_word_update (set_bits b (headmask n)) bm n else Some bm;
           bm \<leftarrow> if am > an then memset_words bm an am (if b then - 1 else 0) else Some bm;
           if m > am then bitmap_word_update (set_bits b (tailmask m)) bm m else Some bm
         })"

lemma range_ops: "bitmap_fill_range bm n m = set_range True bm n m" "bitmap_zero_range bm n m = set_range False bm n m"
proof -
  have "set_bits True k = (\<lambda>w. w OR k)" "set_bits False k = (\<lambda>w. w AND NOT k)" for k
    by (simp_all add: set_bits_def fun_eq_iff)
  then show "bitmap_fill_range bm n m = set_range True bm n m" "bitmap_zero_range bm n m = set_range False bm n m"
    by (simp_all only: bitmap_fill_range_def bitmap_zero_range_def set_range_def if_True if_False)
qed

definition bits_set :: "bool \<Rightarrow> bitmap \<Rightarrow> nat \<Rightarrow> nat \<Rightarrow> bitmap \<Rightarrow> bool" where
  "bits_set b bm n m bm' \<longleftrightarrow> length bm' = length bm \<and>
     (\<forall>i < 64 * length bm. bm_bit bm' i = (if n \<le> i \<and> i < m then b else bm_bit bm i))"

lemma bits_set_refl: "bits_set b bm n n bm"
  by (auto simp: bits_set_def)

lemma bits_set_trans: "bits_set b bm n k bm1 \<Longrightarrow> bits_set b bm1 k m bm2 \<Longrightarrow> n \<le> k \<Longrightarrow> k \<le> m \<Longrightarrow> bits_set b bm n m bm2"
  by (auto simp: bits_set_def)

lemma index_div: "i < 64 * length bm \<longleftrightarrow> i div 64 < length (bm :: bitmap)"
  by (simp add: div_less_iff_less_mult mult.commute)

lemma update_word_bits:
  assumes "x div 64 < length bm"
    and "\<And>i. i div 64 = x div 64 \<Longrightarrow> bit k (63 - i mod 64) \<longleftrightarrow> n \<le> i \<and> i < m"
    and "\<And>i. n \<le> i \<Longrightarrow> i < m \<Longrightarrow> i div 64 = x div 64"
  shows "\<exists>bm'. bitmap_word_update (set_bits b k) bm x = Some bm' \<and> bits_set b bm n m bm'"
proof -
  have "bit (set_bits b k w) (63 - i mod 64) = (if bit k (63 - i mod 64) then b else bit w (63 - i mod 64))" for w i
    by (auto simp: set_bits_def bit_or_iff bit_and_iff bit_not_iff)
  then show ?thesis using assms
    by (auto simp: bitmap_word_update_def bits_set_def bm_bit_def nth_list_update index_div)
qed

lemma memset_bits:
  assumes "a \<le> c" "c \<le> length bm"
  shows "\<exists>bm'. memset_words bm (64 * a) (64 * c) (if b then - 1 else 0) = Some bm' \<and> bits_set b bm (64 * a) (64 * c) bm'"
proof -
  let ?v = "if b then - 1 else 0 :: u64"
  let ?bm = "take a bm @ replicate (c - a) ?v @ drop c bm"
  have s: "memset_words bm (64 * a) (64 * c) ?v = Some ?bm"
    using assms by (simp add: memset_words_def diff_mult_distrib2 [symmetric])
  have l: "length ?bm = length bm" using assms by simp
  have "bm_bit ?bm i = (if 64 * a \<le> i \<and> i < 64 * c then b else bm_bit bm i)" if "i div 64 < length bm" for i
  proof -
    have i: "64 * a \<le> i \<longleftrightarrow> a \<le> i div 64" "i < 64 * c \<longleftrightarrow> i div 64 < c"
      by (simp_all add: less_eq_div_iff_mult_less_eq div_less_iff_less_mult mult.commute)
    have "?bm ! (i div 64) = (if a \<le> i div 64 \<and> i div 64 < c then ?v else bm ! (i div 64))"
      using assms that by (auto simp: nth_append min_def)
    then show ?thesis using that l unfolding bm_bit_def i by (cases b) auto
  qed
  with s l show ?thesis by (auto simp: bits_set_def index_div)
qed

lemma word_in_range:
  assumes "n \<le> m" "m \<le> 64 * length bm" "n mod 64 \<noteq> 0"
  shows "n div 64 < length (bm :: bitmap)"
proof (rule ccontr)
  assume "\<not> n div 64 < length bm"
  then have "64 * length bm \<le> 64 * (n div 64)" by simp
  moreover have "64 * (n div 64) + n mod 64 = n" by simp
  ultimately show False using assms by linarith
qed

text \<open>Setting a range changes the bits in it and no other.\<close>

lemma set_range_bits:
  assumes "n \<le> m" "m \<le> 64 * length bm"
  shows "\<exists>bm'. set_range b bm n m = Some bm' \<and> bits_set b bm n m bm'"
  using assms(1)
proof (cases rule: align_cases)
  case one
  have "i div 64 = n div 64 \<and> n mod 64 \<le> i mod 64 \<and> i mod 64 < m mod 64 \<longleftrightarrow> n \<le> i \<and> i < m" for i
    using div_mod_range(1) [of i n] div_mod_range(2) [of i m] one(1) by auto
  then have "\<exists>bm'. bitmap_word_update (set_bits b (headmask n AND tailmask m)) bm n = Some bm' \<and> bits_set b bm n m bm'"
    by (intro update_word_bits word_in_range [OF assms one(2)]) (auto simp: bit_and_iff bit_headmask bit_tailmask)
  then show ?thesis using assms(1) one(3) by (simp add: set_range_def)
next
  case (more a)
  have c: "m div 64 \<le> length bm" using assms(2) div_le_mono [of m "64 * length bm" 64] by simp
  have "\<exists>bm1. (if BIT_ALIGN_UP n > n then bitmap_word_update (set_bits b (headmask n)) bm n else Some bm) = Some bm1 \<and>
    bits_set b bm n (64 * a) bm1 \<and> n \<le> 64 * a"
  proof (cases "n mod 64 = 0")
    case True
    then have "n = 64 * a" "BIT_ALIGN_UP n = n" using more(4) by auto
    then show ?thesis using bits_set_refl by auto
  next
    case False
    then have x: "a = Suc (n div 64)" "n < BIT_ALIGN_UP n" using more(4) by auto
    have "\<exists>bm'. bitmap_word_update (set_bits b (headmask n)) bm n = Some bm' \<and> bits_set b bm n (64 * a) bm'"
      using div_mod_range(1) [of _ n] x(1)
      by (intro update_word_bits word_in_range [OF assms False]) (auto simp: bit_headmask)
    then show ?thesis using x more(1) by simp
  qed
  then obtain bm1 where bm1: "(if BIT_ALIGN_UP n > n then bitmap_word_update (set_bits b (headmask n)) bm n else Some bm) = Some bm1"
    "bits_set b bm n (64 * a) bm1" "n \<le> 64 * a" by blast
  have l1: "length bm1 = length bm" using bm1(2) by (simp add: bits_set_def)
  obtain bm2 where bm2: "(if BIT_ALIGN_DOWN m > BIT_ALIGN_UP n
      then memset_words bm1 (BIT_ALIGN_UP n) (BIT_ALIGN_DOWN m) (if b then - 1 else 0) else Some bm1) = Some bm2"
    "bits_set b bm1 (64 * a) (64 * (m div 64)) bm2"
    using memset_bits [OF more(3), of bm1 b] c l1 more(1-3) bits_set_refl [of b bm1 "64 * a"]
    by (cases "a = m div 64") auto
  have l2: "length bm2 = length bm" using bm2(2) l1 by (simp add: bits_set_def)
  have "\<exists>bm3. (if m > BIT_ALIGN_DOWN m then bitmap_word_update (set_bits b (tailmask m)) bm2 m else Some bm2) = Some bm3 \<and>
    bits_set b bm2 (64 * (m div 64)) m bm3"
  proof (cases "m mod 64 = 0")
    case True
    then have "m = 64 * (m div 64)" using mult_div_mod_eq [of 64 m] by simp
    then show ?thesis using bits_set_refl [of b bm2 m] more(2) by simp
  next
    case False
    then have x: "BIT_ALIGN_DOWN m < m" using mult_div_mod_eq [of 64 m] more(2) by linarith
    have "\<exists>bm'. bitmap_word_update (set_bits b (tailmask m)) bm2 m = Some bm' \<and> bits_set b bm2 (64 * (m div 64)) m bm'"
      using div_mod_range(2) [of _ m] word_in_range [OF _ assms(2) False] l2
      by (intro update_word_bits) (auto simp: bit_tailmask)
    then show ?thesis using x by simp
  qed
  then obtain bm3 where bm3: "(if m > BIT_ALIGN_DOWN m then bitmap_word_update (set_bits b (tailmask m)) bm2 m else Some bm2) = Some bm3"
    "bits_set b bm2 (64 * (m div 64)) m bm3" by blast
  have "bits_set b bm n m bm3"
    using bits_set_trans [OF bits_set_trans [OF bm1(2) bm2(2)] bm3(2)] bm1(3) more(3) by simp
  moreover have "\<not> BIT_ALIGN_DOWN m < BIT_ALIGN_UP n" using more(1-3) by simp
  with assms(1) have "set_range b bm n m = Some bm3"
    by (simp only: set_range_def Let_def bm1(1) bm2(1) bm3(1) not_True_eq_False if_False Option.bind.bind_lunit)
  ultimately show ?thesis by blast
qed

section \<open>The first bit of a range\<close>

definition first_set :: "bitmap \<Rightarrow> nat \<Rightarrow> nat \<Rightarrow> nat \<Rightarrow> bool" where
  "first_set bm n m r \<longleftrightarrow> n \<le> r \<and> r \<le> m \<and> (\<forall>i. n \<le> i \<and> i < r \<longrightarrow> \<not> bm_bit bm i) \<and> (r < m \<longrightarrow> bm_bit bm r)"

lemma first_set_skip:
  assumes "first_set bm n k k" "first_set bm k m r"
  shows "first_set bm n m r"
proof -
  have "\<not> bm_bit bm i" if "n \<le> i" "i < r" for i
    using assms that unfolding first_set_def by (cases "i < k") auto
  then show ?thesis using assms unfolding first_set_def by auto
qed

lemma first_set_found: "first_set bm n k r \<Longrightarrow> r < k \<Longrightarrow> k \<le> m \<Longrightarrow> first_set bm n m r"
  by (simp add: first_set_def)

lemma first_set_unique: "first_set bm n m r \<Longrightarrow> first_set bm n m r' \<Longrightarrow> r = r'"
  unfolding first_set_def by (metis linorder_neqE_nat order.strict_trans2)

lemma clz_bits:
  assumes "w \<noteq> 0"
  shows "bitmap_clz w < 64 \<and> bit w (63 - bitmap_clz w) \<and> (\<forall>j < bitmap_clz w. \<not> bit w (63 - j))"
proof -
  have b: "w AND push_bit k 1 \<noteq> 0 \<longleftrightarrow> bit w k" if "k < 64" for k
    using that by (simp add: and_exp_eq_0_iff_not_bit push_bit_eq_mult)
  obtain k where "bit w k" using assms bit_eq_iff [of w 0] by auto
  moreover from this have "k < 64" using bit_imp_le_length by force
  ultimately have "\<exists>lz < 64. w AND push_bit (63 - lz) 1 \<noteq> 0" using b [of k] by (intro exI [of _ "63 - k"]) simp
  then have "find (\<lambda>lz. w AND push_bit (63 - lz) 1 \<noteq> 0) [0..<64] \<noteq> None" by (auto simp: find_None_iff simp del: push_bit_of_1)
  then obtain lz where lz: "find (\<lambda>lz. w AND push_bit (63 - lz) 1 \<noteq> 0) [0..<64] = Some lz" by blast
  then have c: "bitmap_clz w = lz" unfolding bitmap_clz_def by simp
  have b': "w AND push_bit (63 - j) 1 \<noteq> 0 \<longleftrightarrow> bit w (63 - j)" for j by (rule b) simp
  from lz have "find (\<lambda>lz. bit w (63 - lz)) [0..<64] = Some lz" unfolding b' .
  then obtain i where "i < 64" "lz = i" "bit w (63 - i)" "\<forall>j<i. \<not> bit w (63 - j)"
    by (auto simp: find_Some_iff)
  then show ?thesis unfolding c by blast
qed

lemma ffs_word:
  assumes x: "x div 64 < length bm" "x div 64 * 64 = k"
    and mask: "\<And>i. i div 64 = x div 64 \<Longrightarrow> bit msk (63 - i mod 64) \<longleftrightarrow> n \<le> i \<and> i < m"
    and inside: "\<And>i. n \<le> i \<Longrightarrow> i < m \<Longrightarrow> i div 64 = x div 64" and nm: "n \<le> m"
  defines "w \<equiv> bm ! (x div 64) AND msk"
  shows "w \<noteq> 0 \<Longrightarrow> first_set bm n m (k + bitmap_clz w) \<and> k + bitmap_clz w < m" and "w = 0 \<Longrightarrow> first_set bm n m m"
proof -
  have bit: "bm_bit bm i \<longleftrightarrow> bit w (63 - i mod 64)" if "n \<le> i" "i < m" for i
    using inside [OF that] mask [of i] that x(1) by (simp add: bm_bit_def w_def bit_and_iff)
  show "first_set bm n m m" if "w = 0" using bit that nm by (auto simp: first_set_def)
  assume "w \<noteq> 0"
  note c = clz_bits [OF this]
  let ?r = "k + bitmap_clz w"
  have r: "?r div 64 = x div 64" "?r mod 64 = bitmap_clz w" using c x(2) by auto
  have "bit msk (63 - ?r mod 64)" using c r(2) by (simp add: w_def bit_and_iff)
  then have in_r: "n \<le> ?r" "?r < m" using mask [OF r(1)] by auto
  moreover have "\<not> bm_bit bm i" if "n \<le> i" "i < ?r" for i
  proof -
    have i: "i < m" using that in_r(2) by simp
    have "i mod 64 < bitmap_clz w" using inside [OF that(1) i] that(2) x(2) div_mod_decomp [of i 64] by linarith
    then show ?thesis using bit [OF that(1) i] c by simp
  qed
  ultimately show "first_set bm n m ?r \<and> ?r < m" using bit [of ?r] r(2) c by (auto simp: first_set_def)
qed


text \<open>The loop over whole words.\<close>

lemma ffs_words_first:
  assumes "a \<le> c" "c \<le> length bm"
  shows "\<exists>r. ffs_words bm (64 * a) (64 * c) = Some r \<and>
    (case r of None \<Rightarrow> first_set bm (64 * a) (64 * c) (64 * c) | Some i \<Rightarrow> first_set bm (64 * a) (64 * c) i \<and> i < 64 * c)"
  using assms(1)
proof (induction "c - a" arbitrary: a)
  case 0
  then show ?case by (subst ffs_words.simps) (auto simp: first_set_def)
next
  case (Suc d)
  then have a: "a < c" "d = c - Suc a" by auto
  have k: "64 * a div 64 * 64 = 64 * a" "64 * a div 64 < length bm" using a(1) assms(2) by auto
  have m: "bit (- 1 :: u64) (63 - i mod 64) \<longleftrightarrow> 64 * a \<le> i \<and> i < 64 * Suc a" if "i div 64 = 64 * a div 64" for i
  proof -
    have "64 * a \<le> i" "i < 64 * Suc a" using that div_mod_decomp [of i 64] mod_less_divisor [of 64 i] by simp_all
    then show ?thesis by simp
  qed
  have i: "i div 64 = 64 * a div 64" if "64 * a \<le> i" "i < 64 * Suc a" for i
    using that by (simp add: div_nat_eqI)
  note w = ffs_word [OF k(2,1) m i]
  have u: "ffs_words bm (64 * a) (64 * c) = (if bm ! a \<noteq> 0 then Some (Some (64 * a + bitmap_clz (bm ! a)))
      else ffs_words bm (64 * Suc a) (64 * c))"
    using a(1) k(2) by (subst ffs_words.simps) (simp add: bitmap_word_def algebra_simps)
  show ?case
  proof (cases "bm ! a = 0")
    case True
    then have "first_set bm (64 * a) (64 * Suc a) (64 * Suc a)" using w(2) by simp
    then show ?thesis
      using Suc.hyps(1) [OF a(2)] a(1) u True first_set_skip [of bm "64 * a" "64 * Suc a" "64 * c"]
      by (auto split: option.splits)
  next
    case False
    then have "first_set bm (64 * a) (64 * Suc a) (64 * a + bitmap_clz (bm ! a)) \<and> 64 * a + bitmap_clz (bm ! a) < 64 * Suc a"
      using w(1) by simp
    then show ?thesis
      using a(1) u False first_set_found [of bm "64 * a" "64 * Suc a" _ "64 * c"] by auto
  qed
qed

lemma ffs_one_word:
  assumes "n \<le> m" "m \<le> 64 * length bm" "n div 64 = m div 64" "n mod 64 \<noteq> 0"
  defines "w \<equiv> bm ! (n div 64) AND (headmask n AND tailmask m)"
  shows "first_set bm n m (if w \<noteq> 0 then BIT_ALIGN_DOWN m + bitmap_clz w else m)"
proof -
  have k: "n div 64 * 64 = BIT_ALIGN_DOWN m" using assms(3) by (simp add: BIT_ALIGN_DOWN_def)
  have iff: "i div 64 = n div 64 \<and> n mod 64 \<le> i mod 64 \<and> i mod 64 < m mod 64 \<longleftrightarrow> n \<le> i \<and> i < m" for i
    using div_mod_range(1) [of i n] div_mod_range(2) [of i m] assms(3) by auto
  have m: "bit (headmask n AND tailmask m) (63 - i mod 64) \<longleftrightarrow> n \<le> i \<and> i < m" if "i div 64 = n div 64" for i
    using iff [of i] that by (auto simp: bit_and_iff bit_headmask bit_tailmask)
  have i: "i div 64 = n div 64" if "n \<le> i" "i < m" for i using iff [of i] that by simp
  from ffs_word [OF word_in_range [OF assms(1,2,4)] k m i assms(1)] show ?thesis unfolding w_def by simp
qed

lemma ffs_head:
  assumes "n \<le> m" "m \<le> 64 * length bm" "n mod 64 \<noteq> 0" "64 * Suc (n div 64) \<le> m"
  defines "w \<equiv> bm ! (n div 64) AND headmask n"
  shows "if w \<noteq> 0 then first_set bm n m (BIT_ALIGN_DOWN n + bitmap_clz w)
    else first_set bm n (64 * Suc (n div 64)) (64 * Suc (n div 64))"
proof -
  let ?e = "64 * Suc (n div 64)"
  have e: "n \<le> ?e" using div_mod_range(1) [of n n] by simp
  have k: "n div 64 * 64 = BIT_ALIGN_DOWN n" by (simp add: BIT_ALIGN_DOWN_def)
  have m: "bit (headmask n) (63 - i mod 64) \<longleftrightarrow> n \<le> i \<and> i < ?e" if "i div 64 = n div 64" for i
    using div_mod_range(1) [of i n] that by (auto simp: bit_headmask)
  have i: "i div 64 = n div 64" if "n \<le> i" "i < ?e" for i using div_mod_range(1) [of i n] that by auto
  from ffs_word [OF word_in_range [OF assms(1-3)] k m i e, folded w_def] show ?thesis
    using first_set_found [OF _ _ assms(4)] by auto
qed

lemma ffs_tail:
  assumes "m \<le> 64 * length bm" "m mod 64 \<noteq> 0"
  defines "v \<equiv> bm ! (m div 64) AND tailmask m"
  shows "first_set bm (64 * (m div 64)) m (if v \<noteq> 0 then BIT_ALIGN_DOWN m + bitmap_clz v else m)"
proof -
  have k: "m div 64 * 64 = BIT_ALIGN_DOWN m" by (simp add: BIT_ALIGN_DOWN_def)
  have m: "bit (tailmask m) (63 - i mod 64) \<longleftrightarrow> 64 * (m div 64) \<le> i \<and> i < m" if "i div 64 = m div 64" for i
    using div_mod_range(2) [of i m] that by (auto simp: bit_tailmask)
  have i: "i div 64 = m div 64" if "64 * (m div 64) \<le> i" "i < m" for i using div_mod_range(2) [of i m] that by auto
  have le: "64 * (m div 64) \<le> m" by simp
  from ffs_word [OF word_in_range [OF _ assms(1,2)] k m i le, folded v_def] show ?thesis by simp
qed

text \<open>The whole search, with its two partial words given by \<open>head\<close> and \<open>tail\<close>.\<close>

lemma bitmap_ffs_first:
  assumes "n \<le> m" "m \<le> 64 * length bm"
  shows "\<exists>r. bitmap_ffs bm n m = Some r \<and> first_set bm n m r"
  using assms(1)
proof (cases rule: align_cases)
  case one
  then show ?thesis
    using ffs_one_word [OF assms one(1,2)] assms(1) word_in_range [OF assms one(2)]
    by (auto simp: bitmap_ffs_def bitmap_word_def Let_def)
next
  case (more a)
  have c: "m div 64 \<le> length bm" using assms(2) div_le_mono [of m "64 * length bm" 64] by simp
  have le: "64 * (m div 64) \<le> m" by simp
  define w where "w = bm ! (n div 64) AND headmask n"
  define v where "v = bm ! (m div 64) AND tailmask m"
  have x: "BIT_ALIGN_UP n > n \<Longrightarrow> bitmap_word bm n = Some (bm ! (n div 64))"
    using word_in_range [OF assms] more(4) by (auto simp: bitmap_word_def)
  have head: "if BIT_ALIGN_UP n > n \<and> w \<noteq> 0
      then first_set bm n m (BIT_ALIGN_DOWN n + bitmap_clz w) else first_set bm n (64 * a) (64 * a)"
    using more(4)
  proof
    assume "n = 64 * a \<and> BIT_ALIGN_UP n = n"
    then show ?thesis by (auto simp: first_set_def)
  next
    assume n: "n mod 64 \<noteq> 0 \<and> a = Suc (n div 64) \<and> n < BIT_ALIGN_UP n"
    moreover have "64 * Suc (n div 64) \<le> m" using n more(3) le by (intro le_trans [OF _ le]) simp
    ultimately show ?thesis using ffs_head [OF assms, folded w_def] by (simp split: if_splits)
  qed
  have pos: "m > BIT_ALIGN_DOWN m \<longleftrightarrow> m mod 64 \<noteq> 0" using more(2) mult_div_mod_eq [of 64 m] by linarith
  have t: "m > BIT_ALIGN_DOWN m \<Longrightarrow> bitmap_word bm m = Some (bm ! (m div 64))"
    using word_in_range [OF _ assms(2)] pos by (auto simp: bitmap_word_def)
  have tail: "first_set bm (64 * (m div 64)) m (if m > BIT_ALIGN_DOWN m \<and> v \<noteq> 0 then BIT_ALIGN_DOWN m + bitmap_clz v else m)"
    using ffs_tail [OF assms(2), folded v_def] pos more(2) le by (cases "m mod 64 = 0") (auto simp: first_set_def)
  obtain r where r: "ffs_words bm (64 * a) (64 * (m div 64)) = Some r"
    "case r of None \<Rightarrow> first_set bm (64 * a) (64 * (m div 64)) (64 * (m div 64))
      | Some i \<Rightarrow> first_set bm (64 * a) (64 * (m div 64)) i \<and> i < 64 * (m div 64)"
    using ffs_words_first [OF more(3) c] by blast
  have ge: "\<not> BIT_ALIGN_DOWN m < BIT_ALIGN_UP n" using more(1-3) by simp
  have ffs: "bitmap_ffs bm n m = Some (if BIT_ALIGN_UP n > n \<and> w \<noteq> 0 then BIT_ALIGN_DOWN n + bitmap_clz w
      else case r of Some i \<Rightarrow> i | None \<Rightarrow> if m > BIT_ALIGN_DOWN m \<and> v \<noteq> 0 then BIT_ALIGN_DOWN m + bitmap_clz v else m)"
    using assms(1) ge x t r(1) more(1,2)
    by (cases "n < BIT_ALIGN_UP n"; cases "BIT_ALIGN_DOWN m < m"; cases r)
      (simp_all add: bitmap_ffs_def Let_def w_def [symmetric] v_def [symmetric])
  have "first_set bm n m (case r of Some i \<Rightarrow> i | None \<Rightarrow>
      if m > BIT_ALIGN_DOWN m \<and> v \<noteq> 0 then BIT_ALIGN_DOWN m + bitmap_clz v else m)" if h: "first_set bm n (64 * a) (64 * a)"
    using r(2) first_set_skip [OF h] first_set_skip [OF _ tail] first_set_found [OF _ _ le] by (cases r) auto
  with ffs head show ?thesis by auto
qed

section \<open>The interface\<close>

text \<open>
  What the users of a bitmap rely on: \<open>bits\<close> is the set of the marked positions below \<open>size\<close>.
\<close>

locale bit_array =
  fixes size :: "'b \<Rightarrow> nat"
    and bits :: "'b \<Rightarrow> nat set"
    and fill :: "'b \<Rightarrow> nat \<Rightarrow> nat \<Rightarrow> 'b option"
    and ffs :: "'b \<Rightarrow> nat \<Rightarrow> nat \<Rightarrow> nat option"
  assumes bits_below: "bits b \<subseteq> {..<size b}"
    and fill_range: "n \<le> m \<Longrightarrow> m \<le> size b \<Longrightarrow>
      \<exists>b'. fill b n m = Some b' \<and> size b' = size b \<and> bits b' = bits b \<union> {n..<m}"
    and ffs_range: "n \<le> m \<Longrightarrow> m \<le> size b \<Longrightarrow>
      \<exists>r. ffs b n m = Some r \<and> (r = m \<longleftrightarrow> bits b \<inter> {n..<m} = {})"
begin

text \<open>
  The way a range is claimed: look for a marked position first, then mark it. It succeeds
  exactly when the range is free, and then the number of marked positions grows by its length.
\<close>

lemma claim_free:
  assumes "n \<le> m" "m \<le> size b" "bits b \<inter> {n..<m} = {}"
  shows "\<exists>b'. ffs b n m = Some m \<and> fill b n m = Some b' \<and> size b' = size b \<and> bits b' = bits b \<union> {n..<m} \<and>
    card (bits b') = card (bits b) + (m - n)"
proof -
  obtain b' where b': "fill b n m = Some b'" "size b' = size b" "bits b' = bits b \<union> {n..<m}" using fill_range assms by blast
  have "finite (bits b)" using bits_below finite_subset by blast
  then have "card (bits b') = card (bits b) + (m - n)" using b'(3) assms(3) by (simp add: card_Un_disjoint)
  with b' ffs_range [OF assms(1,2)] assms(3) show ?thesis by auto
qed

lemma claim_taken:
  assumes "n \<le> m" "m \<le> size b" "bits b \<inter> {n..<m} \<noteq> {}"
  shows "\<exists>r. ffs b n m = Some r \<and> r \<noteq> m"
  using ffs_range [OF assms(1,2)] assms(3) by auto

end

definition bm_bits :: "bitmap \<Rightarrow> nat set" where
  "bm_bits bm = {i. bm_bit bm i}"

interpretation bm: bit_array "\<lambda>bm. 64 * length bm" bm_bits bitmap_fill_range bitmap_ffs
proof unfold_locales
  show "bm_bits bm \<subseteq> {..<64 * length bm}" for bm by (auto simp: bm_bits_def bm_bit_def index_div)
next
  fix n m and bm :: bitmap assume nm: "n \<le> m" "m \<le> 64 * length bm"
  from set_range_bits [OF nm, of True] obtain bm' where
    bm': "bitmap_fill_range bm n m = Some bm'" "bits_set True bm n m bm'" unfolding range_ops by blast
  have "bm_bits bm' = bm_bits bm \<union> {n..<m}"
    using bm'(2) nm(2) by (auto simp: bm_bits_def bits_set_def) (auto simp: bm_bit_def index_div)
  with bm' show "\<exists>b'. bitmap_fill_range bm n m = Some b' \<and> 64 * length b' = 64 * length bm \<and> bm_bits b' = bm_bits bm \<union> {n..<m}"
    by (auto simp: bits_set_def)
  from bitmap_ffs_first [OF nm] obtain r where r: "bitmap_ffs bm n m = Some r" "first_set bm n m r" by blast
  have "r = m \<longleftrightarrow> bm_bits bm \<inter> {n..<m} = {}"
  proof
    assume e: "bm_bits bm \<inter> {n..<m} = {}"
    show "r = m"
    proof (rule ccontr)
      assume "r \<noteq> m"
      with r(2) have "r \<in> bm_bits bm \<inter> {n..<m}" by (auto simp: first_set_def bm_bits_def)
      with e show False by simp
    qed
  qed (use r(2) in \<open>auto simp: first_set_def bm_bits_def\<close>)
  with r(1) show "\<exists>r. bitmap_ffs bm n m = Some r \<and> (r = m \<longleftrightarrow> bm_bits bm \<inter> {n..<m} = {})" by blast
qed

end
