(* ===== verification/GossipRange.thy ===== *)
theory GossipRange
  imports Wire Bitmap
begin

text \<open>
  The queries for the channels of a range of blocks: the encoding of a list of short channel ids
  (\<^verbatim>\<open>common/decode_short_channel_ids.c\<close>) and the messages about a range in \<^verbatim>\<open>gossipd/gossipd.c\<close>, on
  the side that answers and on the side that asked. zlib is a pair of arguments, with what its
  manual promises in \<open>zlib_laws\<close>; the functions that put the fields of a message into bytes are
  generated when the program is built, so that a message is the record of its fields. The map of
  the known channels is the ascending list of its keys.
\<close>

unbundle bit_operations_syntax

section \<open>Lists of short channel ids\<close>

definition SHORTIDS_UNCOMPRESSED :: u8 where "SHORTIDS_UNCOMPRESSED = 0"
definition SHORTIDS_ZLIB :: u8 where "SHORTIDS_ZLIB = 1"

type_synonym compress = "bytes \<Rightarrow> nat \<Rightarrow> bytes option"

text \<open>
  \<^verbatim>\<open>uncompress\<close> and \<^verbatim>\<open>compress2\<close> take the room for the result; \<open>None\<close> is every return value but
  \<^verbatim>\<open>Z_OK\<close>. What was compressed is found again where there is room for it.
\<close>

definition zlib_laws :: "compress \<Rightarrow> compress \<Rightarrow> bool" where
  "zlib_laws compress2 uncompress \<longleftrightarrow>
     (\<forall>d n z. compress2 d n = Some z \<longrightarrow> length z \<le> n \<and> (\<forall>k. length d \<le> k \<longrightarrow> uncompress z k = Some d))"

definition unzlib :: "compress \<Rightarrow> bytes \<Rightarrow> bytes option" where
  "unzlib uncompress encoded = uncompress encoded (1024 * 1024)"

text \<open>The loop that runs while there is something left to read.\<close>

partial_function (option) read_scids :: "cursor \<Rightarrow> u64 list \<Rightarrow> (u64 list \<times> cursor) option" where
  "read_scids c scids =
     (if cursor_max c = 0 then Some (scids, c)
      else read_scids (snd (fromwire_short_channel_id c)) (scids @ [fst (fromwire_short_channel_id c)]))"

definition scids_of :: "cursor \<Rightarrow> u64 list option option" where
  "scids_of c = do { (scids, c) \<leftarrow> read_scids c []; Some (if c = None then None else Some scids) }"

text \<open>\<open>Some None\<close> is the return value NULL.\<close>

definition decode_short_ids :: "compress \<Rightarrow> bytes \<Rightarrow> u64 list option option" where
  "decode_short_ids uncompress encoded =
     (let (type, c) = fromwire_u8 (Some encoded)
      in if type = SHORTIDS_ZLIB
         then (case unzlib uncompress (cursor_bytes c) of None \<Rightarrow> Some None | Some unc \<Rightarrow> scids_of (Some unc))
         else if type = SHORTIDS_UNCOMPRESSED then scids_of c
         else Some None)"

definition encode_short_channel_ids_start :: bytes where
  "encode_short_channel_ids_start = towire_u8 [] SHORTIDS_ZLIB"

definition encode_add_short_channel_id :: "bytes \<Rightarrow> u64 \<Rightarrow> bytes" where
  "encode_add_short_channel_id encoded scid = towire_short_channel_id encoded scid"

definition zencode_scids :: "compress \<Rightarrow> bytes \<Rightarrow> bytes option" where
  "zencode_scids compress2 scids = compress2 scids (length scids)"

text \<open>
  \<open>None\<close> where the process gives up. \<open>limit\<close> is \<^verbatim>\<open>max_scids_encode_bytes\<close> of a developer build.
\<close>

definition encode_short_channel_ids_end :: "compress \<Rightarrow> nat option \<Rightarrow> bytes \<Rightarrow> nat \<Rightarrow> (bool \<times> bytes) option" where
  "encode_short_channel_ids_end compress2 limit encoded max_bytes =
     (if encoded = [] then None
      else do {
        encoded \<leftarrow>
          (if hd encoded = SHORTIDS_ZLIB
           then case zencode_scids compress2 (tl encoded) of
                  Some z \<Rightarrow> Some (hd encoded # z)
                | None \<Rightarrow> Some (SHORTIDS_UNCOMPRESSED # tl encoded)
           else if hd encoded = SHORTIDS_UNCOMPRESSED then Some encoded
           else None);
        Some ((\<forall>m \<in> set_option limit. length encoded \<le> m) \<and> length encoded \<le> max_bytes, encoded)
      })"

section \<open>Answering\<close>

record range_reply =
  rr_chain_hash :: bytes
  rr_first_blocknum :: u32
  rr_number_of_blocks :: u32
  rr_complete :: u8
  rr_encoded :: bytes

definition reply_channel_range :: "bytes \<Rightarrow> u32 \<Rightarrow> u32 \<Rightarrow> bytes \<Rightarrow> range_reply" where
  "reply_channel_range chain_hash first_blocknum number_of_blocks encoded =
     \<lparr>rr_chain_hash = chain_hash, rr_first_blocknum = first_blocknum, rr_number_of_blocks = number_of_blocks,
      rr_complete = 1, rr_encoded = encoded\<rparr>"

text \<open>\<^verbatim>\<open>uintmap_after\<close>: the next key, in ascending order.\<close>

definition uintmap_after :: "u64 list \<Rightarrow> u64 \<Rightarrow> u64 option" where
  "uintmap_after chanmap index = find (\<lambda>k. index < k) chanmap"

lemma uintmap_after_greater: "uintmap_after chanmap index = Some k \<Longrightarrow> index < k"
  by (auto simp: uintmap_after_def find_Some_iff)

lemma uintmap_after_measure: "uintmap_after chanmap index = Some k \<Longrightarrow> 2 ^ 64 - unat k < 2 ^ 64 - unat index"
  using uintmap_after_greater [of chanmap index k] unsigned_less [of k, where 'a = nat] by (simp add: word_less_nat_alt)

function gather_scids :: "u64 list \<Rightarrow> u32 \<Rightarrow> u32 \<Rightarrow> u64 \<Rightarrow> bytes \<Rightarrow> bytes" where
  "gather_scids chanmap first_blocknum number_of_blocks scid encoded =
     (case uintmap_after chanmap scid of
        None \<Rightarrow> encoded
      | Some scid \<Rightarrow>
          if short_channel_id_blocknum scid \<ge> first_blocknum + number_of_blocks then encoded
          else gather_scids chanmap first_blocknum number_of_blocks scid (encode_add_short_channel_id encoded scid))"
  by pat_completeness auto
termination
  by (relation "measure (\<lambda>(_, _, _, scid, _). 2 ^ 64 - unat scid)") (auto dest: uintmap_after_measure)

declare gather_scids.simps [simp del]

definition max_encoded_bytes :: nat where
  "max_encoded_bytes = 65535 - 2 - (32 + 4 + 4 + 1 + 2)"

text \<open>The id before the first one of the range.\<close>

definition scid_before :: "u32 \<Rightarrow> u64" where
  "scid_before first_blocknum =
     (if first_blocknum = 0 then mk_short_channel_id 1 0 0 else mk_short_channel_id first_blocknum 0 0) - 1"

lemma half_range:
  assumes "\<not> number \<le> (1 :: u32)"
  shows "unat (number div 2) = unat number div 2" "unat (number - number div 2) = unat number - unat number div 2"
    "0 < unat number div 2" "unat number div 2 < unat number" "unat number - unat number div 2 < unat number"
proof -
  have n: "1 < unat number" using assms by (simp add: word_le_nat_alt not_le)
  show d: "unat (number div 2) = unat number div 2" by (simp add: unat_div)
  have "number div 2 \<le> number" by (simp add: word_le_nat_alt d)
  then show "unat (number - number div 2) = unat number - unat number div 2" by (simp add: unat_sub d)
  show "0 < unat number div 2" "unat number div 2 < unat number" "unat number - unat number div 2 < unat number"
    using n by auto
qed

text \<open>The messages queued, in their order; \<open>None\<close> where the process gives up.\<close>

function queue_channel_ranges ::
    "compress \<Rightarrow> nat option \<Rightarrow> bytes \<Rightarrow> u64 list \<Rightarrow> u32 \<Rightarrow> u32 \<Rightarrow> range_reply list option" where
  "queue_channel_ranges compress2 limit chain_hash chanmap first_blocknum number_of_blocks =
     (case encode_short_channel_ids_end compress2 limit
             (gather_scids chanmap first_blocknum number_of_blocks (scid_before first_blocknum)
               encode_short_channel_ids_start) max_encoded_bytes of
        None \<Rightarrow> None
      | Some (fits, encoded) \<Rightarrow>
          if fits then Some [reply_channel_range chain_hash first_blocknum number_of_blocks encoded]
          else if number_of_blocks \<le> 1 then Some []
          else
            case queue_channel_ranges compress2 limit chain_hash chanmap first_blocknum (number_of_blocks div 2) of
              None \<Rightarrow> None
            | Some rs \<Rightarrow>
                map_option (\<lambda>rs'. rs @ rs')
                  (queue_channel_ranges compress2 limit chain_hash chanmap (first_blocknum + number_of_blocks div 2)
                    (number_of_blocks - number_of_blocks div 2)))"
  by pat_completeness auto
termination
  by (relation "measure (\<lambda>(_, _, _, _, _, n). unat n)") (use half_range in \<open>auto simp: not_le\<close>)

declare queue_channel_ranges.simps [simp del]

datatype gossip_error =
    Bad_query_channel_range
  | Query_channel_range_overflow
  | Bad_reply_channel_range
  | Reply_bad_chain
  | Reply_without_query
  | Reply_overflow
  | Bad_reply_encoding
  | Reply_outside_query
  | Reply_already_have_block

record range_query =
  rq_chain_hash :: bytes
  rq_first_blocknum :: u32
  rq_number_of_blocks :: u32

text \<open>\<open>None\<close> is a message that does not parse. The result holds the error sent back and the replies queued.\<close>

definition handle_query_channel_range ::
    "compress \<Rightarrow> nat option \<Rightarrow> bytes \<Rightarrow> u64 list \<Rightarrow> range_query option \<Rightarrow> (gossip_error option \<times> range_reply list) option" where
  "handle_query_channel_range compress2 limit chain_hash chanmap msg =
     (case msg of
        None \<Rightarrow> Some (Some Bad_query_channel_range, [])
      | Some q \<Rightarrow>
          if chain_hash \<noteq> rq_chain_hash q then Some (None, [])
          else if rq_first_blocknum q + rq_number_of_blocks q < rq_first_blocknum q
          then Some (Some Query_channel_range_overflow, [])
          else map_option (\<lambda>rs. (None, rs))
            (queue_channel_ranges compress2 limit chain_hash chanmap (rq_first_blocknum q) (rq_number_of_blocks q)))"

section \<open>Asking\<close>

record peer =
  pe_gossip_queries_feature :: bool
  pe_query_channel_blocks :: "bitmap option"
  pe_range_first_blocknum :: u32
  pe_range_end_blocknum :: u32
  pe_range_blocks_remaining :: u32
  pe_query_channel_scids :: "u64 list option"

text \<open>What the master daemon is told at the end.\<close>

record range_result =
  rs_final_first_block :: u32
  rs_final_num_blocks :: u32
  rs_final_complete :: bool
  rs_scids :: "u64 list"

definition range_failed :: range_result where
  "range_failed = \<lparr>rs_final_first_block = 0, rs_final_num_blocks = 0, rs_final_complete = False, rs_scids = []\<rparr>"

text \<open>\<open>None\<close> is a peer that is not known. The result is the peer and the query, or the failure told to the master.\<close>

definition query_channel_range ::
    "bytes \<Rightarrow> peer option \<Rightarrow> u32 \<Rightarrow> u32 \<Rightarrow> peer option \<times> (range_result + range_query)" where
  "query_channel_range chain_hash peer first_blocknum number_of_blocks =
     (case peer of
        None \<Rightarrow> (peer, Inl range_failed)
      | Some p \<Rightarrow>
          if \<not> pe_gossip_queries_feature p then (peer, Inl range_failed)
          else if pe_query_channel_blocks p \<noteq> None then (peer, Inl range_failed)
          else
            (Some (p\<lparr>pe_range_first_blocknum := first_blocknum,
               pe_range_end_blocknum := first_blocknum + number_of_blocks,
               pe_range_blocks_remaining := number_of_blocks,
               pe_query_channel_blocks := Some (replicate (BITMAP_NWORDS (unat number_of_blocks)) 0),
               pe_query_channel_scids := Some []\<rparr>),
             Inr \<lparr>rq_chain_hash = chain_hash, rq_first_blocknum = first_blocknum, rq_number_of_blocks = number_of_blocks\<rparr>))"

text \<open>
  The result is the error sent back, the peer, and what is told to the master; \<open>None\<close> is a failed
  assertion or an access outside the bitmap.
\<close>

definition handle_reply_channel_range ::
    "compress \<Rightarrow> bytes \<Rightarrow> peer \<Rightarrow> range_reply option \<Rightarrow> (gossip_error option \<times> peer \<times> range_result option) option" where
  "handle_reply_channel_range uncompress chain_hash peer msg =
     (case msg of
        None \<Rightarrow> Some (Some Bad_reply_channel_range, peer, None)
      | Some m \<Rightarrow>
          if chain_hash \<noteq> rr_chain_hash m then Some (Some Reply_bad_chain, peer, None)
          else case pe_query_channel_blocks peer of
            None \<Rightarrow> Some (Some Reply_without_query, peer, None)
          | Some blocks \<Rightarrow>
              let first_blocknum = rr_first_blocknum m; number_of_blocks = rr_number_of_blocks m
              in if first_blocknum + number_of_blocks < first_blocknum then Some (Some Reply_overflow, peer, None)
                 else case decode_short_ids uncompress (rr_encoded m) of
                   None \<Rightarrow> None
                 | Some None \<Rightarrow> Some (Some Bad_reply_encoding, peer, None)
                 | Some (Some scids) \<Rightarrow>
                     if first_blocknum + number_of_blocks \<le> pe_range_first_blocknum peer \<or>
                        first_blocknum \<ge> pe_range_end_blocknum peer
                     then Some (Some Reply_outside_query, peer, None)
                     else
                       let start = first_blocknum;
                           end_block = first_blocknum + number_of_blocks;
                           start = (if start < pe_range_first_blocknum peer then pe_range_first_blocknum peer else start);
                           end_block = (if end_block > pe_range_end_blocknum peer then pe_range_end_blocknum peer else end_block);
                           n = unat (start - pe_range_first_blocknum peer);
                           e = unat (end_block - pe_range_first_blocknum peer)
                       in do {
                         b \<leftarrow> bitmap_ffs blocks n e;
                         if b \<noteq> e then Some (Some Reply_already_have_block, peer, None)
                         else do {
                           blocks \<leftarrow> bitmap_fill_range blocks n e;
                           old \<leftarrow> pe_query_channel_scids peer;
                           let peer = peer\<lparr>pe_query_channel_blocks := Some blocks,
                             pe_range_blocks_remaining := pe_range_blocks_remaining peer - (end_block - start),
                             pe_query_channel_scids := Some (old @ scids)\<rparr>;
                           if pe_range_blocks_remaining peer \<noteq> 0 then Some (None, peer, None)
                           else Some (None, peer\<lparr>pe_query_channel_scids := None, pe_query_channel_blocks := None\<rparr>,
                             Some \<lparr>rs_final_first_block = first_blocknum, rs_final_num_blocks = number_of_blocks,
                               rs_final_complete = (rr_complete m \<noteq> 0), rs_scids = old @ scids\<rparr>)
                         }
                       })"

section \<open>Decoding\<close>

definition scid_bytes :: "u64 list \<Rightarrow> bytes" where
  "scid_bytes scids = concat (map cpu_to_be64 scids)"

lemma scid_bytes_simps [simp]: "scid_bytes [] = []" "scid_bytes (s # ss) = cpu_to_be64 s @ scid_bytes ss"
  "scid_bytes (ss @ ts) = scid_bytes ss @ scid_bytes ts"
  by (simp_all add: scid_bytes_def)

lemma length_scid_bytes [simp]: "length (scid_bytes ss) = 8 * length ss"
  by (induction ss) simp_all

lemma split_scid_bytes: "\<exists>ss t. b = scid_bytes ss @ t \<and> length t < 8"
proof (induction "length b" arbitrary: b rule: less_induct)
  case less
  show ?case
  proof (cases "length b < 8")
    case True
    then show ?thesis by (intro exI [of _ "[]"] exI [of _ b]) simp
  next
    case False
    then have "length (drop 8 b) < length b" by (simp add: not_less)
    then obtain ss t where d: "drop 8 b = scid_bytes ss @ t" "length t < 8" using less by blast
    have "cpu_to_be64 (be64_to_cpu (take 8 b)) = take 8 b" using False by (simp add: endian_inverse)
    then have "b = scid_bytes (be64_to_cpu (take 8 b) # ss) @ t" using d(1) by (metis append_assoc append_take_drop_id scid_bytes_simps(2))
    then show ?thesis using d(2) by blast
  qed
qed

text \<open>The loop returns for every input: a turn takes eight bytes, or fails the cursor and with it the condition.\<close>

lemma read_scids_returns:
  "length t < 8 \<Longrightarrow> read_scids (Some (scid_bytes ss @ t)) acc =
     Some (if t = [] then (acc @ ss, Some []) else (acc @ ss @ [0], None))"
proof (induction ss arbitrary: acc)
  case Nil
  have n: "read_scids None a = Some (a, None)" for a
    by (subst read_scids.simps) (simp add: cursor_max_def cursor_bytes_def)
  show ?case
  proof (cases "t = []")
    case True
    then show ?thesis by (subst read_scids.simps) (simp add: cursor_max_def cursor_bytes_def)
  next
    case False
    then have "fromwire_short_channel_id (Some t) = (0, None)"
      using Nil by (simp add: fromwire_short_channel_id_def fromwire_u64_def fromwire_def fromwire_fail_def cursor_max_def cursor_bytes_def)
    then show ?thesis using False n by (subst read_scids.simps) (simp add: cursor_max_def cursor_bytes_def)
  qed
next
  case (Cons s ss)
  have "fromwire_short_channel_id (Some (cpu_to_be64 s @ scid_bytes ss @ t)) = (s, Some (scid_bytes ss @ t))"
    using wscid.get_put [of s "scid_bytes ss @ t"] by (simp add: towire_defs)
  moreover have "cpu_to_be64 s \<noteq> []" by (metis endian_length(6) length_0_conv zero_neq_numeral)
  ultimately show ?case using Cons by (subst read_scids.simps) (simp add: cursor_max_def cursor_bytes_def)
qed

lemma scids_of_bytes:
  "length t < 8 \<Longrightarrow> scids_of (Some (scid_bytes ss @ t)) = Some (if t = [] then Some ss else None)"
  by (simp add: scids_of_def read_scids_returns)

lemma scids_of_scid_bytes [simp]: "scids_of (Some (scid_bytes ss)) = Some (Some ss)"
  using scids_of_bytes [of "[]" ss] by simp

lemma decode_returns:
  "decode_short_ids uncompress [] = Some None"
  "decode_short_ids uncompress (SHORTIDS_UNCOMPRESSED # b) = scids_of (Some b)"
  "decode_short_ids uncompress (SHORTIDS_ZLIB # b) =
     (case uncompress b (1024 * 1024) of None \<Rightarrow> Some None | Some unc \<Rightarrow> scids_of (Some unc))"
  "k \<noteq> SHORTIDS_UNCOMPRESSED \<Longrightarrow> k \<noteq> SHORTIDS_ZLIB \<Longrightarrow> decode_short_ids uncompress (k # b) = Some None"
  using wu8.get_put [of SHORTIDS_UNCOMPRESSED b] wu8.get_put [of SHORTIDS_ZLIB b] wu8.get_put [of k b]
  by (simp_all add: decode_short_ids_def towire_defs cursor_bytes_def unzlib_def)
    (simp_all add: fromwire_u8_def fromwire_def fromwire_fail_def cursor_max_def cursor_bytes_def
      SHORTIDS_UNCOMPRESSED_def SHORTIDS_ZLIB_def scids_of_def read_scids.simps)

section \<open>Encoding\<close>

lemma encode_end_decodes:
  assumes z: "zlib_laws compress2 uncompress" and l: "8 * length ss \<le> 1024 * 1024"
  shows "\<exists>ok e. encode_short_channel_ids_end compress2 limit (SHORTIDS_ZLIB # scid_bytes ss) n = Some (ok, e) \<and>
    decode_short_ids uncompress e = Some (Some ss)"
proof (cases "zencode_scids compress2 (scid_bytes ss)")
  case None
  then show ?thesis by (auto simp: encode_short_channel_ids_end_def decode_returns)
next
  case (Some y)
  then have "uncompress y (1024 * 1024) = Some (scid_bytes ss)"
    using z l unfolding zlib_laws_def zencode_scids_def by (metis length_scid_bytes)
  then show ?thesis using Some by (auto simp: encode_short_channel_ids_end_def decode_returns)
qed

text \<open>The keys of the map above \<open>s\<close> come one after the other.\<close>

lemma uintmap_after_filter:
  assumes "sorted_wrt (<) cm"
  shows "uintmap_after cm s = None \<Longrightarrow> filter (\<lambda>k. s < k) cm = []"
    and "uintmap_after cm s = Some k \<Longrightarrow> filter (\<lambda>k. s < k) cm = k # filter (\<lambda>x. k < x) cm"
proof -
  show "uintmap_after cm s = None \<Longrightarrow> filter (\<lambda>k. s < k) cm = []"
    by (auto simp: uintmap_after_def find_None_iff filter_empty_conv)
  show "uintmap_after cm s = Some k \<Longrightarrow> filter (\<lambda>k. s < k) cm = k # filter (\<lambda>x. k < x) cm"
    using assms
  proof (induction cm)
    case (Cons x cm)
    show ?case
    proof (cases "s < x")
      case True
      then have "filter (\<lambda>k. s < k) cm = cm" "filter (\<lambda>k. x < k) cm = cm"
        using Cons.prems(2) by (auto simp: filter_id_conv dest: order.strict_trans)
      then show ?thesis using True Cons.prems by (simp add: uintmap_after_def)
    next
      case False
      then have f: "uintmap_after cm s = Some k" using Cons.prems(1) by (simp add: uintmap_after_def)
      then have "k \<in> set cm" by (auto simp: uintmap_after_def find_Some_iff)
      then have "\<not> k < x" using Cons.prems(2) by (auto dest: order.asym)
      then show ?thesis using Cons.IH [OF f] Cons.prems(2) False by simp
    qed
  qed (simp add: uintmap_after_def)
qed

lemma gather_scids_takeWhile:
  assumes "sorted_wrt (<) cm"
  shows "gather_scids cm f n s e =
    e @ scid_bytes (takeWhile (\<lambda>k. \<not> short_channel_id_blocknum k \<ge> f + n) (filter (\<lambda>k. s < k) cm))"
  using assms
proof (induction cm f n s e rule: gather_scids.induct)
  case (1 cm f n s e)
  show ?case
  proof (cases "uintmap_after cm s")
    case None
    then show ?thesis using uintmap_after_filter(1) [OF 1(2)] by (subst gather_scids.simps) simp
  next
    case (Some k)
    then show ?thesis
      using uintmap_after_filter(2) [OF 1(2)] 1(1) [OF Some _ 1(2)]
      by (subst gather_scids.simps) (simp add: encode_add_short_channel_id_def towire_defs)
  qed
qed

section \<open>Blocks\<close>

definition block_of :: "u64 \<Rightarrow> nat" where
  "block_of s = unat s div 2 ^ 40"

lemma block_of_less: "block_of s < 2 ^ 24"
  using unsigned_less [of s, where 'a = nat] by (simp add: block_of_def less_mult_imp_div_less)

lemma block_mono: "a < b \<Longrightarrow> block_of a \<le> block_of b"
  by (simp add: block_of_def word_less_nat_alt div_le_mono)

lemma unat_blocknum: "unat (short_channel_id_blocknum s) = block_of s"
proof -
  have "unat (drop_bit 40 s) = block_of s"
    using unsigned_less [of s, where 'a = nat]
    by (simp only: unsigned_drop_bit_eq) (simp add: drop_bit_eq_div block_of_def take_bit_nat_eq_self)
  then show ?thesis
    using block_of_less [of s] by (simp add: short_channel_id_blocknum_def unsigned_ucast_eq take_bit_nat_eq_self)
qed

lemma unat_mk_block: "unat (mk_short_channel_id b 0 0) = (unat b mod 2 ^ 24) * 2 ^ 40"
proof -
  have m: "(ucast b AND 0xFFFFFF :: u64) = take_bit 24 (ucast b)"
    unfolding field_masks by (rule take_bit_eq_mask [symmetric])
  have "unat (ucast b :: u64) = unat b"
    using unsigned_less [of b, where 'a = nat] by (simp add: unsigned_ucast_eq take_bit_nat_eq_self)
  moreover have "unat (take_bit 24 (ucast b :: u64)) = take_bit 24 (unat (ucast b :: u64))"
    by (rule unsigned_take_bit_eq)
  ultimately have t: "unat (take_bit 24 (ucast b :: u64)) = unat b mod 2 ^ 24" by (simp only: take_bit_eq_mod)
  then have "unat (take_bit 24 (ucast b :: u64)) * 2 ^ 40 < 2 ^ 64" by simp
  then have "unat (push_bit 40 (take_bit 24 (ucast b :: u64))) = (unat b mod 2 ^ 24) * 2 ^ 40"
    unfolding t [symmetric] push_bit_eq_mult using unat_mult_lem [of "take_bit 24 (ucast b :: u64)" "2 ^ 40"] by simp
  then show ?thesis by (simp only: mk_short_channel_id_def m) simp
qed

text \<open>The ids after \<open>scid_before\<close> are those of the blocks from the first one on.\<close>

lemma before_mk:
  assumes "0 < unat b mod 2 ^ 24"
  shows "mk_short_channel_id b 0 0 - 1 < s \<longleftrightarrow> unat b mod 2 ^ 24 \<le> block_of s"
proof -
  let ?m = "mk_short_channel_id b 0 0"
  have "1 \<le> unat ?m" using assms by (simp add: unat_mk_block)
  then have "unat (?m - 1) = unat ?m - 1" by (simp add: unat_sub word_le_nat_alt)
  then have "?m - 1 < s \<longleftrightarrow> unat ?m \<le> unat s" using \<open>1 \<le> unat ?m\<close> by (auto simp: word_less_nat_alt)
  then show ?thesis by (simp add: unat_mk_block block_of_def less_eq_div_iff_mult_less_eq)
qed

lemma after_before:
  assumes "unat f < 2 ^ 24"
  shows "scid_before f < s \<longleftrightarrow> max 1 (unat f) \<le> block_of s"
proof (cases "f = 0")
  case True
  then show ?thesis using before_mk [of 1 s] by (simp add: scid_before_def)
next
  case False
  then have "0 < unat f" by (simp add: unat_gt_0)
  then show ?thesis using before_mk [of f s] assms False by (simp add: scid_before_def max_def)
qed

text \<open>The channels of the map in a range of blocks; block 0 has none.\<close>

definition channels_in :: "u64 list \<Rightarrow> nat \<Rightarrow> nat \<Rightarrow> u64 list" where
  "channels_in cm f n = filter (\<lambda>s. max 1 f \<le> block_of s \<and> block_of s < f + n) cm"

lemma takeWhile_blocks:
  "sorted_wrt (<) cm \<Longrightarrow> takeWhile (\<lambda>k. block_of k < e) cm = filter (\<lambda>k. block_of k < e) cm"
proof (induction cm)
  case (Cons x cm)
  have "block_of x \<le> block_of k" if "k \<in> set cm" for k
    using Cons.prems that by (auto intro: block_mono)
  then have "filter (\<lambda>k. block_of k < e) cm = []" if "\<not> block_of x < e"
    using that by (fastforce simp: filter_empty_conv)
  with Cons show ?case by auto
qed simp

lemma gather_channels:
  assumes "sorted_wrt (<) cm" "unat f < 2 ^ 24" "unat f + unat n < 2 ^ 32"
  shows "gather_scids cm f n (scid_before f) e = e @ scid_bytes (channels_in cm (unat f) (unat n))"
proof -
  have "unat (f + n) = unat f + unat n" using assms(3) unat_add_lem [of f n] by simp
  then have c: "(\<not> short_channel_id_blocknum k \<ge> f + n) = (block_of k < unat f + unat n)" for k
    by (simp add: word_le_nat_alt unat_blocknum not_le)
  have s: "sorted_wrt (<) (filter (\<lambda>k. scid_before f < k) cm)" using assms(1) by (rule sorted_wrt_filter)
  show ?thesis
    unfolding gather_scids_takeWhile [OF assms(1)] c takeWhile_blocks [OF s] filter_filter after_before [OF assms(2)] channels_in_def
    by (simp add: conj_commute)
qed

lemma start_byte: "encode_short_channel_ids_start = [SHORTIDS_ZLIB]"
  by (simp add: encode_short_channel_ids_start_def towire_defs)

lemma length_channels_in: "length (channels_in cm f n) \<le> length cm"
  by (simp add: channels_in_def)

lemma channels_in_append: "sorted_wrt (<) cm \<Longrightarrow> channels_in cm f n @ channels_in cm (f + n) k = channels_in cm f (n + k)"
proof (induction cm)
  case (Cons x cm)
  have "block_of x \<le> block_of y" if "y \<in> set cm" for y using Cons.prems that by (auto intro: block_mono)
  then have "channels_in cm f n = []" if "max 1 (f + n) \<le> block_of x"
    using that by (fastforce simp: channels_in_def filter_empty_conv)
  then show ?case using Cons by (auto simp: channels_in_def max_def split: if_splits)
qed (simp add: channels_in_def)

section \<open>The replies to a query\<close>

text \<open>
  The replies tile the \<open>n\<close> blocks from \<open>f\<close> on: each begins where the one before ended and lists
  the channels of its own blocks.
\<close>

fun covers :: "compress \<Rightarrow> bytes \<Rightarrow> u64 list \<Rightarrow> nat \<Rightarrow> nat \<Rightarrow> range_reply list \<Rightarrow> bool" where
  "covers uncompress chain cm f n [] \<longleftrightarrow> n = 0"
| "covers uncompress chain cm f n (r # rs) \<longleftrightarrow>
     rr_chain_hash r = chain \<and> unat (rr_first_blocknum r) = f \<and> 0 < unat (rr_number_of_blocks r) \<and>
     unat (rr_number_of_blocks r) \<le> n \<and>
     decode_short_ids uncompress (rr_encoded r) = Some (Some (channels_in cm f (unat (rr_number_of_blocks r)))) \<and>
     covers uncompress chain cm (f + unat (rr_number_of_blocks r)) (n - unat (rr_number_of_blocks r)) rs"

lemma covers_append:
  "covers unc chain cm f n rs \<Longrightarrow> covers unc chain cm (f + n) k rs' \<Longrightarrow> covers unc chain cm f (n + k) (rs @ rs')"
proof (induction rs arbitrary: f n)
  case (Cons r rs)
  let ?k = "unat (rr_number_of_blocks r)"
  have e: "f + ?k + (n - ?k) = f + n" "n - ?k + k = n + k - ?k" using Cons.prems(1) by auto
  have "covers unc chain cm (f + ?k) (n - ?k + k) (rs @ rs')"
    using Cons.prems by (intro Cons.IH) (simp_all only: covers.simps e)
  then show ?case using Cons.prems(1) unfolding e by simp
qed simp

text \<open>The channels of one block fit into a message.\<close>

definition block_fits :: "compress \<Rightarrow> nat option \<Rightarrow> u64 list \<Rightarrow> nat \<Rightarrow> bool" where
  "block_fits compress2 limit cm b \<longleftrightarrow>
     (case encode_short_channel_ids_end compress2 limit (SHORTIDS_ZLIB # scid_bytes (channels_in cm b 1)) max_encoded_bytes of
        Some (fits, _) \<Rightarrow> fits | None \<Rightarrow> False)"

lemma replies_cover:
  assumes z: "zlib_laws compress2 uncompress" and cm: "sorted_wrt (<) cm" "8 * length cm \<le> 1024 * 1024"
  shows "0 < unat n \<Longrightarrow> unat f + unat n \<le> 2 ^ 24 \<Longrightarrow>
    \<forall>b. unat f \<le> b \<and> b < unat f + unat n \<longrightarrow> block_fits compress2 limit cm b \<Longrightarrow>
    \<exists>rs. queue_channel_ranges compress2 limit chain cm f n = Some rs \<and> covers uncompress chain cm (unat f) (unat n) rs"
proof (induction "unat n" arbitrary: f n rule: less_induct)
  case less
  have "8 * length (channels_in cm (unat f) (unat n)) \<le> 1024 * 1024" using cm(2) length_channels_in [of cm "unat f" "unat n"] by linarith
  from encode_end_decodes [OF z this] obtain ok e where
    e: "encode_short_channel_ids_end compress2 limit (SHORTIDS_ZLIB # scid_bytes (channels_in cm (unat f) (unat n))) max_encoded_bytes = Some (ok, e)"
      "decode_short_ids uncompress e = Some (Some (channels_in cm (unat f) (unat n)))" by blast
  have "unat f < 2 ^ 24" "unat f + unat n < 2 ^ 32" using less.prems by auto
  note q = queue_channel_ranges.simps [of compress2 limit chain cm f n, unfolded gather_channels [OF cm(1) this] start_byte append_Cons append_Nil e(1)]
  show ?case
  proof (cases "ok")
    case True
    then show ?thesis using q e(2) less.prems(1) by (simp add: reply_channel_range_def)
  next
    case False
    have n1: "\<not> n \<le> 1"
    proof
      assume "n \<le> 1"
      then have "unat n = 1" using less.prems(1) by (simp add: word_le_nat_alt)
      then show False using less.prems(3) e(1) False by (auto simp: block_fits_def)
    qed
    let ?h = "n div 2"
    note h = half_range [OF n1]
    have le: "unat f + unat n div 2 \<le> 2 ^ 24" "unat f + unat n div 2 + (unat n - unat n div 2) = unat f + unat n"
      using less.prems(2) by auto
    have fh: "unat (f + ?h) = unat f + unat ?h" using unat_add_lem [of f ?h] less.prems(2) h(1,4) by simp
    obtain rs where rs: "queue_channel_ranges compress2 limit chain cm f ?h = Some rs" "covers uncompress chain cm (unat f) (unat ?h) rs"
      using less.hyps [of ?h f] less.prems(3) h le by fastforce
    obtain rs' where rs': "queue_channel_ranges compress2 limit chain cm (f + ?h) (n - ?h) = Some rs'"
      "covers uncompress chain cm (unat f + unat ?h) (unat (n - ?h)) rs'"
      using less.hyps [of "n - ?h" "f + ?h"] less.prems(2,3) h le fh by fastforce
    have "unat ?h + unat (n - ?h) = unat n" using h by simp
    then have "covers uncompress chain cm (unat f) (unat n) (rs @ rs')" using covers_append [OF rs(2) rs'(2)] by simp
    then show ?thesis using q False n1 rs(1) rs'(1) by simp
  qed
qed

section \<open>The asking side\<close>

text \<open>
  A query for \<open>N\<close> blocks from \<open>F\<close> on of which the first \<open>x\<close> have been answered, with the channels
  \<open>acc\<close>.
\<close>

definition asking :: "peer \<Rightarrow> nat \<Rightarrow> nat \<Rightarrow> nat \<Rightarrow> u64 list \<Rightarrow> bool" where
  "asking p F N x acc \<longleftrightarrow>
     (\<exists>blocks. pe_query_channel_blocks p = Some blocks \<and> N \<le> 64 * length blocks \<and> bm_bits blocks = {0..<x}) \<and>
     unat (pe_range_first_blocknum p) = F \<and> unat (pe_range_end_blocknum p) = F + N \<and>
     unat (pe_range_blocks_remaining p) = N - x \<and> pe_query_channel_scids p = Some acc"

lemma zero_bitmap: "bm_bits (replicate k 0) = {}" "n \<le> 64 * BITMAP_NWORDS n"
proof -
  show "bm_bits (replicate k 0) = {}" by (auto simp: bm_bits_def bm_bit_def)
  have "n + 63 < 64 * Suc ((n + 63) div 64)" using dividend_less_times_div [of 64 "n + 63"] by simp
  then show "n \<le> 64 * BITMAP_NWORDS n" by (simp add: BITMAP_NWORDS_def)
qed

lemma query_asks:
  assumes "pe_gossip_queries_feature p" "pe_query_channel_blocks p = None" "unat first + unat number < 2 ^ 32"
  shows "\<exists>p'. query_channel_range chain (Some p) first number =
      (Some p', Inr \<lparr>rq_chain_hash = chain, rq_first_blocknum = first, rq_number_of_blocks = number\<rparr>) \<and>
    asking p' (unat first) (unat number) 0 []"
  using assms unat_add_lem [of first number] zero_bitmap
  by (simp add: query_channel_range_def asking_def)

text \<open>A reply about the next \<open>k\<close> blocks.\<close>

lemma reply_accepted:
  assumes a: "asking p F N x acc" and x: "0 < k" "x + k \<le> N" "F + N < 2 ^ 32"
    and r: "rr_chain_hash r = chain" "unat (rr_first_blocknum r) = F + x" "unat (rr_number_of_blocks r) = k"
    and d: "decode_short_ids uncompress (rr_encoded r) = Some (Some scids)"
  shows "\<exists>p'. if x + k < N
    then handle_reply_channel_range uncompress chain p (Some r) = Some (None, p', None) \<and> asking p' F N (x + k) (acc @ scids)
    else handle_reply_channel_range uncompress chain p (Some r) = Some (None, p',
        Some \<lparr>rs_final_first_block = rr_first_blocknum r, rs_final_num_blocks = rr_number_of_blocks r,
          rs_final_complete = (rr_complete r \<noteq> 0), rs_scids = acc @ scids\<rparr>) \<and>
      pe_query_channel_blocks p' = None \<and> pe_query_channel_scids p' = None"
proof -
  let ?f = "rr_first_blocknum r" and ?n = "rr_number_of_blocks r"
  let ?F = "pe_range_first_blocknum p" and ?E = "pe_range_end_blocknum p"
  obtain blocks where b: "pe_query_channel_blocks p = Some blocks" "N \<le> 64 * length blocks" "bm_bits blocks = {0..<x}"
    and p: "unat ?F = F" "unat ?E = F + N" "unat (pe_range_blocks_remaining p) = N - x" "pe_query_channel_scids p = Some acc"
    using a by (auto simp: asking_def)
  have e: "unat (?f + ?n) = F + x + k" using unat_add_lem [of ?f ?n] r x by simp
  have test: "\<not> ?f + ?n < ?f" "\<not> (?f + ?n \<le> ?F \<or> ?f \<ge> ?E)" "\<not> ?f < ?F" "\<not> ?f + ?n > ?E"
    using e r(2,3) p(1,2) x by (auto simp: word_less_nat_alt word_le_nat_alt)
  have n: "unat (?f - ?F) = x" "unat (?f + ?n - ?F) = x + k" "unat (?f + ?n - ?f) = k"
    using e r(2,3) p(1) by (auto simp: unat_sub word_le_nat_alt)
  have free: "x \<le> x + k" "x + k \<le> 64 * length blocks" "bm_bits blocks \<inter> {x..<x + k} = {}" using b x by auto
  obtain blocks' where c: "bitmap_ffs blocks x (x + k) = Some (x + k)" "bitmap_fill_range blocks x (x + k) = Some blocks'"
    "length blocks' = length blocks" "bm_bits blocks' = {0..<x + k}"
    using bm.claim_free [OF free] b(3) by (auto simp: ivl_disj_un)
  have rem: "unat (pe_range_blocks_remaining p - (?f + ?n - ?f)) = N - x - k"
    using unat_sub [of "?f + ?n - ?f" "pe_range_blocks_remaining p"] n(3) p(3) x by (simp add: word_le_nat_alt)
  have z: "pe_range_blocks_remaining p - (?f + ?n - ?f) = 0 \<longleftrightarrow> \<not> x + k < N"
    using rem x unat_eq_0 [of "pe_range_blocks_remaining p - (?f + ?n - ?f)"] by auto
  define p' where "p' = p\<lparr>pe_query_channel_blocks := Some blocks',
     pe_range_blocks_remaining := pe_range_blocks_remaining p - (?f + ?n - ?f), pe_query_channel_scids := Some (acc @ scids)\<rparr>"
  have h: "handle_reply_channel_range uncompress chain p (Some r) =
    (if x + k < N then Some (None, p', None)
     else Some (None, p'\<lparr>pe_query_channel_scids := None, pe_query_channel_blocks := None\<rparr>,
       Some \<lparr>rs_final_first_block = ?f, rs_final_num_blocks = ?n, rs_final_complete = (rr_complete r \<noteq> 0), rs_scids = acc @ scids\<rparr>))"
    using r(1) b(1) d p(4) c(1,2) z
    by (simp add: handle_reply_channel_range_def Let_def if_not_P [OF test(1)] if_not_P [OF test(2)] if_not_P [OF test(3)]
        if_not_P [OF test(4)] n(1,2) p'_def)
  have "asking p' F N (x + k) (acc @ scids)"
    using b(2) c(3,4) p rem by (simp add: asking_def p'_def)
  then show ?thesis unfolding h by auto
qed

text \<open>The replies one after the other; \<open>None\<close> when one is answered with an error.\<close>

fun receive_replies :: "compress \<Rightarrow> bytes \<Rightarrow> peer \<Rightarrow> range_reply list \<Rightarrow> (peer \<times> range_result list) option" where
  "receive_replies uncompress chain p [] = Some (p, [])"
| "receive_replies uncompress chain p (r # rs) =
     (case handle_reply_channel_range uncompress chain p (Some r) of
        Some (None, p, told) \<Rightarrow>
          map_option (\<lambda>(p, results). (p, (case told of None \<Rightarrow> results | Some res \<Rightarrow> res # results)))
            (receive_replies uncompress chain p rs)
      | _ \<Rightarrow> None)"

lemma replies_accepted:
  assumes cm: "sorted_wrt (<) cm" and N: "F + N < 2 ^ 32"
  shows "asking p F N x acc \<Longrightarrow> x < N \<Longrightarrow> covers uncompress chain cm (F + x) (N - x) rs \<Longrightarrow>
    \<exists>p' res. receive_replies uncompress chain p rs = Some (p', [res]) \<and>
      rs_scids res = acc @ channels_in cm (F + x) (N - x) \<and> pe_query_channel_blocks p' = None"
proof (induction rs arbitrary: p x acc)
  case (Cons r rs)
  let ?k = "unat (rr_number_of_blocks r)"
  have r: "0 < ?k" "x + ?k \<le> N" "rr_chain_hash r = chain" "unat (rr_first_blocknum r) = F + x"
    "decode_short_ids uncompress (rr_encoded r) = Some (Some (channels_in cm (F + x) ?k))"
    "covers uncompress chain cm (F + (x + ?k)) (N - (x + ?k)) rs"
    using Cons.prems(2,3) by (auto simp: add.assoc)
  note step = reply_accepted [OF Cons.prems(1) r(1,2) N r(3,4) refl r(5)]
  have split: "channels_in cm (F + x) ?k @ channels_in cm (F + (x + ?k)) (N - (x + ?k)) = channels_in cm (F + x) (N - x)"
    using channels_in_append [OF cm, of "F + x" ?k "N - (x + ?k)"] r(2) by (simp add: add.assoc)
  show ?case
  proof (cases "x + ?k < N")
    case True
    then obtain p' where p': "handle_reply_channel_range uncompress chain p (Some r) = Some (None, p', None)"
      "asking p' F N (x + ?k) (acc @ channels_in cm (F + x) ?k)" using step by auto
    from Cons.IH [OF p'(2) True r(6)] p'(1) split show ?thesis by auto
  next
    case False
    then have "x + ?k = N" "rs = []" using r(2,6) by (auto, cases rs) auto
    then show ?thesis using step split by auto
  qed
qed simp

lemma scids_of_exact: "\<exists>r. scids_of (Some b) = Some r \<and> (\<forall>scids. r = Some scids \<longleftrightarrow> b = scid_bytes scids)"
proof -
  obtain ss t where b: "b = scid_bytes ss @ t" "length t < 8" using split_scid_bytes by blast
  have "b = scid_bytes scids \<longleftrightarrow> t = [] \<and> ss = scids" for scids
  proof
    assume "b = scid_bytes scids"
    then have "Some (if t = [] then Some ss else None) = Some (Some scids)"
      using scids_of_bytes [OF b(2), of ss] scids_of_scid_bytes [of scids] b(1) by metis
    then show "t = [] \<and> ss = scids" by (simp split: if_splits)
  qed (simp add: b(1))
  then show ?thesis using scids_of_bytes [OF b(2), of ss] b(1) by auto
qed

section \<open>Properties\<close>

text \<open>
  C11: a query for the channels of a range of blocks is answered in full. One node asks for
  \<open>number\<close> blocks from \<open>first\<close> on, the other one answers from its map of channels, splitting the
  range into halves as long as the answer does not fit into a message, and the first one takes in
  the replies in their order. The splitting ends, no reply is refused, and after the last one the
  first node reports, once, exactly the channels of the range in ascending order and the query is
  over. It is assumed that the channels of a single block fit into a message, that the range lies
  in the \<open>2 ^ 24\<close> blocks a short channel id can name, and that there are at most 131072 channels,
  which is what \<^verbatim>\<open>unzlib\<close> has room for.
\<close>

theorem range_query_answered:
  assumes "zlib_laws compress2 uncompress" "sorted_wrt (<) chanmap" "8 * length chanmap \<le> 1024 * 1024"
    and "0 < unat number" "unat first + unat number \<le> 2 ^ 24"
    and "\<forall>b. unat first \<le> b \<and> b < unat first + unat number \<longrightarrow> block_fits compress2 limit chanmap b"
    and "pe_gossip_queries_feature p" "pe_query_channel_blocks p = None"
  shows "\<exists>p1 q rs p2 res. query_channel_range chain (Some p) first number = (Some p1, Inr q) \<and>
    handle_query_channel_range compress2 limit chain chanmap (Some q) = Some (None, rs) \<and>
    receive_replies uncompress chain p1 rs = Some (p2, [res]) \<and>
    rs_scids res = channels_in chanmap (unat first) (unat number) \<and> pe_query_channel_blocks p2 = None"
proof -
  have lim: "unat first + unat number < 2 ^ 32" using assms(5) by simp
  obtain p1 where p1: "query_channel_range chain (Some p) first number =
      (Some p1, Inr \<lparr>rq_chain_hash = chain, rq_first_blocknum = first, rq_number_of_blocks = number\<rparr>)"
    "asking p1 (unat first) (unat number) 0 []"
    using query_asks [OF assms(7,8) lim] by blast
  obtain rs where rs: "queue_channel_ranges compress2 limit chain chanmap first number = Some rs"
    "covers uncompress chain chanmap (unat first) (unat number) rs"
    using replies_cover [OF assms(1-6)] by blast
  have "\<not> first + number < first" using unat_add_lem [of first number] lim by (simp add: word_less_nat_alt)
  then have "handle_query_channel_range compress2 limit chain chanmap
      (Some \<lparr>rq_chain_hash = chain, rq_first_blocknum = first, rq_number_of_blocks = number\<rparr>) = Some (None, rs)"
    using rs(1) by (simp add: handle_query_channel_range_def)
  moreover have "covers uncompress chain chanmap (unat first + 0) (unat number - 0) rs" using rs(2) by simp
  from replies_accepted [OF assms(2) lim p1(2) assms(4) this] obtain p2 res where
    "receive_replies uncompress chain p1 rs = Some (p2, [res])"
    "rs_scids res = channels_in chanmap (unat first) (unat number)" "pe_query_channel_blocks p2 = None" by auto
  ultimately show ?thesis using p1(1) by blast
qed

text \<open>A node that knows one channel and does not compress.\<close>

definition sample_peer :: peer where
  "sample_peer = \<lparr>pe_gossip_queries_feature = True, pe_query_channel_blocks = None, pe_range_first_blocknum = 0,
     pe_range_end_blocknum = 0, pe_range_blocks_remaining = 0, pe_query_channel_scids = None\<rparr>"

lemma block_of_mk: "b < 2 ^ 24 \<Longrightarrow> block_of (mk_short_channel_id (of_nat b) 0 0) = b"
  by (simp add: block_of_def unat_mk_block unat_of_nat)

lemma no_zlib_laws: "zlib_laws (\<lambda>_ _. None) (\<lambda>_ _. None)"
  by (simp add: zlib_laws_def)

theorem range_query_answered_witness:
  "\<exists>p1 q rs p2 res. query_channel_range [] (Some sample_peer) 3 4 = (Some p1, Inr q) \<and>
    handle_query_channel_range (\<lambda>_ _. None) None [] [mk_short_channel_id 5 0 0] (Some q) = Some (None, rs) \<and>
    receive_replies (\<lambda>_ _. None) [] p1 rs = Some (p2, [res]) \<and> rs_scids res = [mk_short_channel_id 5 0 0]"
proof -
  have f: "\<forall>b. unat (3 :: u32) \<le> b \<and> b < unat (3 :: u32) + unat (4 :: u32) \<longrightarrow>
      block_fits (\<lambda>_ _. None) None [mk_short_channel_id 5 0 0] b"
    by (auto simp: block_fits_def encode_short_channel_ids_end_def zencode_scids_def channels_in_def max_encoded_bytes_def)
  have "channels_in [mk_short_channel_id 5 0 0] 3 4 = [mk_short_channel_id 5 0 0]"
    using block_of_mk [of 5] by (simp add: channels_in_def)
  moreover have "sorted_wrt (<) [mk_short_channel_id 5 0 0]" "8 * length [mk_short_channel_id 5 0 0] \<le> 1024 * 1024"
    "0 < unat (4 :: u32)" "unat (3 :: u32) + unat (4 :: u32) \<le> 2 ^ 24"
    "pe_gossip_queries_feature sample_peer" "pe_query_channel_blocks sample_peer = None" by (simp_all add: sample_peer_def)
  note range_query_answered [OF no_zlib_laws this(1-4) f this(5,6), of "[]"]
  ultimately show ?thesis by auto
qed

text \<open>
  C30: decoding a list of short channel ids ends for every input, although the loop only tests
  whether anything is left to read. The result is a list exactly when the bytes behind the type,
  after decompression, are the bytes of whole ids, and it is the list of these.
\<close>

theorem decode_terminates:
  "\<exists>r. decode_short_ids uncompress encoded = Some r \<and>
    (\<forall>scids. r = Some scids \<longleftrightarrow> encoded = SHORTIDS_UNCOMPRESSED # scid_bytes scids \<or>
      (\<exists>b. encoded = SHORTIDS_ZLIB # b \<and> uncompress b (1024 * 1024) = Some (scid_bytes scids)))"
proof (cases encoded)
  case Nil
  then show ?thesis by (simp add: decode_returns)
next
  case (Cons k b)
  have ne: "SHORTIDS_UNCOMPRESSED \<noteq> SHORTIDS_ZLIB" by (simp add: SHORTIDS_UNCOMPRESSED_def SHORTIDS_ZLIB_def)
  consider "k = SHORTIDS_UNCOMPRESSED" | "k = SHORTIDS_ZLIB" | "k \<noteq> SHORTIDS_UNCOMPRESSED" "k \<noteq> SHORTIDS_ZLIB" by blast
  then show ?thesis
  proof cases
    case 1
    obtain r where "scids_of (Some b) = Some r" "\<And>scids. r = Some scids \<longleftrightarrow> b = scid_bytes scids" using scids_of_exact by blast
    then show ?thesis using Cons 1 ne by (intro exI [of _ r]) (simp add: decode_returns)
  next
    case 2
    show ?thesis
    proof (cases "uncompress b (1024 * 1024)")
      case None
      then show ?thesis using Cons 2 ne by (intro exI [of _ None]) (simp add: decode_returns)
    next
      case (Some u)
      obtain r where "scids_of (Some u) = Some r" "\<And>scids. r = Some scids \<longleftrightarrow> u = scid_bytes scids" using scids_of_exact by blast
      then show ?thesis using Cons 2 ne Some by (intro exI [of _ r]) (simp add: decode_returns)
    qed
  next
    case 3
    then show ?thesis using Cons by (intro exI [of _ None]) (simp add: decode_returns)
  qed
qed



end
