(* ===== verification/Intmap.thy ===== *)
theory Intmap
  imports Prelude
begin

text \<open>
  \<^verbatim>\<open>ccan/intmap\<close> with what it uses of \<^verbatim>\<open>ccan/bitops\<close>: maps from 64-bit keys as crit-bit trees. A node
  keeps the bit that tells its two subtrees apart and the bits above it, which all of its keys share, in
  one word. \<open>None\<close> as a map is the empty one; a struct with a value is an \<open>Entry\<close>, any other a \<open>Node\<close>.
  Memory does not run out. The locale \<open>ordered_map\<close> is what the users of such a map rely on.
\<close>

unbundle bit_operations_syntax

section \<open>Operations\<close>

definition bitops_ffs64 :: "u64 \<Rightarrow> nat" where
  "bitops_ffs64 u = (case find (\<lambda>i. u AND push_bit i 1 \<noteq> 0) [0..<64] of Some i \<Rightarrow> i + 1 | None \<Rightarrow> 0)"

text \<open>Only applied to words other than 0.\<close>

definition bitops_ls64 :: "u64 \<Rightarrow> nat" where
  "bitops_ls64 u = bitops_ffs64 u - 1"

text \<open>\<open>None\<close> is the abort for 0.\<close>

definition bitops_clz64 :: "u64 \<Rightarrow> nat option" where
  "bitops_clz64 u = find (\<lambda>i. u AND push_bit (63 - i) 1 \<noteq> 0) [0..<64]"

definition bitops_hs64 :: "u64 \<Rightarrow> nat option" where
  "bitops_hs64 u = map_option (\<lambda>z. 63 - z) (bitops_clz64 u)"

datatype 'v intmap = Entry u64 'v | Node u64 "'v intmap" "'v intmap"

type_synonym 'v uintmap = "'v intmap option"

definition critbit :: "u64 \<Rightarrow> nat" where
  "critbit pc = bitops_ls64 pc"

definition prefix_mask :: "nat \<Rightarrow> u64" where
  "prefix_mask c = push_bit c (- 2)"

definition prefix_and_critbit :: "u64 \<Rightarrow> nat \<Rightarrow> u64" where
  "prefix_and_critbit v n = (let critbit = push_bit n 1 in (v AND NOT (critbit - 1)) OR critbit)"

text \<open>The bit of the key on which a loop goes down.\<close>

definition direction :: "u64 \<Rightarrow> nat \<Rightarrow> bool" where
  "direction index c \<longleftrightarrow> drop_bit c index AND 1 \<noteq> 0"

definition intmap_init :: "'v uintmap" where
  "intmap_init = None"

definition intmap_empty :: "'v uintmap \<Rightarrow> bool" where
  "intmap_empty m \<longleftrightarrow> m = None"

primrec get_loop :: "'v intmap \<Rightarrow> u64 \<Rightarrow> u64 \<times> 'v" where
  "get_loop (Entry i v) index = (i, v)"
| "get_loop (Node pc l r) index = (if direction index (critbit pc) then get_loop r index else get_loop l index)"

definition intmap_get :: "'v uintmap \<Rightarrow> u64 \<Rightarrow> 'v option" where
  "intmap_get m index =
     (case m of
        None \<Rightarrow> None
      | Some n \<Rightarrow> let (i, v) = get_loop n index in if index = i then Some v else None)"

definition split_node :: "'v intmap \<Rightarrow> u64 \<Rightarrow> u64 \<Rightarrow> 'v \<Rightarrow> (bool \<times> 'v intmap) option" where
  "split_node n nodeindex index value =
     do {
       c \<leftarrow> bitops_hs64 (nodeindex XOR index);
       if \<not> c < 64 then None
       else Some (True,
         if direction index c then Node (prefix_and_critbit index c) n (Entry index value)
         else Node (prefix_and_critbit index c) (Entry index value) n)
     }"

primrec add_loop :: "'v intmap \<Rightarrow> u64 \<Rightarrow> 'v \<Rightarrow> (bool \<times> 'v intmap) option" where
  "add_loop (Entry i v) index value =
     (if index = i then Some (False, Entry i v) else split_node (Entry i v) i index value)"
| "add_loop (Node pc l r) index value =
     (let crit = critbit pc; m = prefix_mask crit
      in if index AND m \<noteq> pc AND m then split_node (Node pc l r) (pc AND m) index value
         else if direction index crit
         then map_option (\<lambda>(b, r). (b, Node pc l r)) (add_loop r index value)
         else map_option (\<lambda>(b, l). (b, Node pc l r)) (add_loop l index value))"

text \<open>The value added is never NULL.\<close>

definition intmap_add :: "'v uintmap \<Rightarrow> u64 \<Rightarrow> 'v \<Rightarrow> (bool \<times> 'v uintmap) option" where
  "intmap_add m index value =
     (case m of
        None \<Rightarrow> Some (True, Some (Entry index value))
      | Some n \<Rightarrow> map_option (\<lambda>(b, n). (b, Some n)) (add_loop n index value))"

text \<open>\<open>Some (v, None)\<close> is the removal of the entry itself, for which its parent becomes its sibling.\<close>

primrec del_loop :: "'v intmap \<Rightarrow> u64 \<Rightarrow> ('v \<times> 'v uintmap) option" where
  "del_loop (Entry i v) index = (if index \<noteq> i then None else Some (v, None))"
| "del_loop (Node pc l r) index =
     (if direction index (critbit pc)
      then map_option (\<lambda>(v, n). (v, Some (case n of None \<Rightarrow> l | Some r \<Rightarrow> Node pc l r))) (del_loop r index)
      else map_option (\<lambda>(v, n). (v, Some (case n of None \<Rightarrow> r | Some l \<Rightarrow> Node pc l r))) (del_loop l index))"

text \<open>The value removed, if any, and the map.\<close>

definition intmap_del :: "'v uintmap \<Rightarrow> u64 \<Rightarrow> 'v option \<times> 'v uintmap" where
  "intmap_del m index =
     (case m of
        None \<Rightarrow> (None, None)
      | Some n \<Rightarrow> (case del_loop n index of None \<Rightarrow> (None, m) | Some (v, m) \<Rightarrow> (Some v, m)))"

primrec first_loop :: "'v intmap \<Rightarrow> u64 \<times> 'v" where
  "first_loop (Entry i v) = (i, v)"
| "first_loop (Node pc l r) = first_loop l"

definition intmap_first :: "'v uintmap \<Rightarrow> (u64 \<times> 'v) option" where
  "intmap_first m = map_option first_loop m"

text \<open>\<open>prev\<close> is the greater subtree of the last node at which the loop took the lesser one.\<close>

primrec after_loop :: "'v intmap \<Rightarrow> u64 \<Rightarrow> 'v uintmap \<Rightarrow> (u64 \<times> 'v) option" where
  "after_loop (Entry i v) index prev = (if i \<ge> index then Some (i, v) else map_option first_loop prev)"
| "after_loop (Node pc l r) index prev =
     (let crit = critbit pc;
          idx = drop_bit crit index;
          right = idx AND 1 \<noteq> 0;
          idx = idx OR 1;
          prefix = drop_bit crit pc
      in if idx < prefix then Some (first_loop (Node pc l r))
         else if idx > prefix then map_option first_loop prev
         else if right then after_loop r index prev
         else after_loop l index (Some r))"

definition intmap_after :: "'v uintmap \<Rightarrow> u64 \<Rightarrow> (u64 \<times> 'v) option" where
  "intmap_after m index =
     (let index = index + 1
      in if index = 0 then None
         else case m of None \<Rightarrow> None | Some n \<Rightarrow> after_loop n index None)"

primrec last_loop :: "'v intmap \<Rightarrow> u64 \<times> 'v" where
  "last_loop (Entry i v) = (i, v)"
| "last_loop (Node pc l r) = last_loop r"

definition intmap_last :: "'v uintmap \<Rightarrow> (u64 \<times> 'v) option" where
  "intmap_last m = map_option last_loop m"

definition intmap_clear :: "'v uintmap \<Rightarrow> 'v uintmap" where
  "intmap_clear m = intmap_init"

text \<open>\<open>handle\<close> works on the data of the caller and tells whether to go on.\<close>

primrec iterate_loop :: "'v intmap \<Rightarrow> (u64 \<Rightarrow> 'v \<Rightarrow> 's \<Rightarrow> bool \<times> 's) \<Rightarrow> 's \<Rightarrow> u64 \<Rightarrow> bool \<times> 's" where
  "iterate_loop (Entry i v) handle data offset = handle (i - offset) v data"
| "iterate_loop (Node pc l r) handle data offset =
     (let (go, data) = iterate_loop l handle data offset
      in if go then iterate_loop r handle data offset else (False, data))"

definition intmap_iterate :: "'v uintmap \<Rightarrow> (u64 \<Rightarrow> 'v \<Rightarrow> 's \<Rightarrow> bool \<times> 's) \<Rightarrow> 's \<Rightarrow> u64 \<Rightarrow> bool \<times> 's" where
  "intmap_iterate m handle data offset = (case m of None \<Rightarrow> (True, data) | Some n \<Rightarrow> iterate_loop n handle data offset)"

section \<open>Bits\<close>

abbreviation above :: "nat \<Rightarrow> u64 \<Rightarrow> u64" where
  "above k x \<equiv> drop_bit (Suc k) x"

lemma and_one_bit: "i < 64 \<Longrightarrow> (u :: u64) AND push_bit i 1 \<noteq> 0 \<longleftrightarrow> bit u i"
  by (simp add: and_exp_eq_0_iff_not_bit push_bit_eq_mult)

lemma direction_bit: "direction index c \<longleftrightarrow> bit index c"
  by (simp add: direction_def bit_iff_odd_drop_bit and_one_eq odd_iff_mod_2_eq_one)

lemma find_bit: "find (\<lambda>i. (u :: u64) AND push_bit (f i) 1 \<noteq> 0) xs = find (\<lambda>i. bit u (f i)) xs" if "\<forall>i \<in> set xs. f i < 64"
  by (rule find_cong [OF refl]) (use that and_one_bit in simp)

lemma bitops_ls64_spec:
  assumes "bit u k" "\<forall>j < k. \<not> bit u j"
  shows "bitops_ls64 u = k"
proof -
  have k: "k < 64" using bit_imp_le_length [OF assms(1)] by simp
  have "find (\<lambda>i. bit u i) [0..<64] = Some k"
    unfolding find_Some_iff by (rule exI [of _ k]) (use assms k in auto)
  then show ?thesis by (simp add: bitops_ls64_def bitops_ffs64_def find_bit [of _ "\<lambda>i. i"] del: push_bit_of_1)
qed

lemma bitops_hs64_spec:
  assumes "bit u k" "\<forall>j > k. \<not> bit u j"
  shows "bitops_hs64 u = Some k"
proof -
  have k: "k < 64" using bit_imp_le_length [OF assms(1)] by simp
  have "find (\<lambda>i. bit u (63 - i)) [0..<64] = Some (63 - k)"
    unfolding find_Some_iff by (rule exI [of _ "63 - k"]) (use assms k in auto)
  moreover have "\<forall>i \<in> set [0..<64]. 63 - i < (64 :: nat)" by auto
  ultimately have "bitops_clz64 u = Some (63 - k)" unfolding bitops_clz64_def by (simp only: find_bit)
  then show ?thesis using k by (simp add: bitops_hs64_def)
qed

lemma above_eq_iff: "above k x = above k y \<longleftrightarrow> (\<forall>j > k. bit x j = bit y j)"
proof
  assume e: "above k x = above k y"
  show "\<forall>j > k. bit x j = bit y j"
  proof (intro allI impI)
    fix j assume "k < j"
    then show "bit x j = bit y j" using arg_cong [OF e, of "\<lambda>w. bit w (j - Suc k)"] by (simp add: bit_drop_bit_eq)
  qed
next
  assume "\<forall>j > k. bit x j = bit y j"
  then show "above k x = above k y" by (intro bit_word_eqI) (simp add: bit_drop_bit_eq)
qed

lemma above_mono: "above k x = above k y \<Longrightarrow> k \<le> c \<Longrightarrow> above c x = above c y"
  by (simp add: above_eq_iff)

lemma mask_above: "k < 64 \<Longrightarrow> x AND prefix_mask k = y AND prefix_mask k \<longleftrightarrow> above k x = above k y"
proof -
  assume k: "k < 64"
  have m: "bit (prefix_mask k) j \<longleftrightarrow> k < j \<and> j < 64" for j
  proof -
    have "(- 2 :: u64) = NOT 1" by simp
    then show ?thesis unfolding prefix_mask_def by (auto simp: bit_push_bit_iff bit_not_iff bit_1_iff)
  qed
  show ?thesis
  proof
    assume e: "x AND prefix_mask k = y AND prefix_mask k"
    show "above k x = above k y" unfolding above_eq_iff
    proof (intro allI impI)
      fix j assume "k < j"
      moreover have "bit x j \<and> bit (prefix_mask k) j \<longleftrightarrow> bit y j \<and> bit (prefix_mask k) j" using e by (metis bit_and_iff)
      moreover have "\<not> bit x j \<and> \<not> bit y j" if "\<not> j < 64" using that bit_imp_le_length [of x j] bit_imp_le_length [of y j] by auto
      ultimately show "bit x j = bit y j" using m by blast
    qed
  next
    assume "above k x = above k y"
    then show "x AND prefix_mask k = y AND prefix_mask k" by (intro bit_word_eqI) (auto simp: above_eq_iff bit_and_iff m)
  qed
qed

lemma bit_prefix: "bit (prefix_and_critbit v n) j \<longleftrightarrow> n < 64 \<and> j = n \<or> n \<le> j \<and> bit v j"
proof -
  have "push_bit n 1 - 1 = (mask n :: u64)" by (simp add: mask_eq_exp_minus_1)
  then show ?thesis
    by (auto simp: prefix_and_critbit_def Let_def bit_or_iff bit_and_iff bit_not_iff bit_mask_iff bit_exp_iff dest: bit_imp_le_length)
qed

lemma critbit_prefix: "n < 64 \<Longrightarrow> critbit (prefix_and_critbit v n) = n"
  unfolding critbit_def by (rule bitops_ls64_spec) (auto simp: bit_prefix)

lemma above_prefix: "n < 64 \<Longrightarrow> above n (prefix_and_critbit v n) = above n v"
  by (auto simp: above_eq_iff bit_prefix)

lemma highest_difference:
  assumes "x \<noteq> y"
  obtains c where "bitops_hs64 (x XOR y) = Some c" "c < 64" "above c x = above c y" "bit x c \<noteq> bit y c"
proof -
  let ?d = "x XOR y"
  have "\<exists>j. bit ?d j" using assms by (auto simp: bit_xor_iff bit_eq_iff)
  moreover have "bit ?d j \<Longrightarrow> j \<le> 63" for j using bit_imp_le_length [of ?d j] by simp
  ultimately have c: "bit ?d (Greatest (bit ?d))" "\<And>j. bit ?d j \<Longrightarrow> j \<le> Greatest (bit ?d)"
    by (metis GreatestI_nat, metis Greatest_le_nat)
  show ?thesis
  proof (rule that)
    show "bitops_hs64 ?d = Some (Greatest (bit ?d))" using c(1) by (rule bitops_hs64_spec) (use c(2) leD in blast)
    show "Greatest (bit ?d) < 64" using bit_imp_le_length [OF c(1)] by simp
    show "above (Greatest (bit ?d)) x = above (Greatest (bit ?d)) y"
      unfolding above_eq_iff
    proof (intro allI impI)
      fix j assume "Greatest (bit ?d) < j"
      then have "\<not> bit ?d j" using c(2) [of j] by linarith
      then show "bit x j = bit y j" by (simp add: bit_xor_iff)
    qed
    show "bit x (Greatest (bit ?d)) \<noteq> bit y (Greatest (bit ?d))" using c(1) by (simp add: bit_xor_iff)
  qed
qed

lemma unat_above: "unat (above k w) = unat (w :: u64) div 2 ^ Suc k"
  using unsigned_less [of w, where 'a = nat]
  by (simp only: unsigned_drop_bit_eq) (simp add: drop_bit_eq_div take_bit_nat_eq_self)

lemma less_at_bit:
  assumes "above k x = above k y" "\<not> bit x k" "bit y k"
  shows "x < (y :: u64)"
proof -
  have k: "k < 64" using bit_imp_le_length [OF assms(3)] by simp
  have u: "unat w = unat (above k w) * 2 ^ Suc k + of_bool (bit w k) * 2 ^ k + unat w mod 2 ^ k" for w :: u64
  proof -
    have "unat w mod 2 ^ Suc k = of_bool (bit w k) * 2 ^ k + unat w mod 2 ^ k"
    proof -
      have "bit (unat w) k \<longleftrightarrow> bit w k" by (simp add: bit_unsigned_iff)
      then have "bit w k \<longleftrightarrow> odd (unat w div 2 ^ k)" using bit_iff_odd [of "unat w" k] by simp
      moreover have "unat w mod 2 ^ Suc k = 2 ^ k * (unat w div 2 ^ k mod 2) + unat w mod 2 ^ k"
        using mod_mult2_eq [of "unat w" "2 ^ k" 2] by (simp only: power_Suc2)
      ultimately show ?thesis by (cases "bit w k") (simp_all only: of_bool_eq odd_iff_mod_2_eq_one even_iff_mod_2_eq_zero, simp_all)
    qed
    then show ?thesis unfolding unat_above by (metis add.assoc div_mult_mod_eq)
  qed
  let ?a = "unat (above k y) * 2 ^ Suc k"
  have "unat x = ?a + unat x mod 2 ^ k" using u [of x] assms(1,2) by (simp only: of_bool_eq mult_zero_left add_0_right)
  moreover have "unat y = ?a + 2 ^ k + unat y mod 2 ^ k" using u [of y] assms(3) by (simp only: of_bool_eq mult_1)
  moreover have "unat x mod 2 ^ k < 2 ^ k" by simp
  ultimately show ?thesis unfolding word_less_nat_alt by linarith
qed

lemma less_above: "above k x < above k y \<Longrightarrow> x < (y :: u64)"
proof (rule ccontr)
  assume l: "above k x < above k y" and "\<not> x < y"
  then have "unat y \<le> unat x" by (simp add: word_less_nat_alt)
  then have "unat y div 2 ^ Suc k \<le> unat x div 2 ^ Suc k" by (rule div_le_mono)
  then show False using l by (simp only: word_less_nat_alt unat_above)
qed

section \<open>Crit-bit trees\<close>

primrec entries :: "'v intmap \<Rightarrow> (u64 \<times> 'v) list" where
  "entries (Entry i v) = [(i, v)]"
| "entries (Node pc l r) = entries l @ entries r"

abbreviation node_keys :: "'v intmap \<Rightarrow> u64 set" where
  "node_keys n \<equiv> fst ` set (entries n)"

text \<open>The keys of a node share the bits above its critical one, which tells the two subtrees apart.\<close>

primrec crit_tree :: "'v intmap \<Rightarrow> bool" where
  "crit_tree (Entry i v) \<longleftrightarrow> True"
| "crit_tree (Node pc l r) \<longleftrightarrow> critbit pc < 64 \<and> bit pc (critbit pc) \<and> crit_tree l \<and> crit_tree r \<and>
     (\<forall>x \<in> node_keys l. above (critbit pc) x = above (critbit pc) pc \<and> \<not> bit x (critbit pc)) \<and>
     (\<forall>x \<in> node_keys r. above (critbit pc) x = above (critbit pc) pc \<and> bit x (critbit pc))"

lemma entries_nonempty: "entries n \<noteq> []"
  by (induction n) auto

lemma entries_sorted: "crit_tree n \<Longrightarrow> sorted_wrt (<) (map fst (entries n))"
proof (induction n)
  case (Node pc l r)
  have "x < y" if "x \<in> node_keys l" "y \<in> node_keys r" for x y
  proof (rule less_at_bit [of "critbit pc"])
    have "above (critbit pc) x = above (critbit pc) pc" "above (critbit pc) y = above (critbit pc) pc"
      using Node.prems that by force+
    then show "above (critbit pc) x = above (critbit pc) y" by simp
    show "\<not> bit x (critbit pc)" "bit y (critbit pc)" using Node.prems that by force+
  qed
  then show ?case using Node by (auto simp: sorted_wrt_append)
qed simp

lemma distinct_keys: "crit_tree n \<Longrightarrow> distinct (map fst (entries n))"
  using entries_sorted strict_sorted_iff by blast

lemma get_loop_entry: "get_loop n index \<in> set (entries n)"
  by (induction n) auto

lemma get_loop_finds: "crit_tree n \<Longrightarrow> index \<in> node_keys n \<Longrightarrow> fst (get_loop n index) = index"
  by (induction n) (auto simp: direction_bit)

lemma get_loop_map_of:
  assumes "crit_tree n"
  shows "(let (i, v) = get_loop n index in if index = i then Some v else None) = map_of (entries n) index"
proof (cases "index \<in> node_keys n")
  case True
  then obtain v where "get_loop n index = (index, v)" using get_loop_finds [OF assms] by (metis prod.collapse)
  then show ?thesis using get_loop_entry [of n index] distinct_keys [OF assms] by (simp add: map_of_is_SomeI)
next
  case False
  then have "map_of (entries n) index = None" by (simp add: map_of_eq_None_iff)
  moreover have "fst (get_loop n index) \<noteq> index" using False get_loop_entry [of n index] by (metis imageI)
  ultimately show ?thesis by (auto split: prod.splits)
qed

lemma node_key:
  assumes "crit_tree (Node pc l r)" "x \<in> node_keys (Node pc l r)"
  shows "above (critbit pc) x = above (critbit pc) pc"
  using assms by auto

lemma split_node_spec:
  assumes "crit_tree n" "nodeindex \<noteq> index"
    and "\<And>x c. x \<in> node_keys n \<Longrightarrow> c < 64 \<Longrightarrow> above c nodeindex = above c index \<Longrightarrow> bit nodeindex c \<noteq> bit index c \<Longrightarrow>
      above c x = above c nodeindex \<and> bit x c = bit nodeindex c"
  shows "\<exists>n'. split_node n nodeindex index value = Some (True, n') \<and> crit_tree n' \<and>
    set (entries n') = insert (index, value) (set (entries n))"
proof -
  obtain c where c: "bitops_hs64 (nodeindex XOR index) = Some c" "c < 64" "above c nodeindex = above c index" "bit nodeindex c \<noteq> bit index c"
    by (rule highest_difference [OF assms(2)])
  have k: "above c x = above c index \<and> bit x c \<noteq> bit index c" if "x \<in> node_keys n" for x
    using assms(3) [OF that c(2-4)] c(3,4) by auto
  have p: "critbit (prefix_and_critbit index c) = c" "above c (prefix_and_critbit index c) = above c index"
    "bit (prefix_and_critbit index c) c" using c(2) by (simp_all add: critbit_prefix above_prefix bit_prefix)
  show ?thesis
  proof (cases "bit index c")
    case True
    then show ?thesis using c p k assms(1) by (auto simp: split_node_def direction_bit)
  next
    case False
    then show ?thesis using c p k assms(1) by (auto simp: split_node_def direction_bit)
  qed
qed

lemma add_loop_spec:
  assumes "crit_tree n"
  shows "if index \<in> node_keys n then add_loop n index value = Some (False, n)
    else \<exists>n'. add_loop n index value = Some (True, n') \<and> crit_tree n' \<and>
      set (entries n') = insert (index, value) (set (entries n))"
  using assms
proof (induction n)
  case (Entry i v)
  show ?case
  proof (cases "index = i")
    case False
    then show ?thesis using split_node_spec [of "Entry i v" i index] by auto
  qed simp
next
  case (Node pc l r)
  let ?k = "critbit pc" and ?m = "prefix_mask (critbit pc)"
  have k: "?k < 64" using Node.prems by simp
  show ?case
  proof (cases "above ?k index = above ?k pc")
    case False
    then have m: "index AND ?m \<noteq> pc AND ?m" using mask_above [OF k] by simp
    have a: "above ?k (pc AND ?m) = above ?k pc" using mask_above [OF k, of "pc AND ?m" pc] by simp
    have "index \<notin> node_keys (Node pc l r)" using node_key [OF Node.prems] False by blast
    moreover have "\<exists>n'. split_node (Node pc l r) (pc AND ?m) index value = Some (True, n') \<and> crit_tree n' \<and>
        set (entries n') = insert (index, value) (set (entries (Node pc l r)))"
    proof (rule split_node_spec [OF Node.prems])
      show "pc AND ?m \<noteq> index" using a False by auto
      fix x c assume x: "x \<in> node_keys (Node pc l r)" and c: "c < 64" "above c (pc AND ?m) = above c index" "bit (pc AND ?m) c \<noteq> bit index c"
      have e: "above ?k x = above ?k (pc AND ?m)" using node_key [OF Node.prems x] a by simp
      have "?k < c" using above_mono [OF c(2), of ?k] a False by (cases "c \<le> ?k") auto
      then show "above c x = above c (pc AND ?m) \<and> bit x c = bit (pc AND ?m) c"
        using e unfolding above_eq_iff by (meson less_trans)
    qed
    ultimately show ?thesis using m by (simp add: Let_def)
  next
    case True
    then have m: "index AND ?m = pc AND ?m" using mask_above [OF k] by simp
    show ?thesis
    proof (cases "bit index ?k")
      case d: True
      then have l: "index \<notin> node_keys l" using Node.prems by auto
      show ?thesis using Node.IH(2) Node.prems m d l True by (auto simp: Let_def direction_bit split: if_splits)
    next
      case d: False
      then have r: "index \<notin> node_keys r" using Node.prems by auto
      show ?thesis using Node.IH(1) Node.prems m d r True by (auto simp: Let_def direction_bit split: if_splits)
    qed
  qed
qed

lemma del_loop_spec:
  assumes "crit_tree n"
  shows "case del_loop n index of
      None \<Rightarrow> index \<notin> node_keys n
    | Some (v, m) \<Rightarrow> (index, v) \<in> set (entries n) \<and>
        (case m of None \<Rightarrow> entries n = [(index, v)] | Some n' \<Rightarrow> crit_tree n' \<and> entries n' = filter (\<lambda>e. fst e \<noteq> index) (entries n))"
  using assms
proof (induction n)
  case (Node pc l r)
  have all: "filter (\<lambda>e. fst e \<noteq> index) xs = xs" if "index \<notin> fst ` set xs" for xs :: "(u64 \<times> 'a) list"
    using that by (auto simp: filter_id_conv)
  show ?case
  proof (cases "bit index (critbit pc)")
    case d: True
    then have l: "index \<notin> node_keys l" using Node.prems by auto
    show ?thesis using Node.IH(2) Node.prems d l all [OF l] by (auto simp: direction_bit split: option.splits)
  next
    case d: False
    then have r: "index \<notin> node_keys r" using Node.prems by auto
    show ?thesis using Node.IH(1) Node.prems d r all [OF r] by (auto simp: direction_bit split: option.splits)
  qed
qed auto

lemma first_loop_hd: "first_loop n = hd (entries n)"
  by (induction n) (auto simp: entries_nonempty)

lemma last_loop_last: "last_loop n = last (entries n)"
  by (induction n) (auto simp: entries_nonempty)

lemma find_hd: "xs \<noteq> [] \<Longrightarrow> P (hd xs) \<Longrightarrow> find P xs = Some (hd xs)"
  by (cases xs) auto

lemma find_append: "find P (xs @ ys) = (case find P xs of None \<Rightarrow> find P ys | Some x \<Rightarrow> Some x)"
  by (induction xs) auto

lemma find_none: "(\<And>x. x \<in> set xs \<Longrightarrow> \<not> P x) \<Longrightarrow> find P xs = None"
  by (auto simp: find_None_iff)

text \<open>With the lowest bit set, a comparison at the critical bit is one of the bits above it.\<close>

lemma or_one_less: "drop_bit k (w :: u64) OR 1 < drop_bit k v OR 1 \<longleftrightarrow> above k w < above k v"
proof -
  have u: "unat (drop_bit k x OR 1) = 2 * unat (above k x) + 1" for x :: u64
  proof -
    have "unat (drop_bit k x) = unat x div 2 ^ k"
      using unsigned_less [of x, where 'a = nat]
      by (simp only: unsigned_drop_bit_eq) (simp add: drop_bit_eq_div take_bit_nat_eq_self)
    moreover have "unat (drop_bit k x OR 1) = unat (drop_bit k x) OR 1" by (simp add: unsigned_or_eq)
    moreover have "a OR 1 = 2 * (a div 2) + 1" for a :: nat unfolding or_one_eq by (cases "even a") (auto elim: evenE oddE)
    moreover have "unat x div 2 ^ Suc k = unat x div 2 ^ k div 2" by (simp only: power_Suc2 div_mult2_eq)
    ultimately show ?thesis by (simp only: unat_above)
  qed
  show ?thesis unfolding word_less_nat_alt u by simp
qed

lemma bit_or_one: "bit pc k \<Longrightarrow> drop_bit k (pc :: u64) OR 1 = drop_bit k pc"
  by (rule bit_word_eqI) (auto simp: bit_or_iff bit_1_iff bit_drop_bit_eq)

lemma not_greater_above: "above k x < above k y \<Longrightarrow> \<not> y \<le> (x :: u64)"
  using less_above by (simp add: not_le)

lemma after_loop_spec:
  assumes "crit_tree n"
  shows "after_loop n index prev =
    (case find (\<lambda>e. index \<le> fst e) (entries n) of None \<Rightarrow> map_option first_loop prev | Some e \<Rightarrow> Some e)"
  using assms
proof (induction n arbitrary: prev)
  case (Node pc l r)
  let ?k = "critbit pc"
  have p: "drop_bit ?k pc OR 1 = drop_bit ?k pc" using Node.prems by (simp add: bit_or_one)
  note less = or_one_less [of ?k index pc, unfolded p] and greater = or_one_less [of ?k pc index, unfolded p]
  note ks = node_key [OF Node.prems]
  have d: "drop_bit ?k index AND 1 \<noteq> 0 \<longleftrightarrow> bit index ?k" using direction_bit [of index ?k] by (simp add: direction_def)
  consider "above ?k index < above ?k pc" | "above ?k pc < above ?k index" | "above ?k index = above ?k pc" by fastforce
  then show ?case
  proof cases
    case 1
    let ?h = "hd (entries (Node pc l r))"
    have "?h \<in> set (entries (Node pc l r))" by (rule hd_in_set) (simp add: entries_nonempty)
    then have "index < fst ?h" using ks [of "fst ?h"] 1 less_above [of ?k index "fst ?h"] by force
    then have "find (\<lambda>e. index \<le> fst e) (entries (Node pc l r)) = Some ?h"
      by (intro find_hd) (simp_all add: entries_nonempty less_imp_le)
    then show ?thesis using 1 less by (simp add: Let_def first_loop_hd del: entries.simps first_loop.simps)
  next
    case 2
    have "find (\<lambda>e. index \<le> fst e) (entries (Node pc l r)) = None"
    proof (rule find_none)
      fix e assume "e \<in> set (entries (Node pc l r))"
      then show "\<not> index \<le> fst e" using ks [of "fst e"] 2 not_greater_above [of ?k "fst e" index] by force
    qed
    moreover have "\<not> drop_bit ?k index OR 1 < drop_bit ?k pc" "drop_bit ?k pc < drop_bit ?k index OR 1" using 2 less greater by auto
    ultimately show ?thesis by (simp add: Let_def del: entries.simps)
  next
    case 3
    then have ne: "\<not> drop_bit ?k index OR 1 < drop_bit ?k pc" "\<not> drop_bit ?k pc < drop_bit ?k index OR 1" using less greater by auto
    show ?thesis
    proof (cases "bit index ?k")
      case b: True
      have "find (\<lambda>e. index \<le> fst e) (entries l) = None"
      proof (rule find_none)
        fix e assume "e \<in> set (entries l)"
        then have "fst e < index" using Node.prems 3 b by (intro less_at_bit [of ?k]) auto
        then show "\<not> index \<le> fst e" by simp
      qed
      then show ?thesis using ne b d Node.IH(2) Node.prems by (simp add: Let_def find_append)
    next
      case b: False
      have "index \<le> fst (hd (entries r))"
      proof -
        have "hd (entries r) \<in> set (entries r)" by (rule hd_in_set) (rule entries_nonempty)
        then have "index < fst (hd (entries r))" using Node.prems 3 b by (intro less_at_bit [of ?k]) auto
        then show ?thesis by simp
      qed
      then have "find (\<lambda>e. index \<le> fst e) (entries r) = Some (hd (entries r))" by (intro find_hd) (simp_all add: entries_nonempty)
      then show ?thesis using ne b d Node.IH(1) Node.prems by (simp add: Let_def find_append first_loop_hd split: option.splits)
    qed
  qed
qed simp

section \<open>Maps\<close>

definition uintmap_ok :: "'v uintmap \<Rightarrow> bool" where
  "uintmap_ok m \<longleftrightarrow> (case m of None \<Rightarrow> True | Some n \<Rightarrow> crit_tree n)"

text \<open>The contents, in ascending order.\<close>

definition listing :: "'v uintmap \<Rightarrow> (u64 \<times> 'v) list" where
  "listing m = (case m of None \<Rightarrow> [] | Some n \<Rightarrow> entries n)"

lemma listing_sorted: "uintmap_ok m \<Longrightarrow> sorted_wrt (<) (map fst (listing m))"
  by (auto simp: uintmap_ok_def listing_def entries_sorted split: option.splits)

lemma listing_distinct: "uintmap_ok m \<Longrightarrow> distinct (map fst (listing m))"
  using listing_sorted strict_sorted_iff by blast

lemma intmap_get_listing: "uintmap_ok m \<Longrightarrow> intmap_get m index = map_of (listing m) index"
  using get_loop_map_of by (auto simp: intmap_get_def uintmap_ok_def listing_def split: option.splits)

lemma intmap_add_old:
  assumes "uintmap_ok m" "index \<in> fst ` set (listing m)"
  shows "intmap_add m index value = Some (False, m)"
proof -
  obtain n where n: "m = Some n" "crit_tree n" "index \<in> node_keys n"
    using assms by (cases m) (auto simp: uintmap_ok_def listing_def)
  then have "add_loop n index value = Some (False, n)" using add_loop_spec [OF n(2), of index] by simp
  then show ?thesis using n(1) by (simp add: intmap_add_def)
qed

lemma intmap_add_new:
  assumes "uintmap_ok m" "index \<notin> fst ` set (listing m)"
  shows "\<exists>m'. intmap_add m index value = Some (True, m') \<and> uintmap_ok m' \<and>
    set (listing m') = insert (index, value) (set (listing m))"
proof (cases m)
  case None
  then show ?thesis by (simp add: intmap_add_def uintmap_ok_def listing_def)
next
  case (Some n)
  then have n: "crit_tree n" "index \<notin> node_keys n" using assms by (simp_all add: uintmap_ok_def listing_def)
  obtain n' where "add_loop n index value = Some (True, n')" "crit_tree n'" "set (entries n') = insert (index, value) (set (entries n))"
    using add_loop_spec [OF n(1), of index "value"] n(2) by auto
  then show ?thesis using Some by (intro exI [of _ "Some n'"]) (simp only: intmap_add_def uintmap_ok_def listing_def option.case option.map prod.case)
qed

lemma intmap_del_listing:
  assumes "uintmap_ok m"
  shows "\<exists>m'. intmap_del m index = (map_of (listing m) index, m') \<and> uintmap_ok m' \<and>
    listing m' = filter (\<lambda>e. fst e \<noteq> index) (listing m)"
proof (cases m)
  case None
  then show ?thesis by (simp add: intmap_del_def uintmap_ok_def listing_def)
next
  case (Some n)
  then have n: "crit_tree n" using assms by (simp add: uintmap_ok_def)
  show ?thesis
  proof (cases "del_loop n index")
    case None
    then have k: "index \<notin> node_keys n" using del_loop_spec [OF n, of index] by simp
    then have "filter (\<lambda>e. fst e \<noteq> index) (entries n) = entries n" by (auto simp: filter_id_conv)
    moreover have "map_of (entries n) index = None" using k by (simp add: map_of_eq_None_iff)
    ultimately show ?thesis using Some None n by (simp add: intmap_del_def uintmap_ok_def listing_def)
  next
    case r: (Some r)
    obtain v m' where "r = (v, m')" by fastforce
    with r have d: "del_loop n index = Some (v, m')" by simp
    then have "map_of (entries n) index = Some v" using del_loop_spec [OF n, of index] distinct_keys [OF n] by (simp add: map_of_is_SomeI)
    then show ?thesis using Some d n del_loop_spec [OF n, of index]
      by (auto simp: intmap_del_def uintmap_ok_def listing_def split: option.splits)
  qed
qed

lemma intmap_after_listing:
  assumes "uintmap_ok m"
  shows "intmap_after m index = find (\<lambda>e. index < fst e) (listing m)"
proof (cases "index + 1 = 0")
  case True
  then have "index = - 1" by (simp add: eq_neg_iff_add_eq_0)
  then have "\<not> index < x" for x by (simp add: not_less)
  then have "find (\<lambda>e. index < fst e) (listing m) = None" by (simp add: find_None_iff)
  then show ?thesis using True by (simp add: intmap_after_def)
next
  case False
  then have "unat (index + 1) = Suc (unat index)" by (simp add: unatSuc add.commute)
  then have "index + 1 \<le> x \<longleftrightarrow> index < x" for x unfolding word_le_nat_alt word_less_nat_alt by (simp only: Suc_le_eq)
  then have "after_loop n (index + 1) None = find (\<lambda>e. index < fst e) (entries n)" if "crit_tree n" for n
    using after_loop_spec [OF that, of "index + 1" None] by (simp split: option.splits)
  then show ?thesis using False assms by (cases m) (simp_all add: intmap_after_def uintmap_ok_def listing_def)
qed

lemma intmap_ends_listing:
  "intmap_first m = (if listing m = [] then None else Some (hd (listing m)))"
  "intmap_last m = (if listing m = [] then None else Some (last (listing m)))"
  by (auto simp: intmap_first_def intmap_last_def listing_def first_loop_hd last_loop_last entries_nonempty split: option.splits)

text \<open>Going through a map visits the listing until it is told to stop.\<close>

primrec visit :: "(u64 \<Rightarrow> 'v \<Rightarrow> 's \<Rightarrow> bool \<times> 's) \<Rightarrow> (u64 \<times> 'v) list \<Rightarrow> 's \<Rightarrow> bool \<times> 's" where
  "visit handle [] data = (True, data)"
| "visit handle (e # es) data =
     (let (go, data) = handle (fst e) (snd e) data in if go then visit handle es data else (False, data))"

lemma visit_append:
  "visit handle (es @ fs) data = (let (go, data) = visit handle es data in if go then visit handle fs data else (False, data))"
  by (induction es arbitrary: data) (auto simp: Let_def split: prod.splits)

lemma intmap_iterate_listing: "intmap_iterate m handle data 0 = visit handle (listing m) data"
proof -
  have "iterate_loop n handle data 0 = visit handle (entries n) data" for n data
    by (induction n arbitrary: data) (auto simp: visit_append split: prod.splits)
  then show ?thesis by (simp add: intmap_iterate_def listing_def split: option.splits)
qed

section \<open>What users rely on\<close>

locale ordered_map =
  fixes ok :: "'m \<Rightarrow> bool" and contents :: "'m \<Rightarrow> (u64 \<times> 'v) list"
    and new :: 'm and look :: "'m \<Rightarrow> u64 \<Rightarrow> 'v option" and add :: "'m \<Rightarrow> u64 \<Rightarrow> 'v \<Rightarrow> (bool \<times> 'm) option"
    and del :: "'m \<Rightarrow> u64 \<Rightarrow> 'v option \<times> 'm" and after :: "'m \<Rightarrow> u64 \<Rightarrow> (u64 \<times> 'v) option"
  assumes new_ok: "ok new" "contents new = []"
    and ascending: "ok m \<Longrightarrow> sorted_wrt (<) (map fst (contents m))"
    and look_contents: "ok m \<Longrightarrow> look m i = map_of (contents m) i"
    and add_old: "ok m \<Longrightarrow> i \<in> fst ` set (contents m) \<Longrightarrow> add m i v = Some (False, m)"
    and add_new: "ok m \<Longrightarrow> i \<notin> fst ` set (contents m) \<Longrightarrow>
      \<exists>m'. add m i v = Some (True, m') \<and> ok m' \<and> set (contents m') = insert (i, v) (set (contents m))"
    and del_contents: "ok m \<Longrightarrow>
      \<exists>m'. del m i = (map_of (contents m) i, m') \<and> ok m' \<and> contents m' = filter (\<lambda>e. fst e \<noteq> i) (contents m)"
    and after_contents: "ok m \<Longrightarrow> after m i = find (\<lambda>e. i < fst e) (contents m)"
begin

lemma look_added:
  assumes "ok m" "look m i = None"
  shows "\<exists>m'. add m i v = Some (True, m') \<and> ok m' \<and> look m' = (look m)(i \<mapsto> v)"
proof -
  have n: "i \<notin> fst ` set (contents m)" using assms look_contents by (simp add: map_of_eq_None_iff)
  obtain m' where m: "add m i v = Some (True, m')" "ok m'" "set (contents m') = insert (i, v) (set (contents m))"
    using add_new [OF assms(1) n] by blast
  have d: "distinct (map fst (contents m))" if "ok m" for m using ascending [OF that] strict_sorted_iff by blast
  have "look m' j = ((look m)(i \<mapsto> v)) j" for j
  proof -
    have "map_of (contents m') j = Some w \<longleftrightarrow> ((map_of (contents m))(i \<mapsto> v)) j = Some w" for w
      using d [OF assms(1)] d [OF m(2)] m(3) n by (auto simp: map_of_eq_Some_iff image_iff)
    then show ?thesis using m(2) assms(1) look_contents by (metis (no_types, lifting) fun_upd_apply option.exhaust)
  qed
  then show ?thesis using m by blast
qed

lemma look_deleted:
  assumes "ok m"
  shows "\<exists>m'. del m i = (look m i, m') \<and> ok m' \<and> look m' = (look m)(i := None)"
proof -
  obtain m' where m: "del m i = (map_of (contents m) i, m')" "ok m'" "contents m' = filter (\<lambda>e. fst e \<noteq> i) (contents m)"
    using del_contents [OF assms] by blast
  have "map_of (filter (\<lambda>e. fst e \<noteq> i) xs) j = ((map_of xs)(i := None)) j" for xs :: "(u64 \<times> 'v) list" and j
    by (induction xs) auto
  then show ?thesis using m assms look_contents by auto
qed

text \<open>A walk with \<open>after\<close> meets what is left of the contents, one after the other.\<close>

lemma after_next:
  assumes "ok m"
  shows "filter (\<lambda>e. i < fst e) (contents m) =
    (case after m i of None \<Rightarrow> [] | Some e \<Rightarrow> e # filter (\<lambda>x. fst e < fst x) (contents m))"
proof -
  have "filter (\<lambda>e. i < fst e) xs = (case find (\<lambda>e. i < fst e) xs of None \<Rightarrow> [] | Some e \<Rightarrow> e # filter (\<lambda>x. fst e < fst x) xs)"
    if "sorted_wrt (<) (map fst xs)" for xs :: "(u64 \<times> 'v) list"
    using that
  proof (induction xs)
    case (Cons x xs)
    show ?case
    proof (cases "i < fst x")
      case True
      then have "filter (\<lambda>e. i < fst e) xs = xs" "filter (\<lambda>e. fst x < fst e) xs = xs" using Cons.prems by (auto simp: filter_id_conv)
      then show ?thesis using True by simp
    next
      case False
      have "\<not> fst e < fst x" if "find (\<lambda>e. i < fst e) xs = Some e" for e
        using that False by (auto simp: find_Some_iff)
      then show ?thesis using Cons False by (auto split: option.splits)
    qed
  qed simp
  then show ?thesis using ascending [OF assms] after_contents [OF assms] by simp
qed

end

interpretation um: ordered_map uintmap_ok listing intmap_init intmap_get intmap_add intmap_del intmap_after
proof
  show "uintmap_ok intmap_init" "listing intmap_init = []" by (simp_all add: uintmap_ok_def listing_def intmap_init_def)
qed (fact listing_sorted intmap_get_listing intmap_add_old intmap_add_new intmap_del_listing intmap_after_listing)+

section \<open>Properties\<close>

text \<open>
  C12: a crit-bit tree is an ordered map. Its entries come in strictly ascending order of their keys;
  \<^verbatim>\<open>intmap_get\<close> finds the value of a key; \<^verbatim>\<open>intmap_add\<close> never aborts, refuses a key that is there and
  adds any other; \<^verbatim>\<open>intmap_del\<close> returns the value of a key and removes nothing else; \<^verbatim>\<open>intmap_after\<close>
  returns the entry of the next greater key, also where it has to go back to a greater subtree; going
  through a map visits all of it. The empty map is such a tree and every operation keeps it one.
\<close>

theorem intmap_is_ordered_map:
  assumes "uintmap_ok m"
  shows "sorted_wrt (<) (map fst (listing m)) \<and> intmap_get m i = map_of (listing m) i \<and>
    (\<exists>m'. intmap_add m i v = Some (intmap_get m i = None, m') \<and> uintmap_ok m' \<and>
      intmap_get m' = (if intmap_get m i = None then (intmap_get m)(i \<mapsto> v) else intmap_get m)) \<and>
    (\<exists>m'. intmap_del m i = (intmap_get m i, m') \<and> uintmap_ok m' \<and> intmap_get m' = (intmap_get m)(i := None)) \<and>
    intmap_after m i = find (\<lambda>e. i < fst e) (listing m) \<and>
    intmap_iterate m handle data 0 = visit handle (listing m) data \<and> uintmap_ok intmap_init"
proof -
  have "\<exists>m'. intmap_add m i v = Some (intmap_get m i = None, m') \<and> uintmap_ok m' \<and>
      intmap_get m' = (if intmap_get m i = None then (intmap_get m)(i \<mapsto> v) else intmap_get m)"
  proof (cases "intmap_get m i = None")
    case True
    then show ?thesis using um.look_added [OF assms True, of v] by simp
  next
    case False
    then have "i \<in> fst ` set (listing m)" using intmap_get_listing [OF assms] by (simp add: map_of_eq_None_iff)
    then show ?thesis using False intmap_add_old [OF assms] assms by (intro exI [of _ m]) auto
  qed
  then show ?thesis
    by (intro conjI listing_sorted [OF assms] intmap_get_listing [OF assms] um.look_deleted [OF assms]
        intmap_after_listing [OF assms] intmap_iterate_listing um.new_ok(1))
qed

definition sample_map :: "string uintmap" where
  "sample_map = Some (Node 5 (Entry 4 ''a'') (Entry 5 ''b''))"

theorem intmap_is_ordered_map_witness:
  "uintmap_ok sample_map \<and> intmap_after sample_map 4 = Some (5, ''b'')"
proof -
  have "critbit 5 = 0" by code_simp
  then have ok: "uintmap_ok sample_map" by (simp add: sample_map_def uintmap_ok_def drop_bit_Suc)
  have "intmap_after sample_map 4 = find (\<lambda>e. 4 < fst e) (listing sample_map)"
    using intmap_is_ordered_map [OF ok, of 4 "''c''" "\<lambda>_ _ s. (True, s)" "()"] by (elim conjE)
  then show ?thesis using ok by (simp add: sample_map_def listing_def)
qed

end
