(* ===== verification/Features.thy ===== *)
theory Features
  imports Prelude
begin

text \<open>
  \<^verbatim>\<open>common/features.c\<close>: the bit vectors in which two nodes tell each other what they offer, with the
  first bit the lowest one of the last byte. \<open>None\<close> is a failed assertion.
\<close>

unbundle bit_operations_syntax

section \<open>Operations\<close>

definition COMPULSORY_FEATURE :: "nat \<Rightarrow> nat" where "COMPULSORY_FEATURE x = x"
definition OPTIONAL_FEATURE :: "nat \<Rightarrow> nat" where "OPTIONAL_FEATURE x = x + 1"

definition LOCAL_DATA_LOSS_PROTECT :: nat where "LOCAL_DATA_LOSS_PROTECT = 0"
definition LOCAL_INITIAL_ROUTING_SYNC :: nat where "LOCAL_INITIAL_ROUTING_SYNC = 2"
definition LOCAL_GOSSIP_QUERIES :: nat where "LOCAL_GOSSIP_QUERIES = 6"

definition our_localfeatures :: "nat list" where
  "our_localfeatures = [LOCAL_DATA_LOSS_PROTECT, LOCAL_INITIAL_ROUTING_SYNC, LOCAL_GOSSIP_QUERIES]"

definition our_globalfeatures :: "nat list" where
  "our_globalfeatures = []"

definition set_bit :: "bytes \<Rightarrow> nat \<Rightarrow> bytes" where
  "set_bit ptr b =
     (let len = length ptr;
          (ptr, len) =
            (if b div 8 \<ge> len
             then let newlen = b div 8 + 1 in (replicate (newlen - len) 0 @ ptr, newlen)
             else (ptr, len));
          i = len - 1 - b div 8
      in ptr[i := ptr ! i OR push_bit (b mod 8) 1])"

definition test_bit :: "bytes \<Rightarrow> nat \<Rightarrow> nat \<Rightarrow> bool option" where
  "test_bit features byte b =
     (if \<not> byte < length features then None
      else Some (features ! (length features - 1 - byte) AND push_bit (b mod 8) 1 \<noteq> 0))"

definition mkfeatures :: "nat list \<Rightarrow> bytes" where
  "mkfeatures arr = fold (\<lambda>f fs. set_bit fs (OPTIONAL_FEATURE f)) arr []"

definition get_offered_globalfeatures :: bytes where
  "get_offered_globalfeatures = mkfeatures our_globalfeatures"

definition get_offered_localfeatures :: bytes where
  "get_offered_localfeatures = mkfeatures our_localfeatures"

definition feature_set :: "bytes \<Rightarrow> nat \<Rightarrow> bool option" where
  "feature_set features b =
     (let bytenum = b div 8
      in if bytenum \<ge> length features then Some False else test_bit features bytenum (b mod 8))"

definition feature_offered :: "bytes \<Rightarrow> nat \<Rightarrow> bool option" where
  "feature_offered features f =
     (if f mod 2 \<noteq> 0 then None
      else do {
        compulsory \<leftarrow> feature_set features f;
        if compulsory then Some True else feature_set features (OPTIONAL_FEATURE f)
      })"

definition feature_supported :: "nat \<Rightarrow> nat list \<Rightarrow> bool" where
  "feature_supported feature_bit supported = list_ex (\<lambda>s. s = feature_bit) supported"

text \<open>The loop over the even bits from \<open>bitnum\<close> on.\<close>

function all_supported_from :: "bytes \<Rightarrow> nat list \<Rightarrow> nat \<Rightarrow> bool option" where
  "all_supported_from bitmap supported bitnum =
     (if bitnum < length bitmap * 8
      then
        case test_bit bitmap (bitnum div 8) (bitnum mod 8) of
          None \<Rightarrow> None
        | Some isset \<Rightarrow>
            if \<not> isset then all_supported_from bitmap supported (bitnum + 2)
            else if feature_supported bitnum supported then all_supported_from bitmap supported (bitnum + 2)
            else Some False
      else Some True)"
  by pat_completeness auto
termination by (relation "measure (\<lambda>(bitmap, _, bitnum). length bitmap * 8 - bitnum)") auto

declare all_supported_from.simps [simp del]

definition all_supported_features :: "bytes \<Rightarrow> nat list \<Rightarrow> bool option" where
  "all_supported_features bitmap supported = all_supported_from bitmap supported 0"

definition features_supported :: "bytes \<Rightarrow> bytes \<Rightarrow> bool option" where
  "features_supported globalfeatures localfeatures =
     do {
       sync \<leftarrow> feature_set localfeatures (COMPULSORY_FEATURE LOCAL_INITIAL_ROUTING_SYNC);
       if sync then Some False
       else do {
         g \<leftarrow> all_supported_features globalfeatures our_globalfeatures;
         if g then all_supported_features localfeatures our_localfeatures else Some False
       }
     }"

section \<open>The bits\<close>

definition has_feature :: "bytes \<Rightarrow> nat \<Rightarrow> bool" where
  "has_feature fs i \<longleftrightarrow> i div 8 < length fs \<and> bit (fs ! (length fs - 1 - i div 8)) (i mod 8)"

lemma byte_bit: "k < 8 \<Longrightarrow> (w :: u8) AND push_bit k 1 \<noteq> 0 \<longleftrightarrow> bit w k"
  by (simp add: and_exp_eq_0_iff_not_bit push_bit_eq_mult)

lemma test_bit_eq: "i div 8 < length fs \<Longrightarrow> test_bit fs (i div 8) (i mod 8) = Some (has_feature fs i)"
  using byte_bit [of "i mod 8" "fs ! (length fs - 1 - i div 8)"] by (simp add: test_bit_def has_feature_def)

lemma feature_set_eq: "feature_set fs i = Some (has_feature fs i)"
  by (simp add: feature_set_def Let_def test_bit_eq has_feature_def)

lemma has_feature_pad: "has_feature (replicate k 0 @ fs) i = has_feature fs i"
  by (auto simp: has_feature_def nth_append)

lemma has_feature_set:
  assumes "b div 8 < length fs"
  shows "has_feature (fs[length fs - 1 - b div 8 := fs ! (length fs - 1 - b div 8) OR push_bit (b mod 8) 1]) i \<longleftrightarrow>
    has_feature fs i \<or> i = b"
proof -
  have p: "bit (push_bit (b mod 8) 1 :: u8) (i mod 8) \<longleftrightarrow> i mod 8 = b mod 8" by (auto simp: bit_exp_iff)
  have e: "i div 8 = b div 8 \<and> i mod 8 = b mod 8 \<longleftrightarrow> i = b" by (metis div_mult_mod_eq)
  show ?thesis
  proof (cases "i div 8 < length fs")
    case True
    then have "length fs - 1 - b div 8 = length fs - 1 - i div 8 \<longleftrightarrow> i div 8 = b div 8" using assms by linarith
    then have "fs[length fs - 1 - b div 8 := fs ! (length fs - 1 - b div 8) OR push_bit (b mod 8) 1] ! (length fs - 1 - i div 8) =
        (if i div 8 = b div 8 then fs ! (length fs - 1 - i div 8) OR push_bit (b mod 8) 1 else fs ! (length fs - 1 - i div 8))"
      using assms by (auto simp: nth_list_update)
    then show ?thesis unfolding has_feature_def e [symmetric] using True p by (simp add: bit_or_iff del: push_bit_of_1)
  next
    case False
    then show ?thesis using assms by (auto simp: has_feature_def)
  qed
qed

lemma set_bit_has: "has_feature (set_bit fs b) i \<longleftrightarrow> has_feature fs i \<or> i = b"
proof (cases "b div 8 \<ge> length fs")
  case True
  then have "b div 8 < length (replicate (b div 8 + 1 - length fs) 0 @ fs)" "length (replicate (b div 8 + 1 - length fs) 0 @ fs) = b div 8 + 1"
    by simp_all
  from has_feature_set [OF this(1), of i] this(2) True show ?thesis
    by (simp add: set_bit_def Let_def has_feature_pad)
next
  case False
  then show ?thesis using has_feature_set [of b fs i] by (simp add: set_bit_def Let_def)
qed

lemma mkfeatures_has: "has_feature (mkfeatures arr) i \<longleftrightarrow> i \<in> OPTIONAL_FEATURE ` set arr"
proof -
  have "has_feature (fold (\<lambda>f fs. set_bit fs (OPTIONAL_FEATURE f)) arr fs) i \<longleftrightarrow> has_feature fs i \<or> i \<in> OPTIONAL_FEATURE ` set arr" for fs
    by (induction arr arbitrary: fs) (auto simp: set_bit_has)
  then show ?thesis by (simp add: mkfeatures_def has_feature_def)
qed

lemma all_supported_eq:
  "all_supported_from bitmap supported k = Some (\<forall>i \<ge> k. even (i - k) \<and> has_feature bitmap i \<longrightarrow> i \<in> set supported)"
proof (induction bitmap supported k rule: all_supported_from.induct)
  case (1 bitmap supported k)
  show ?case
  proof (cases "k < length bitmap * 8")
    case False
    then have "\<not> has_feature bitmap i" if "i \<ge> k" for i
      using that by (auto simp: has_feature_def div_less_iff_less_mult)
    then show ?thesis using False by (subst all_supported_from.simps) simp
  next
    case True
    then have t: "test_bit bitmap (k div 8) (k mod 8) = Some (has_feature bitmap k)"
      by (intro test_bit_eq) (simp add: div_less_iff_less_mult)
    have "(\<forall>i \<ge> k. even (i - k) \<and> has_feature bitmap i \<longrightarrow> i \<in> set supported) \<longleftrightarrow>
      (has_feature bitmap k \<longrightarrow> k \<in> set supported) \<and> (\<forall>i \<ge> k + 2. even (i - (k + 2)) \<and> has_feature bitmap i \<longrightarrow> i \<in> set supported)"
      (is "?l \<longleftrightarrow> ?r")
    proof -
      have "k \<le> i \<and> even (i - k) \<longleftrightarrow> i = k \<or> k + 2 \<le> i \<and> even (i - (k + 2))" for i
      proof (cases "k + 2 \<le> i")
        case True
        then have "i - k = i - (k + 2) + 2" by simp
        then have "even (i - k) \<longleftrightarrow> even (i - (k + 2))" by (simp only: even_add) simp
        then show ?thesis using True by auto
      next
        case False
        then have "k \<le> i \<longleftrightarrow> i = k \<or> i = k + 1" by auto
        then show ?thesis using False by auto
      qed
      then show ?thesis by metis
    qed
    then show ?thesis using 1 [OF True t] True t
      by (subst all_supported_from.simps) (auto simp: feature_supported_def list_ex_iff)
  qed
qed

section \<open>Properties\<close>

text \<open>
  C33: a peer is accepted exactly when every feature it insists on (an even bit) is one we know:
  none of the global ones, and of the local ones only 0 and 6, since a compulsory
  \<^verbatim>\<open>initial_routing_sync\<close> (bit 2) does not exist. The test never fails an assertion, whatever
  lengths the vectors have, and a node accepts what it offers itself, which is optional (odd bits
  1, 3 and 7).
\<close>

theorem features_supported_exact:
  "features_supported globalfeatures localfeatures =
     Some ({i. even i \<and> has_feature globalfeatures i} = {} \<and> {i. even i \<and> has_feature localfeatures i} \<subseteq> {0, 6}) \<and>
   {i. has_feature get_offered_localfeatures i} = {1, 3, 7} \<and> {i. has_feature get_offered_globalfeatures i} = {} \<and>
   features_supported get_offered_globalfeatures get_offered_localfeatures = Some True"
proof -
  have all: "all_supported_features b s = Some ({i. even i \<and> has_feature b i} \<subseteq> set s)" for b s
    by (auto simp: all_supported_features_def all_supported_eq)
  have exact: "features_supported g l = Some ({i. even i \<and> has_feature g i} = {} \<and> {i. even i \<and> has_feature l i} \<subseteq> {0, 6})" for g l
  proof (cases "has_feature l 2")
    case True
    then have "2 \<in> {i. even i \<and> has_feature l i}" by simp
    moreover have "2 \<notin> {0, 6 :: nat}" by simp
    ultimately have "\<not> {i. even i \<and> has_feature l i} \<subseteq> {0, 6}" by (meson subsetD)
    then show ?thesis using True
      by (simp add: features_supported_def feature_set_eq COMPULSORY_FEATURE_def LOCAL_INITIAL_ROUTING_SYNC_def)
  next
    case False
    then have "{i. even i \<and> has_feature l i} \<subseteq> {0, 2, 6} \<longleftrightarrow> {i. even i \<and> has_feature l i} \<subseteq> {0, 6}" by auto
    then show ?thesis using False
      by (simp add: features_supported_def feature_set_eq all our_globalfeatures_def our_localfeatures_def
          COMPULSORY_FEATURE_def LOCAL_DATA_LOSS_PROTECT_def LOCAL_INITIAL_ROUTING_SYNC_def LOCAL_GOSSIP_QUERIES_def)
  qed
  have l: "{i. has_feature get_offered_localfeatures i} = {1, 3, 7}"
    by (auto simp: get_offered_localfeatures_def mkfeatures_has our_localfeatures_def OPTIONAL_FEATURE_def
        LOCAL_DATA_LOSS_PROTECT_def LOCAL_INITIAL_ROUTING_SYNC_def LOCAL_GOSSIP_QUERIES_def)
  have g: "{i. has_feature get_offered_globalfeatures i} = {}"
    by (auto simp: get_offered_globalfeatures_def mkfeatures_has our_globalfeatures_def)
  have "{i. even i \<and> has_feature get_offered_localfeatures i} = {i. even i} \<inter> {1, 3, 7}" by (simp only: Collect_conj_eq l)
  also have "\<dots> \<subseteq> {0, 6}" by auto
  finally have "features_supported get_offered_globalfeatures get_offered_localfeatures = Some True" unfolding exact using g by simp
  then show ?thesis using exact [of globalfeatures localfeatures] l g by (intro conjI)
qed

end
