(* ===== verification/Bech32.thy ===== *)
theory Bech32
  imports Prelude
begin

text \<open>
  \<^verbatim>\<open>common/bech32.c\<close>: the text form of addresses and invoices, with its checksum. A C string is the
  list of its bytes without the terminator; \<^verbatim>\<open>char\<close> is signed. \<open>None\<close> is the return value 0; what
  has been written to the outputs by then is not looked at.
\<close>

unbundle bit_operations_syntax

section \<open>Operations\<close>

definition bech32_polymod_step :: "u32 \<Rightarrow> u32" where
  "bech32_polymod_step pre =
     (let b = (ucast (drop_bit 25 pre) :: u8);
          k = (\<lambda>i. ucast (drop_bit i b AND 1) :: u32)
      in push_bit 5 (pre AND 0x1FFFFFF) XOR
         (- k 0 AND 0x3b6a57b2) XOR
         (- k 1 AND 0x26508e6d) XOR
         (- k 2 AND 0x1ea119fa) XOR
         (- k 3 AND 0x3d4233dd) XOR
         (- k 4 AND 0x2a1462b3))"

definition bech32_charset :: bytes where
  "bech32_charset = map of_char ''qpzry9x8gf2tvdw0s3jn54khce6mua7l''"

definition bech32_charset_rev :: "int list" where
  "bech32_charset_rev =
     replicate 48 (- 1) @
     [15, -1, 10, 17, 21, 20, 26, 30,  7,  5, -1, -1, -1, -1, -1, -1,
      -1, 29, -1, 24, 13, 25,  9,  8, 23, -1, 18, 22, 31, 27, 19, -1,
       1,  0,  3, 16, 11, 28, 12, 14,  6,  4,  2, -1, -1, -1, -1, -1,
      -1, 29, -1, 24, 13, 25,  9,  8, 23, -1, 18, 22, 31, 27, 19, -1,
       1,  0,  3, 16, 11, 28, 12, 14,  6,  4,  2, -1, -1, -1, -1, -1]"

text \<open>The first loop over the human-readable part: the checksum of the upper bits, or 0 is returned.\<close>

primrec encode_hrp_high :: "u32 \<Rightarrow> bytes \<Rightarrow> u32 option" where
  "encode_hrp_high chk [] = Some chk"
| "encode_hrp_high chk (c # hrp) =
     (let ch = sint c
      in if ch < 33 \<or> ch > 126 then None
         else if ch \<ge> 65 \<and> ch \<le> 90 then None
         else encode_hrp_high (bech32_polymod_step chk XOR ucast (drop_bit 5 c)) hrp)"

text \<open>The lower bits, in encoder and decoder.\<close>

definition hrp_low :: "u32 \<Rightarrow> bytes \<Rightarrow> u32" where
  "hrp_low chk hrp = fold (\<lambda>c chk. bech32_polymod_step chk XOR ucast (c AND 0x1f)) hrp chk"

primrec encode_data :: "u32 \<Rightarrow> bytes \<Rightarrow> (u32 \<times> bytes) option" where
  "encode_data chk [] = Some (chk, [])"
| "encode_data chk (d # data) =
     (if drop_bit 5 d \<noteq> 0 then None
      else do {
        (chk, out) \<leftarrow> encode_data (bech32_polymod_step chk XOR ucast d) data;
        Some (chk, bech32_charset ! unat d # out)
      })"

definition bech32_encode :: "bytes \<Rightarrow> bytes \<Rightarrow> nat \<Rightarrow> bytes option" where
  "bech32_encode hrp data max_input_len =
     do {
       chk \<leftarrow> encode_hrp_high 1 hrp;
       if length hrp + 7 + length data > max_input_len then None
       else do {
         let chk = hrp_low (bech32_polymod_step chk) hrp;
         (chk, out) \<leftarrow> encode_data chk data;
         let chk = (bech32_polymod_step ^^ 6) chk;
         let chk = chk XOR 1;
         Some (hrp @ [49] @ out @ map (\<lambda>i. bech32_charset ! unat (drop_bit ((5 - i) * 5) chk AND 0x1f)) [0..<6])
       }
     }"

text \<open>The state of the decoder's loops: the checksum and which letters have been seen.\<close>

record decoding =
  de_chk :: u32
  de_lower :: bool
  de_upper :: bool

text \<open>\<^verbatim>\<open>tolower\<close> of the loop: the character that is stored and entered into the checksum.\<close>

definition lower_char :: "u8 \<Rightarrow> u8" where
  "lower_char c = (if sint c \<ge> 65 \<and> sint c \<le> 90 then (c - 65) + 97 else c)"

primrec decode_hrp :: "decoding \<Rightarrow> bytes \<Rightarrow> (decoding \<times> bytes) option" where
  "decode_hrp st [] = Some (st, [])"
| "decode_hrp st (c # input) =
     (let ch = sint c
      in if ch < 33 \<or> ch > 126 then None
         else
           let st = (if ch \<ge> 97 \<and> ch \<le> 122 then st\<lparr>de_lower := True\<rparr>
                     else if ch \<ge> 65 \<and> ch \<le> 90 then st\<lparr>de_upper := True\<rparr> else st);
               st = st\<lparr>de_chk := bech32_polymod_step (de_chk st) XOR ucast (drop_bit 5 (lower_char c))\<rparr>
           in do {
             (st, hrp) \<leftarrow> decode_hrp st input;
             Some (st, lower_char c # hrp)
           })"

definition charset_value :: "u8 \<Rightarrow> int" where
  "charset_value c = (if c AND 0x80 \<noteq> 0 then - 1 else bech32_charset_rev ! unat c)"

primrec decode_data :: "decoding \<Rightarrow> bytes \<Rightarrow> (decoding \<times> bytes) option" where
  "decode_data st [] = Some (st, [])"
| "decode_data st (c # input) =
     (let v = charset_value c;
          st = (if sint c \<ge> 97 \<and> sint c \<le> 122 then st\<lparr>de_lower := True\<rparr> else st);
          st = (if sint c \<ge> 65 \<and> sint c \<le> 90 then st\<lparr>de_upper := True\<rparr> else st)
      in if v = - 1 then None
         else do {
           (st, data) \<leftarrow> decode_data (st\<lparr>de_chk := bech32_polymod_step (de_chk st) XOR word_of_int v\<rparr>) input;
           Some (st, word_of_int v # data)
         })"

definition bech32_decode :: "bytes \<Rightarrow> nat \<Rightarrow> (bytes \<times> bytes) option" where
  "bech32_decode input max_input_len =
     (let input_len = length input
      in if input_len < 8 \<or> input_len > max_input_len then None
         else
           let data_len = length (takeWhile (\<lambda>c. c \<noteq> 49) (rev input))
           in if 1 + data_len \<ge> input_len \<or> data_len < 6 then None
              else
                let hrp_len = input_len - (1 + data_len); data_len = data_len - 6
                in do {
                  (st, hrp) \<leftarrow> decode_hrp \<lparr>de_chk = 1, de_lower = False, de_upper = False\<rparr> (take hrp_len input);
                  let st = st\<lparr>de_chk := hrp_low (bech32_polymod_step (de_chk st)) (take hrp_len input)\<rparr>;
                  (st, data) \<leftarrow> decode_data st (drop (hrp_len + 1) input);
                  if de_lower st \<and> de_upper st then None
                  else if de_chk st = 1 then Some (hrp, take data_len data) else None
                })"

text \<open>The inner loop of \<^verbatim>\<open>bech32_convert_bits\<close>; no output has fewer than one bit.\<close>

function emit_groups :: "nat \<Rightarrow> u32 \<Rightarrow> nat \<Rightarrow> nat \<times> bytes" where
  "emit_groups outbits val bits =
     (if bits \<ge> outbits \<and> 0 < outbits
      then let bits = bits - outbits; (rest, out) = emit_groups outbits val bits
           in (rest, ucast (drop_bit bits val AND (push_bit outbits 1 - 1)) # out)
      else (bits, []))"
  by pat_completeness auto
termination by (relation "measure (\<lambda>(_, _, bits). bits)") auto

declare emit_groups.simps [simp del]

primrec convert_loop :: "nat \<Rightarrow> nat \<Rightarrow> u32 \<Rightarrow> nat \<Rightarrow> bytes \<Rightarrow> u32 \<times> nat \<times> bytes" where
  "convert_loop outbits inbits val bits [] = (val, bits, [])"
| "convert_loop outbits inbits val bits (b # inp) =
     (let val = push_bit inbits val OR ucast b;
          bits = bits + inbits;
          (bits, out) = emit_groups outbits val bits;
          (val, bits, out') = convert_loop outbits inbits val bits inp
      in (val, bits, out @ out'))"

definition bech32_convert_bits :: "nat \<Rightarrow> bytes \<Rightarrow> nat \<Rightarrow> bool \<Rightarrow> bytes option" where
  "bech32_convert_bits outbits inp inbits pad =
     (let maxv = push_bit outbits 1 - 1 :: u32;
          (val, bits, out) = convert_loop outbits inbits 0 0 inp
      in if pad
         then Some (if bits \<noteq> 0 then out @ [ucast (push_bit (outbits - bits) val AND maxv)] else out)
         else if push_bit (outbits - bits) val AND maxv \<noteq> 0 \<or> bits \<ge> inbits then None
         else Some out)"

definition segwit_addr_encode :: "bytes \<Rightarrow> int \<Rightarrow> bytes \<Rightarrow> bytes option" where
  "segwit_addr_encode hrp witver witprog =
     (let witprog_len = length witprog
      in if witver > 16 then None
         else if witver = 0 \<and> witprog_len \<noteq> 20 \<and> witprog_len \<noteq> 32 then None
         else if witprog_len < 2 \<or> witprog_len > 40 then None
         else do {
           out \<leftarrow> bech32_convert_bits 5 witprog 8 True;
           bech32_encode hrp (word_of_int witver # out) 90
         })"

definition segwit_addr_decode :: "bytes \<Rightarrow> bytes \<Rightarrow> (int \<times> bytes) option" where
  "segwit_addr_decode hrp addr =
     do {
       (hrp_actual, data) \<leftarrow> bech32_decode addr 90;
       if length data = 0 \<or> length data > 65 then None
       else if hrp \<noteq> hrp_actual then None
       else if data ! 0 > 16 then None
       else do {
         witdata \<leftarrow> bech32_convert_bits 8 (tl data) 5 False;
         if length witdata < 2 \<or> length witdata > 40 then None
         else if data ! 0 = 0 \<and> length witdata \<noteq> 20 \<and> length witdata \<noteq> 32 then None
         else Some (uint (data ! 0), witdata)
       }
     }"

section \<open>The checksum is linear\<close>

definition sel :: "u32 \<Rightarrow> nat \<Rightarrow> u32 \<Rightarrow> u32" where
  "sel x n c = (if bit x n then c else 0)"

lemma step_eq:
  "bech32_polymod_step x = push_bit 5 (x AND 0x1FFFFFF) XOR sel x 25 0x3b6a57b2 XOR sel x 26 0x26508e6d XOR
     sel x 27 0x1ea119fa XOR sel x 28 0x3d4233dd XOR sel x 29 0x2a1462b3"
proof -
  have k: "- (ucast (drop_bit i (ucast (drop_bit 25 x) :: u8) AND 1) :: u32) AND c = sel x (25 + i) c" if "i < 8" for i c
  proof -
    have "drop_bit i (ucast (drop_bit 25 x) :: u8) AND 1 = of_bool (bit x (25 + i))"
    proof (rule bit_word_eqI)
      fix n
      show "bit (drop_bit i (ucast (drop_bit 25 x) :: u8) AND 1) n = bit (of_bool (bit x (25 + i)) :: u8) n"
        using that by (cases n) (auto simp: bit_and_iff bit_1_iff bit_drop_bit_eq bit_ucast_iff)
    qed
    then show ?thesis by (simp add: sel_def)
  qed
  show ?thesis unfolding bech32_polymod_step_def Let_def using k [of 0] k [of 1] k [of 2] k [of 3] k [of 4] by simp
qed

lemma sel_xor: "sel (a XOR b) n c = sel a n c XOR sel b n c"
  by (simp add: sel_def bit_xor_iff)

lemma step_xor: "bech32_polymod_step (a XOR b) = bech32_polymod_step a XOR bech32_polymod_step b"
proof -
  have "push_bit 5 ((a XOR b) AND m) = push_bit 5 (a AND m) XOR push_bit 5 (b AND m)" for m
    by (rule bit_word_eqI) (auto simp: bit_push_bit_iff bit_xor_iff bit_and_iff)
  then show ?thesis unfolding step_eq sel_xor by (simp only: xor.assoc xor.commute xor.left_commute)
qed

lemma mask25: "0x1FFFFFF = (mask 25 :: u32)"
  by (simp add: mask_eq_exp_minus_1)

lemma sel_take: "take_bit n c = c \<Longrightarrow> take_bit n (sel x k c) = sel x k c"
  by (simp add: sel_def)

text \<open>A checksum has 30 bits.\<close>

lemma step_30: "take_bit 30 (bech32_polymod_step x) = bech32_polymod_step x"
proof -
  have "take_bit 30 (push_bit 5 (x AND mask 25)) = push_bit 5 (x AND mask 25)"
    by (rule bit_word_eqI) (auto simp: bit_take_bit_iff bit_push_bit_iff bit_and_iff bit_mask_iff)
  then show ?thesis unfolding step_eq mask25 by (simp add: take_bit_xor sel_take)
qed

lemma step_small: "take_bit 25 x = x \<Longrightarrow> bech32_polymod_step x = push_bit 5 x"
proof -
  assume x: "take_bit 25 x = x"
  then have "\<not> bit x k" if "25 \<le> k" for k using that by (metis bit_take_bit_iff not_less)
  moreover have "x AND mask 25 = x" using x by (simp add: take_bit_eq_mask)
  ultimately show ?thesis by (simp add: step_eq sel_def mask25)
qed

lemma step_0: "bech32_polymod_step 0 = 0"
  by (simp add: step_small)

text \<open>No two checksums have the same successor.\<close>

lemma step_kernel:
  assumes x: "take_bit 30 x = x" and s: "bech32_polymod_step x = 0"
  shows "x = 0"
proof -
  have b: "\<not> bit (bech32_polymod_step x) j" for j using s by simp
  have c: "bit (sel x k c) j \<longleftrightarrow> bit x k \<and> bit c j" for k c j by (simp add: sel_def)
  have p: "\<not> bit (push_bit 5 y) j" if "j < 5" for j and y :: u32 using that by (simp add: bit_push_bit_iff)
  have h: "\<not> bit x 25 \<and> \<not> bit x 26 \<and> \<not> bit x 27 \<and> \<not> bit x 28 \<and> \<not> bit x 29"
    using b [of 0] b [of 1] b [of 2] b [of 3] b [of 4] p [of 0] p [of 1] p [of 2] p [of 3] p [of 4]
    unfolding step_eq bit_xor_iff c by (simp del: push_bit_and) blast
  then have "push_bit 5 (x AND mask 25) = 0" using s by (simp add: step_eq sel_def mask25)
  then have l: "\<not> bit x j" if "j < 25" for j
    using that bit_push_bit_iff [of 5 "x AND mask 25" "j + 5"] by (simp add: bit_and_iff bit_mask_iff)
  show ?thesis
  proof (rule bit_word_eqI)
    fix j assume "j < LENGTH(32)"
    then consider "j < 25" | "j = 25" | "j = 26" | "j = 27" | "j = 28" | "j = 29" | "30 \<le> j" by fastforce
    then show "bit x j = bit 0 j" using h l x by cases (auto, metis bit_take_bit_iff not_less)
  qed
qed

section \<open>Symbols\<close>

text \<open>Entering one symbol, and a list of symbols.\<close>

definition feed :: "u32 \<Rightarrow> u32 \<Rightarrow> u32" where
  "feed v chk = bech32_polymod_step chk XOR v"

abbreviation feeds :: "u32 list \<Rightarrow> u32 \<Rightarrow> u32" where
  "feeds vs chk \<equiv> fold feed vs chk"

lemma steps_xor: "(bech32_polymod_step ^^ n) (a XOR b) = (bech32_polymod_step ^^ n) a XOR (bech32_polymod_step ^^ n) b"
  by (induction n) (simp_all add: step_xor)

lemma feeds_linear: "feeds vs (a XOR b) = (bech32_polymod_step ^^ length vs) a XOR feeds vs b"
proof (induction vs arbitrary: a b)
  case (Cons v vs)
  have "feed v (a XOR b) = bech32_polymod_step a XOR feed v b" by (simp add: feed_def step_xor xor.assoc)
  then show ?case using Cons [of "bech32_polymod_step a" "feed v b"] by (simp add: funpow_swap1)
qed simp

lemma feeds_from: "feeds vs chk = (bech32_polymod_step ^^ length vs) chk XOR feeds vs 0"
  using feeds_linear [of vs chk 0] by simp

lemma steps_nonzero: "take_bit 30 x = x \<Longrightarrow> x \<noteq> 0 \<Longrightarrow> (bech32_polymod_step ^^ n) x \<noteq> 0"
proof (induction n)
  case (Suc n)
  have "take_bit 30 ((bech32_polymod_step ^^ n) x) = (bech32_polymod_step ^^ n) x"
    using Suc.prems(1) step_30 by (cases n) simp_all
  then show ?case using step_kernel Suc by auto
qed simp

text \<open>The six symbols of a checksum, entered into an empty one, give it back.\<close>

lemma no_high_bit: "take_bit k v = v \<Longrightarrow> k \<le> j \<Longrightarrow> \<not> bit (v :: u32) j"
  by (metis bit_take_bit_iff not_less)

lemma next_group:
  assumes "take_bit 30 v = v"
  shows "feed (drop_bit n v AND 0x1f) (drop_bit (n + 5) v) = drop_bit n v"
proof -
  have m: "0x1f = (mask 5 :: u32)" by (simp add: mask_eq_exp_minus_1)
  have "take_bit 25 (drop_bit (n + 5) v) = drop_bit (n + 5) v"
  proof (rule bit_word_eqI)
    fix j
    show "bit (take_bit 25 (drop_bit (n + 5) v)) j = bit (drop_bit (n + 5) v) j"
      using no_high_bit [OF assms, of "n + 5 + j"] by (cases "j < 25") (auto simp: bit_take_bit_iff bit_drop_bit_eq)
  qed
  then have "feed (drop_bit n v AND 0x1f) (drop_bit (n + 5) v) = push_bit 5 (drop_bit (n + 5) v) XOR (drop_bit n v AND mask 5)"
    unfolding feed_def m by (simp only: step_small)
  also have "\<dots> = drop_bit n v"
    by (rule bit_word_eqI) (auto simp: bit_xor_iff bit_push_bit_iff bit_drop_bit_eq bit_and_iff bit_mask_iff ac_simps)
  finally show ?thesis .
qed

definition groups :: "u32 \<Rightarrow> u32 list" where
  "groups v = map (\<lambda>i. drop_bit ((5 - i) * 5) v AND 0x1f) [0..<6]"

lemma feeds_groups:
  assumes v: "take_bit 30 v = v"
  shows "feeds (groups v) 0 = v"
proof -
  have u: "[0..<6] = [0, 1, 2, 3, 4, 5 :: nat]" by (simp add: upt_rec)
  have z: "0 = drop_bit (25 + 5) v"
    by (rule bit_word_eqI) (use no_high_bit [OF v] in \<open>simp add: bit_drop_bit_eq\<close>)
  show ?thesis
    unfolding groups_def u
    using next_group [OF v, of 25] next_group [OF v, of 20] next_group [OF v, of 15] next_group [OF v, of 10]
      next_group [OF v, of 5] next_group [OF v, of 0] z by simp
qed

text \<open>With them a checksum comes out as one.\<close>

lemma checksum_one:
  assumes "v = (bech32_polymod_step ^^ 6) chk XOR 1"
  shows "feeds (groups v) chk = 1" "take_bit 30 v = v"
proof -
  have "(bech32_polymod_step ^^ 6) chk = bech32_polymod_step ((bech32_polymod_step ^^ 5) chk)" by (simp add: numeral_eq_Suc)
  then show t: "take_bit 30 v = v" unfolding assms by (simp add: take_bit_xor step_30)
  have "length (groups v) = 6" by (simp add: groups_def)
  then have "feeds (groups v) chk = (bech32_polymod_step ^^ 6) chk XOR v" using feeds_from [of "groups v" chk] feeds_groups [OF t] by simp
  then show "feeds (groups v) chk = 1" unfolding assms by (simp add: xor.assoc [symmetric])
qed

lemma groups_less: "w \<in> set (groups v) \<Longrightarrow> unat w < 32"
proof -
  have m: "0x1f = (mask 5 :: u32)" by (simp add: mask_eq_exp_minus_1)
  have "unat (x AND 0x1f) < 32" for x :: u32
    unfolding m take_bit_eq_mask [symmetric] by (simp add: unsigned_take_bit_eq take_bit_nat_less_exp [of 5, simplified])
  then show "w \<in> set (groups v) \<Longrightarrow> unat w < 32" by (auto simp: groups_def)
qed

section \<open>Characters\<close>

text \<open>The two tables are inverse, and the letters are lower-case ones.\<close>

lemma charset_table:
  "list_all (\<lambda>d. let c = bech32_charset ! d in charset_value c = int d \<and> c \<noteq> 49 \<and> \<not> (sint c \<ge> 65 \<and> sint c \<le> 90)) [0..<32]"
  by code_simp

lemma charset_char:
  assumes "d < 32"
  shows "charset_value (bech32_charset ! d) = int d" "bech32_charset ! d \<noteq> 49"
    "\<not> (sint (bech32_charset ! d) \<ge> 65 \<and> sint (bech32_charset ! d) \<le> 90)"
  using charset_table assms by (auto simp: list_all_iff Let_def)

lemma drop_bit_5: "drop_bit 5 d = 0 \<longleftrightarrow> unat (d :: u8) < 32"
proof -
  have "unat (drop_bit 5 d) = unat d div 32"
    using unsigned_less [of d, where 'a = nat]
    by (simp only: unsigned_drop_bit_eq) (simp add: drop_bit_eq_div take_bit_nat_eq_self)
  then show ?thesis by (metis div_eq_0_iff unat_0 unat_eq_0 zero_neq_numeral)
qed

abbreviation symbols :: "bytes \<Rightarrow> bytes" where
  "symbols data \<equiv> map (\<lambda>d. bech32_charset ! unat d) data"

abbreviation words5 :: "bytes \<Rightarrow> u32 list" where
  "words5 data \<equiv> map ucast data"

lemma encode_data_spec:
  "encode_data chk data = Some (chk', out) \<longleftrightarrow>
     (\<forall>d \<in> set data. unat d < 32) \<and> out = symbols data \<and> chk' = feeds (words5 data) chk"
  by (induction data arbitrary: chk out) (auto simp: drop_bit_5 feed_def bind_eq_Some_conv)

lemma decode_data_spec:
  "decode_data st cs = Some (st', ds) \<Longrightarrow>
     list_all (\<lambda>c. charset_value c \<noteq> - 1) cs \<and> ds = map (\<lambda>c. word_of_int (charset_value c)) cs \<and>
     de_chk st' = feeds (map (\<lambda>c. word_of_int (charset_value c)) cs) (de_chk st)"
proof (induction cs arbitrary: st ds)
  case (Cons c cs)
  then obtain st1 ds1 where "decode_data st1 cs = Some (st', ds1)" "charset_value c \<noteq> - 1" "ds = word_of_int (charset_value c) # ds1"
    "de_chk st1 = feed (word_of_int (charset_value c)) (de_chk st)"
    by (auto simp: Let_def feed_def bind_eq_Some_conv split: if_splits)
  with Cons.IH show ?case by auto
qed simp

lemma upper_lower: "de_upper (if P then st\<lparr>de_lower := True\<rparr> else st) = de_upper st"
  by simp

lemma decode_symbols:
  "\<forall>d \<in> set ds. unat d < 32 \<Longrightarrow> \<exists>st'. decode_data st (symbols ds) = Some (st', ds) \<and>
    de_chk st' = feeds (words5 ds) (de_chk st) \<and> de_upper st' = de_upper st"
proof (induction ds arbitrary: st)
  case (Cons d ds)
  let ?c = "bech32_charset ! unat d"
  have d: "unat d < 32" using Cons.prems by simp
  have v: "charset_value ?c = uint d" using charset_char(1) [OF d] by simp
  have u: "\<not> (sint ?c \<ge> 65 \<and> sint ?c \<le> 90)" by (rule charset_char(3) [OF d])
  have n: "uint d \<noteq> - 1" using uint_ge_0 [of d] by linarith
  have w: "(word_of_int (uint d) :: u32) = ucast d" by simp
  define st1 where "st1 = (if sint ?c \<ge> 97 \<and> sint ?c \<le> 122 then st\<lparr>de_lower := True\<rparr> else st)"
  have k: "de_chk st1 = de_chk st" "de_upper st1 = de_upper st" by (simp_all add: st1_def)
  let ?st = "st1\<lparr>de_chk := feed (ucast d) (de_chk st)\<rparr>"
  have "decode_data st (?c # symbols ds) = decode_data ?st (symbols ds) \<bind> (\<lambda>(st, data). Some (st, d # data))"
    unfolding decode_data.simps Let_def st1_def [symmetric] if_not_P [OF u] v w k feed_def
    by (simp only: if_not_P [OF n] word_of_int_uint)
  moreover obtain st' where
    "decode_data ?st (symbols ds) = Some (st', ds)" "de_chk st' = feeds (words5 ds) (feed (ucast d) (de_chk st))" "de_upper st' = de_upper st"
    using Cons.IH [of ?st] Cons.prems k by auto
  ultimately show ?case by simp
qed simp

lemma hrp_high_spec:
  "encode_hrp_high chk hrp = Some chk' \<Longrightarrow> de_chk st = chk \<Longrightarrow>
     \<exists>st'. decode_hrp st hrp = Some (st', hrp) \<and> de_chk st' = chk' \<and> de_upper st' = de_upper st"
proof (induction hrp arbitrary: chk st)
  case (Cons c hrp)
  then have c: "\<not> (sint c < 33 \<or> sint c > 126)" "\<not> (sint c \<ge> 65 \<and> sint c \<le> 90)"
    and h: "encode_hrp_high (bech32_polymod_step chk XOR ucast (drop_bit 5 c)) hrp = Some chk'"
    by (auto simp: Let_def split: if_splits)
  have l: "lower_char c = c" using c(2) by (simp add: lower_char_def)
  let ?st = "(if sint c \<ge> 97 \<and> sint c \<le> 122 then st\<lparr>de_lower := True\<rparr> else st)\<lparr>de_chk := bech32_polymod_step chk XOR ucast (drop_bit 5 c)\<rparr>"
  from Cons.IH [OF h, of ?st] obtain st' where
    "decode_hrp ?st hrp = Some (st', hrp)" "de_chk st' = chk'" "de_upper st' = de_upper st" by (auto simp: upper_lower simp del: if_split)
  then show ?case using c l Cons.prems(2) by (auto simp: Let_def)
qed simp

section \<open>Encoding and decoding\<close>

lemma words5_groups: "words5 (map ucast (groups v)) = groups v"
proof -
  have "(ucast (ucast w :: u8) :: u32) = w" if "unat w < 32" for w :: u32
    unfolding word_unat_eq_iff by (use that in \<open>simp add: unsigned_ucast_eq unsigned_take_bit_eq take_bit_nat_eq_self\<close>)
  then show ?thesis using groups_less by (simp add: map_idI)
qed

lemma bytes_groups: "d \<in> set (map ucast (groups v) :: bytes) \<Longrightarrow> unat d < 32"
proof -
  have "unat (ucast w :: u8) < 32" if "unat w < 32" for w :: u32
    using that by (simp add: unsigned_ucast_eq take_bit_nat_eq_self)
  then show "d \<in> set (map ucast (groups v) :: bytes) \<Longrightarrow> unat d < 32" using groups_less by auto
qed

lemma symbols_groups: "map (\<lambda>i. bech32_charset ! unat (drop_bit ((5 - i) * 5) v AND 0x1f)) [0..<6] = symbols (map ucast (groups v))"
proof -
  have "unat (ucast w :: u8) = unat w" if "unat w < 32" for w :: u32
    using that by (simp add: unsigned_ucast_eq take_bit_nat_eq_self)
  then have "symbols (map ucast (groups v)) = map (\<lambda>w. bech32_charset ! unat w) (groups v)" using groups_less by simp
  then show ?thesis by (simp add: groups_def)
qed

text \<open>What the encoder writes: the part, the separator, and symbols whose checksum is one.\<close>

lemma bech32_encode_spec:
  assumes "bech32_encode hrp data m = Some out"
  shows "\<exists>chk ck. encode_hrp_high 1 hrp = Some chk \<and> length hrp + 7 + length data \<le> m \<and> length ck = 6 \<and>
    (\<forall>d \<in> set (data @ ck). unat d < 32) \<and> out = hrp @ 49 # symbols (data @ ck) \<and>
    feeds (words5 (data @ ck)) (hrp_low (bech32_polymod_step chk) hrp) = 1"
proof -
  obtain chk where h: "encode_hrp_high 1 hrp = Some chk" "length hrp + 7 + length data \<le> m"
    using assms unfolding bech32_encode_def by (auto simp: bind_eq_Some_conv split: if_splits)
  define c0 where "c0 = hrp_low (bech32_polymod_step chk) hrp"
  from assms h obtain c1 w where e: "encode_data c0 data = Some (c1, w)"
    and o: "out = hrp @ [49] @ w @ map (\<lambda>i. bech32_charset ! unat (drop_bit ((5 - i) * 5) ((bech32_polymod_step ^^ 6) c1 XOR 1) AND 0x1f)) [0..<6]"
    unfolding bech32_encode_def c0_def by (auto simp: bind_eq_Some_conv Let_def)
  define v where "v = (bech32_polymod_step ^^ 6) c1 XOR 1"
  define ck where "ck = (map ucast (groups v) :: bytes)"
  from e have d: "\<forall>d \<in> set data. unat d < 32" "w = symbols data" "c1 = feeds (words5 data) c0"
    by (simp_all add: encode_data_spec)
  have "out = hrp @ 49 # symbols (data @ ck)"
    unfolding o v_def [symmetric] symbols_groups ck_def d(2) by simp
  moreover have "feeds (words5 (data @ ck)) c0 = 1"
    using checksum_one(1) [OF v_def] d(3) words5_groups [of v] unfolding ck_def by (simp only: map_append fold_append comp_apply)
  moreover have "length ck = 6" "\<forall>d \<in> set (data @ ck). unat d < 32"
    using d(1) bytes_groups unfolding ck_def by (auto simp: groups_def)
  ultimately show ?thesis using h unfolding c0_def by blast
qed

text \<open>The decoder on an input split at its last separator.\<close>

definition decode_parts :: "bytes \<Rightarrow> bytes \<Rightarrow> (bytes \<times> bytes) option" where
  "decode_parts h cs = do {
     (st, hrp) \<leftarrow> decode_hrp \<lparr>de_chk = 1, de_lower = False, de_upper = False\<rparr> h;
     (st, data) \<leftarrow> decode_data (st\<lparr>de_chk := hrp_low (bech32_polymod_step (de_chk st)) h\<rparr>) cs;
     if de_lower st \<and> de_upper st then None
     else if de_chk st = 1 then Some (hrp, take (length cs - 6) data) else None
   }"

lemma data_length: "49 \<notin> set cs \<Longrightarrow> length (takeWhile (\<lambda>c. c \<noteq> 49) (rev (h @ 49 # cs))) = length cs"
  by (subst rev_append) (simp add: takeWhile_append)

lemma decode_split:
  "49 \<notin> set cs \<Longrightarrow> bech32_decode (h @ 49 # cs) m =
     (if h = [] \<or> length cs < 6 \<or> length h + 1 + length cs > m then None else decode_parts h cs)"
proof -
  assume c: "49 \<notin> set cs"
  have l: "length (h @ 49 # cs) - (1 + length cs) = length h" by simp
  show ?thesis
  proof (cases "h = [] \<or> length cs < 6 \<or> length h + 1 + length cs > m")
    case True
    then show ?thesis unfolding bech32_decode_def Let_def data_length [OF c] by auto
  next
    case False
    then have "\<not> (length (h @ 49 # cs) < 8 \<or> length (h @ 49 # cs) > m)" "\<not> (1 + length cs \<ge> length (h @ 49 # cs) \<or> length cs < 6)"
      by (cases h; auto)+
    then show ?thesis using False unfolding bech32_decode_def Let_def data_length [OF c] l decode_parts_def
      by (simp only: if_False simp_thms) (simp add: Let_def)
  qed
qed

lemma decode_splits:
  assumes "bech32_decode s m = Some r"
  obtains h cs where "s = h @ 49 # cs" "49 \<notin> set cs"
proof (cases "49 \<in> set s")
  case True
  then show ?thesis using that split_list_last by metis
next
  case False
  then have "takeWhile (\<lambda>c. c \<noteq> 49) (rev s) = rev s" by (auto simp: takeWhile_eq_all_conv)
  then have "length (takeWhile (\<lambda>c. c \<noteq> 49) (rev s)) = length s" by (simp only: length_rev)
  then have "bech32_decode s m = None" unfolding bech32_decode_def Let_def by (simp only: le_add2 simp_thms if_True if_cancel)
  then show ?thesis using assms by simp
qed

lemma bech32_decode_encode:
  assumes e: "bech32_encode hrp data m = Some out" and h: "hrp \<noteq> []"
  shows "bech32_decode out m = Some (hrp, data)"
proof -
  obtain chk ck where c: "encode_hrp_high 1 hrp = Some chk" "length hrp + 7 + length data \<le> m" "length ck = 6"
    and s: "\<forall>d \<in> set (data @ ck). unat d < 32" and o: "out = hrp @ 49 # symbols (data @ ck)"
    and f: "feeds (words5 (data @ ck)) (hrp_low (bech32_polymod_step chk) hrp) = 1"
    using bech32_encode_spec [OF e] by blast
  have "49 \<notin> set (symbols (data @ ck))" using s charset_char(2) by (metis (no_types, lifting) image_iff list.set_map)
  then have "bech32_decode out m = decode_parts hrp (symbols (data @ ck))"
    unfolding o using decode_split h c(2,3) by simp
  moreover obtain st where st: "decode_hrp \<lparr>de_chk = 1, de_lower = False, de_upper = False\<rparr> hrp = Some (st, hrp)"
    "de_chk st = chk" "\<not> de_upper st"
    using hrp_high_spec [OF c(1), of "\<lparr>de_chk = 1, de_lower = False, de_upper = False\<rparr>"] by auto
  moreover obtain st' where "decode_data (st\<lparr>de_chk := hrp_low (bech32_polymod_step (de_chk st)) hrp\<rparr>) (symbols (data @ ck)) = Some (st', data @ ck)"
    "de_chk st' = 1" "\<not> de_upper st'"
    using decode_symbols [OF s, of "st\<lparr>de_chk := hrp_low (bech32_polymod_step (de_chk st)) hrp\<rparr>"] f st(2,3) by auto
  ultimately show ?thesis using c(3) by (simp add: decode_parts_def)
qed

section \<open>A wrong character\<close>

abbreviation char_words :: "bytes \<Rightarrow> u32 list" where
  "char_words cs \<equiv> map (\<lambda>c. word_of_int (charset_value c)) cs"

lemma xor_zero: "(a :: u32) XOR b = 0 \<Longrightarrow> a = b"
  by (metis xor.assoc xor.left_neutral xor.right_neutral xor_self_eq)

lemma xor_same: "(a :: u32) XOR b = b \<Longrightarrow> a = 0"
  by (metis xor.assoc xor.right_neutral xor_self_eq)

lemma feeds_update:
  assumes "j < length vs"
  shows "feeds (vs[j := w]) x = (bech32_polymod_step ^^ (length vs - Suc j)) (w XOR vs ! j) XOR feeds vs x"
proof -
  let ?y = "feeds (take j vs) x"
  have f: "feed w ?y = (w XOR vs ! j) XOR feed (vs ! j) ?y"
    by (simp only: feed_def, rule bit_word_eqI) (auto simp: bit_xor_iff)
  have "feeds vs x = feeds (drop (Suc j) vs) (feed (vs ! j) ?y)"
    using assms by (subst id_take_nth_drop [OF assms]) simp
  moreover have "feeds (vs[j := w]) x = feeds (drop (Suc j) vs) (feed w ?y)"
    using assms by (simp add: upd_conv_take_nth_drop)
  ultimately show ?thesis unfolding f using feeds_linear [of "drop (Suc j) vs"] by simp
qed

lemma rev_table: "list_all (\<lambda>v. - 1 \<le> v \<and> v < 32) bech32_charset_rev \<and> length bech32_charset_rev = 128"
  by code_simp

lemma charset_value_range: "- 1 \<le> charset_value c \<and> charset_value c < 32"
proof (cases "c AND 0x80 = 0")
  case True
  have "unat c < 128"
  proof (rule ccontr)
    assume "\<not> unat c < 128"
    then have "drop_bit 7 (unat c) = 1" using unsigned_less [of c, where 'a = nat] by (simp add: drop_bit_eq_div)
    then have "bit (unat c) 7" by (simp add: bit_iff_odd_drop_bit)
    then have "bit c 7" by (simp add: bit_unsigned_iff)
    moreover have "(0x80 :: u8) = push_bit 7 1" by simp
    ultimately have "bit (c AND 0x80) 7" by (simp only: bit_and_iff bit_push_bit_iff) simp
    then show False using True by simp
  qed
  then show ?thesis using rev_table True by (simp add: charset_value_def list_all_length)
qed (simp add: charset_value_def)

lemma char_word_inj:
  assumes "charset_value c \<noteq> - 1" "charset_value c' \<noteq> - 1" "charset_value c \<noteq> charset_value c'"
  shows "(word_of_int (charset_value c) :: u32) \<noteq> word_of_int (charset_value c')"
    "take_bit 30 (word_of_int (charset_value c) :: u32) = word_of_int (charset_value c)"
proof -
  have u: "uint (word_of_int (charset_value c) :: u32) = charset_value c" if "charset_value c \<noteq> - 1" for c
    using that charset_value_range [of c] by (simp add: uint_word_of_int)
  show "(word_of_int (charset_value c) :: u32) \<noteq> word_of_int (charset_value c')" using u assms by metis
  show "take_bit 30 (word_of_int (charset_value c) :: u32) = word_of_int (charset_value c)"
    using u [OF assms(1)] charset_value_range [of c] assms(1) unfolding word_uint_eq_iff unsigned_take_bit_eq
    by (simp add: take_bit_int_eq_self)
qed

lemma decode_parts_checksums:
  assumes "decode_parts h cs = Some r" "decode_parts h cs' = Some r'"
  shows "\<exists>x. feeds (char_words cs) x = 1 \<and> feeds (char_words cs') x = 1 \<and>
    list_all (\<lambda>c. charset_value c \<noteq> - 1) cs \<and> list_all (\<lambda>c. charset_value c \<noteq> - 1) cs'"
proof -
  obtain st hrp where h: "decode_hrp \<lparr>de_chk = 1, de_lower = False, de_upper = False\<rparr> h = Some (st, hrp)"
    using assms(1) by (auto simp: decode_parts_def bind_eq_Some_conv)
  let ?st = "st\<lparr>de_chk := hrp_low (bech32_polymod_step (de_chk st)) h\<rparr>"
  have "feeds (char_words cs) (de_chk ?st) = 1 \<and> list_all (\<lambda>c. charset_value c \<noteq> - 1) cs"
    if p: "decode_parts h cs = Some r" for cs r
  proof -
    obtain st' ds where d: "decode_data ?st cs = Some (st', ds)" "de_chk st' = 1"
      using p h by (auto simp: decode_parts_def bind_eq_Some_conv split: if_splits)
    then show ?thesis using decode_data_spec [OF d(1)] by simp
  qed
  then show ?thesis using assms by blast
qed

lemma decode_hrp_length: "decode_hrp st h = Some (st', hrp) \<Longrightarrow> length hrp = length h"
  by (induction h arbitrary: st hrp) (auto simp: Let_def bind_eq_Some_conv split: if_splits)

lemma wrong_character:
  assumes s: "bech32_decode s m = Some (hrp, data)" and i: "length hrp < i" "i < length s"
    and c: "c \<noteq> 49" "charset_value c \<noteq> charset_value (s ! i)"
  shows "bech32_decode (s[i := c]) m = None"
proof (rule ccontr)
  assume n: "bech32_decode (s[i := c]) m \<noteq> None"
  obtain h cs where e: "s = h @ 49 # cs" "49 \<notin> set cs" using decode_splits [OF s] .
  have p: "decode_parts h cs = Some (hrp, data)" using s decode_split [OF e(2), of h m] e(1) by (auto split: if_splits)
  then have "length hrp = length h" using decode_hrp_length by (auto simp: decode_parts_def bind_eq_Some_conv split: if_splits)
  then obtain j where j: "i = Suc (length h + j)" "j < length cs" using i e(1) by (auto dest: less_imp_Suc_add)
  then have t: "s[i := c] = h @ 49 # cs[j := c]" and sj: "s ! i = cs ! j" using e(1) by (simp_all add: list_update_append nth_append)
  have "49 \<notin> set (cs[j := c])" using e(2) c(1) set_update_subset_insert by fastforce
  then obtain r where "decode_parts h (cs[j := c]) = Some r"
    using n decode_split [of "cs[j := c]" h m] unfolding t by (auto split: if_splits)
  then obtain x where x: "feeds (char_words cs) x = 1" "feeds (char_words (cs[j := c])) x = 1"
    "list_all (\<lambda>c. charset_value c \<noteq> - 1) cs" "list_all (\<lambda>c. charset_value c \<noteq> - 1) (cs[j := c])"
    using decode_parts_checksums [OF p] by blast
  then have v: "charset_value (cs ! j) \<noteq> - 1" "charset_value c \<noteq> - 1" using j(2) by (auto simp: list_all_length dest!: spec [of _ j])
  let ?d = "(word_of_int (charset_value c) :: u32) XOR word_of_int (charset_value (cs ! j))"
  have w: "(word_of_int (charset_value c) :: u32) \<noteq> word_of_int (charset_value (cs ! j))"
    by (rule char_word_inj(1)) (use v c(2) sj in simp_all)
  have "take_bit 30 ?d = ?d"
    unfolding take_bit_xor using char_word_inj(2) [of c "cs ! j"] char_word_inj(2) [of "cs ! j" c] v c(2) sj by simp
  moreover have "?d \<noteq> 0" using w xor_zero by blast
  ultimately have "(bech32_polymod_step ^^ (length cs - Suc j)) ?d \<noteq> 0" by (rule steps_nonzero)
  moreover have "(bech32_polymod_step ^^ (length cs - Suc j)) ?d XOR 1 = 1"
    using feeds_update [of j "char_words cs" "word_of_int (charset_value c)" x] j(2) x(1,2) by (simp add: map_update)
  ultimately show False using xor_same by blast
qed

section \<open>Regrouping bits\<close>

definition bits_of :: "nat \<Rightarrow> 'a :: len word \<Rightarrow> bool list" where
  "bits_of k x = map (bit x) (rev [0..<k])"

abbreviation all_bits :: "nat \<Rightarrow> bytes \<Rightarrow> bool list" where
  "all_bits k bs \<equiv> concat (map (bits_of k) bs)"

lemma length_bits_of [simp]: "length (bits_of k x) = k"
  by (simp add: bits_of_def)

lemma all_bits_length: "length (all_bits k bs) = k * length bs"
  by (induction bs) auto

lemma rev_upt_add: "rev [0..<k + n] = map (\<lambda>i. i + n) (rev [0..<k]) @ rev [0..<n]"
proof -
  have "[0..<n + k] = [0..<n] @ map (\<lambda>i. i + n) [0..<k]" 
    using upt_add_eq_append [of 0 n k] map_add_upt [of n k] by (simp add: add.commute)
  then have "rev [0..<n + k] = rev (map (\<lambda>i. i + n) [0..<k]) @ rev [0..<n]" by (simp only: rev_append)
  then show ?thesis by (simp only: add.commute [of k n] rev_map)
qed

lemma bits_of_join:
  assumes "k + n \<le> 32" "take_bit n b = (b :: u8)"
  shows "bits_of (k + n) (push_bit n v OR ucast b :: u32) = bits_of k v @ bits_of n b"
proof -
  have "\<not> bit b (i + n)" for i using assms(2) by (metis bit_take_bit_iff not_add_less2)
  then show ?thesis unfolding bits_of_def rev_upt_add using assms(1)
    by (auto simp: bit_or_iff bit_push_bit_iff bit_ucast_iff)
qed

lemma exp_mask: "push_bit n (1 :: u32) - 1 = mask n"
  by (simp add: mask_eq_exp_minus_1)

lemma bits_of_emit:
  assumes "n \<le> 8"
  shows "bits_of (n + k) (v :: u32) = bits_of n (ucast (drop_bit k v AND (push_bit n 1 - 1)) :: u8) @ bits_of k v"
  unfolding bits_of_def rev_upt_add [of n k] exp_mask using assms
  by (auto simp: bit_ucast_iff bit_and_iff bit_drop_bit_eq bit_mask_iff add.commute)

lemma take_bit_emit: "take_bit n (ucast (w AND (push_bit n 1 - 1) :: u32) :: u8) = ucast (w AND (push_bit n 1 - 1))"
  unfolding exp_mask by (rule bit_word_eqI) (auto simp: bit_take_bit_iff bit_ucast_iff bit_and_iff bit_mask_iff)

lemma emit_groups_bits:
  assumes "emit_groups n v k = (r, out)" "0 < n" "n \<le> 8"
  shows "bits_of k v = all_bits n out @ bits_of r v \<and> r < n \<and> (\<forall>x \<in> set out. take_bit n x = x)"
  using assms
proof (induction n v k arbitrary: r out rule: emit_groups.induct)
  case (1 n v k)
  show ?case
  proof (cases "n \<le> k")
    case True
    obtain out1 where e: "emit_groups n v (k - n) = (r, out1)"
      and o: "out = ucast (drop_bit (k - n) v AND (push_bit n 1 - 1)) # out1"
      using "1.prems" True by (subst (asm) emit_groups.simps) (auto simp: Let_def split: prod.splits)
    have "bits_of k v = bits_of n (ucast (drop_bit (k - n) v AND (push_bit n 1 - 1)) :: u8) @ bits_of (k - n) v"
      using bits_of_emit [OF "1.prems"(3), of "k - n" v] True by (simp del: push_bit_of_1)
    then show ?thesis using "1.IH" [OF _ refl e] True "1.prems"(2,3) take_bit_emit unfolding o by (auto simp del: push_bit_of_1)
  next
    case False
    then show ?thesis using "1.prems" by (subst (asm) emit_groups.simps) simp
  qed
qed

lemma convert_loop_bits:
  assumes "convert_loop n i v k bs = (v', k', out)" "0 < n" "n \<le> 8" "i \<le> 8" "k < n" "\<forall>b \<in> set bs. take_bit i b = b"
  shows "bits_of k v @ all_bits i bs = all_bits n out @ bits_of k' v' \<and> k' < n \<and> (\<forall>x \<in> set out. take_bit n x = x)"
  using assms
proof (induction bs arbitrary: v k out)
  case (Cons b bs)
  let ?v = "push_bit i v OR ucast b"
  obtain k1 o1 where e: "emit_groups n ?v (k + i) = (k1, o1)" by fastforce
  obtain o2 where l: "convert_loop n i ?v k1 bs = (v', k', o2)" "out = o1 @ o2"
    using Cons.prems(1) e by (auto simp: Let_def split: prod.splits)
  have "bits_of (k + i) ?v = bits_of k v @ bits_of i b" by (rule bits_of_join) (use Cons.prems in auto)
  then have b: "bits_of k v @ bits_of i b = all_bits n o1 @ bits_of k1 ?v" "k1 < n" "\<forall>x \<in> set o1. take_bit n x = x"
    using emit_groups_bits [OF e Cons.prems(2,3)] by auto
  have "bits_of k1 ?v @ all_bits i bs = all_bits n o2 @ bits_of k' v' \<and> k' < n \<and> (\<forall>x \<in> set o2. take_bit n x = x)"
    by (rule Cons.IH [OF l(1)]) (use Cons.prems b(2) in auto)
  moreover have "bits_of k v @ all_bits i (b # bs) = all_bits n o1 @ bits_of k1 ?v @ all_bits i bs"
    using b(1) by simp
  ultimately show ?case using b(3) l(2) by auto
qed simp

lemma bits_of_pad:
  assumes "k \<le> n" "n \<le> 8"
  shows "bits_of n (ucast (push_bit (n - k) v AND (push_bit n 1 - 1) :: u32) :: u8) = bits_of k v @ replicate (n - k) False"
proof -
  let ?w = "ucast (push_bit (n - k) v AND mask n) :: u8"
  have w: "bit ?w i \<longleftrightarrow> n - k \<le> i \<and> bit v (i - (n - k))" if "i < n" for i
    using that assms by (simp add: bit_ucast_iff bit_and_iff bit_mask_iff bit_push_bit_iff)
  have "rev [0..<n] = map (\<lambda>i. i + (n - k)) (rev [0..<k]) @ rev [0..<n - k]"
    using rev_upt_add [of k "n - k"] assms by simp
  then have "bits_of n ?w = map (\<lambda>i. bit ?w (i + (n - k))) (rev [0..<k]) @ map (bit ?w) (rev [0..<n - k])"
    by (simp add: bits_of_def comp_def)
  also have "map (\<lambda>i. bit ?w (i + (n - k))) (rev [0..<k]) = bits_of k v"
    unfolding bits_of_def using w assms by (intro map_cong) auto
  also have "map (bit ?w) (rev [0..<n - k]) = replicate (n - k) False"
    by (rule replicate_eqI) (use w in auto)
  finally show ?thesis by (simp only: exp_mask)
qed

lemma bits_of_inj: "bits_of 8 x = bits_of 8 y \<Longrightarrow> x = (y :: u8)"
  by (rule bit_word_eqI) (simp add: bits_of_def)

lemma all_bits_inj: "all_bits 8 xs = all_bits 8 ys \<Longrightarrow> xs = ys"
proof (induction xs arbitrary: ys)
  case Nil
  then show ?case by (cases ys) (auto dest: arg_cong [of _ _ length])
next
  case (Cons x xs)
  then obtain y zs where "ys = y # zs" by (cases ys) (auto dest: arg_cong [of _ _ length])
  then show ?case using Cons bits_of_inj by auto
qed

text \<open>Eight to five bits, the last group filled with zeros, and back.\<close>

lemma convert_8_5:
  assumes "bech32_convert_bits 5 inp 8 True = Some out"
  shows "\<exists>p < 5. all_bits 5 out = all_bits 8 inp @ replicate p False \<and> (\<forall>x \<in> set out. take_bit 5 x = x)"
proof -
  obtain v k o1 where l: "convert_loop 5 8 0 0 inp = (v, k, o1)" by (cases "convert_loop 5 8 0 0 inp") auto
  have "take_bit 8 b = b" for b :: u8 by (rule bit_word_eqI) (simp add: bit_take_bit_iff)
  then have b: "all_bits 8 inp = all_bits 5 o1 @ bits_of k v" "k < 5" "\<forall>x \<in> set o1. take_bit 5 x = x"
    using convert_loop_bits [OF l] by (auto simp: bits_of_def)
  let ?w = "ucast (push_bit (5 - k) v AND (push_bit 5 1 - 1)) :: u8"
  have o: "out = (if k \<noteq> 0 then o1 @ [?w] else o1)"
    using assms l unfolding bech32_convert_bits_def Let_def by (simp del: push_bit_of_1)
  show ?thesis
  proof (cases "k = 0")
    case True
    then show ?thesis using o b by (intro exI [of _ 0]) (simp add: bits_of_def)
  next
    case False
    then have "all_bits 5 out = all_bits 8 inp @ replicate (5 - k) False"
      using o b bits_of_pad [of k 5 v] by (simp del: push_bit_of_1)
    moreover have "\<forall>x \<in> set out. take_bit 5 x = x" using o b(3) False take_bit_emit [of 5] by (simp del: push_bit_of_1)
    ultimately show ?thesis using False by (intro exI [of _ "5 - k"]) simp
  qed
qed

lemma bits_of_zero: "bits_of n (w :: u8) = replicate n False \<Longrightarrow> take_bit n w = 0"
proof (rule bit_word_eqI)
  fix i assume r: "bits_of n w = replicate n False"
  have "\<not> bit w i" if "i < n"
  proof -
    have "bit w i \<in> set (bits_of n w)" using that by (simp add: bits_of_def)
    then show ?thesis using r by simp
  qed
  then show "bit (take_bit n w) i = bit 0 i" by (auto simp: bit_take_bit_iff)
qed

lemma convert_5_8:
  assumes a: "all_bits 5 data = all_bits 8 inp @ replicate p False" "p < 5" "\<forall>x \<in> set data. take_bit 5 x = x"
  shows "bech32_convert_bits 8 data 5 False = Some inp"
proof -
  obtain v k out where l: "convert_loop 8 5 0 0 data = (v, k, out)" by (cases "convert_loop 8 5 0 0 data") auto
  have b: "all_bits 5 data = all_bits 8 out @ bits_of k v" "k < 8" using convert_loop_bits [OF l] a(3) by (auto simp: bits_of_def)
  have "8 * length inp + p = 8 * length out + k" using arg_cong [OF b(1), of length] a(1) by (simp add: all_bits_length)
  then have k: "length inp = length out" "k = p" using a(2) b(2) by presburger+
  then have e: "all_bits 8 inp = all_bits 8 out" "replicate p False = bits_of k v"
    using a(1) b(1) append_eq_append_conv [of "all_bits 8 inp" "all_bits 8 out"] by (simp_all add: all_bits_length)
  let ?x = "push_bit (8 - k) v AND (push_bit 8 1 - 1)"
  have "bits_of 8 (ucast ?x :: u8) = replicate 8 False"
    using bits_of_pad [of k 8 v] e(2) [symmetric] k(2) b(2) by (simp add: replicate_add [symmetric] del: push_bit_of_1)
  then have "take_bit 8 (ucast ?x :: u8) = 0" by (rule bits_of_zero)
  then have z: "(ucast ?x :: u8) = 0" by (simp only: take_bit_emit)
  have "?x = 0"
  proof (rule bit_word_eqI)
    fix i
    show "bit ?x i = bit 0 i" unfolding exp_mask
      using arg_cong [OF z, of "\<lambda>w. bit w i"] unfolding exp_mask by (auto simp: bit_and_iff bit_mask_iff bit_ucast_iff)
  qed
  then show ?thesis using l k(2) a(2) all_bits_inj [OF e(1)]
    unfolding bech32_convert_bits_def Let_def by (simp del: push_bit_of_1)
qed

lemma segwit_addr_decode_encode:
  assumes e: "segwit_addr_encode hrp witver witprog = Some addr" and v: "0 \<le> witver" and h: "hrp \<noteq> []"
  shows "segwit_addr_decode hrp addr = Some (witver, witprog)"
proof -
  from e obtain data where g: "\<not> witver > 16" "\<not> (witver = 0 \<and> length witprog \<noteq> 20 \<and> length witprog \<noteq> 32)"
    "\<not> (length witprog < 2 \<or> length witprog > 40)"
    and d: "bech32_convert_bits 5 witprog 8 True = Some data" "bech32_encode hrp (word_of_int witver # data) 90 = Some addr"
    by (auto simp: segwit_addr_encode_def Let_def bind_eq_Some_conv split: if_splits)
  obtain p where p: "p < 5" "all_bits 5 data = all_bits 8 witprog @ replicate p False" "\<forall>x \<in> set data. take_bit 5 x = x"
    using convert_8_5 [OF d(1)] by blast
  have "5 * length data = 8 * length witprog + p" using arg_cong [OF p(2), of length] by (simp add: all_bits_length)
  then have n: "length data \<le> 64" using g(3) p(1) by linarith
  have u: "uint (word_of_int witver :: u8) = witver" using v g(1) by (simp add: uint_word_of_int)
  then have w: "\<not> (word_of_int witver :: u8) > 16" "(word_of_int witver :: u8) = 0 \<longleftrightarrow> witver = 0"
    using g(1) by (auto simp: word_less_def word_uint_eq_iff)
  show ?thesis
    unfolding segwit_addr_decode_def bech32_decode_encode [OF d(2) h]
    using n w u g(2,3) convert_5_8 [OF p(2,1,3)] by (auto simp: Let_def)
qed

section \<open>Properties\<close>

text \<open>
  C19: an address that \<^verbatim>\<open>segwit_addr_encode\<close> writes is read back by \<^verbatim>\<open>segwit_addr_decode\<close> with the same prefix
  as the same witness version and program: five-bit regrouping with padding, character tables, case rules,
  separator and checksum of the two directions agree. A negative version is not refused by the encoder and
  an empty prefix is encoded but not decoded.
\<close>

theorem segwit_addr_roundtrip:
  assumes "segwit_addr_encode hrp witver witprog = Some addr" "0 \<le> witver" "hrp \<noteq> []"
  shows "segwit_addr_decode hrp addr = Some (witver, witprog)"
  using assms by (rule segwit_addr_decode_encode)

definition example_program :: bytes where
  "example_program = [0x75, 0x1e, 0x76, 0xe8, 0x19, 0x91, 0x96, 0xd4, 0x54, 0x94, 0x1c, 0x45, 0xd1, 0xb3, 0xa3, 0x23, 0xf1, 0x43, 0x3b, 0xd6]"

definition example_address :: bytes where
  "example_address = map of_char ''bc1qw508d6qejxtdg4y5r3zarvary0c5xw7kv8f3t4''"

definition example_data :: bytes where
  "example_data = [14, 20, 15, 7, 13, 26, 0, 25, 18, 6, 11, 13, 8, 21, 4, 20, 3, 17, 2, 29, 3, 12, 29, 3, 4, 15, 24, 20, 6, 14, 30, 22]"

lemma example_regrouped: "convert_loop 5 8 0 0 example_program = (0xf1433bd6, 0, example_data)"
  by code_simp

lemma example_hrp: "encode_hrp_high 1 (map of_char ''bc'') = Some 0x463" "hrp_low (bech32_polymod_step 0x463) (map of_char ''bc'') = 0x2318043"
  by code_simp+

lemma example_symbols: "encode_data 0x2318043 (0 # example_data) = Some (0x979c4ed, symbols (0 # example_data))"
  by code_simp

lemma six_steps:
  "(bech32_polymod_step ^^ 6) x =
     bech32_polymod_step (bech32_polymod_step (bech32_polymod_step (bech32_polymod_step (bech32_polymod_step (bech32_polymod_step x)))))"
  by (simp add: eval_nat_numeral)

lemma example_checksum: "(bech32_polymod_step ^^ 6) 0x979c4ed XOR 1 = 0x1874c575"
  unfolding six_steps by code_simp

lemma example_text:
  "map of_char ''bc'' @ [49] @ symbols (0 # example_data) @ map (\<lambda>i. bech32_charset ! unat (drop_bit ((5 - i) * 5) 0x1874c575 AND 0x1f :: u32)) [0..<6] = example_address"
  by code_simp

lemma example_encoded: "segwit_addr_encode (map of_char ''bc'') 0 example_program = Some example_address"
proof -
  have "bech32_convert_bits 5 example_program 8 True = Some example_data"
    unfolding bech32_convert_bits_def Let_def example_regrouped by simp
  moreover have "bech32_encode (map of_char ''bc'') (0 # example_data) 90 = Some example_address"
    unfolding bech32_encode_def example_hrp(1) bind.bind_lunit Let_def example_hrp(2) example_symbols prod.case example_checksum example_text
    by (simp add: example_data_def)
  moreover have "length example_program = 20" by (simp add: example_program_def)
  ultimately show ?thesis unfolding segwit_addr_encode_def by simp
qed

theorem segwit_addr_roundtrip_witness:
  "segwit_addr_encode (map of_char ''bc'') 0 example_program = Some example_address \<and>
   segwit_addr_decode (map of_char ''bc'') example_address = Some (0, example_program)"
  using segwit_addr_roundtrip [OF example_encoded] example_encoded by simp

text \<open>
  C20: one wrong character after the separator never goes unnoticed: if \<^verbatim>\<open>bech32_decode\<close> accepts a string,
  it refuses the string in which one data or checksum character is replaced by one that stands for another
  value or for none, the separator apart.
\<close>

theorem wrong_character_refused:
  assumes "bech32_decode s m = Some (hrp, data)" "length hrp < i" "i < length s"
    "c \<noteq> 49" "charset_value c \<noteq> charset_value (s ! i)"
  shows "bech32_decode (s[i := c]) m = None"
  using assms by (rule wrong_character)

lemma example_decoded:
  "\<exists>data. bech32_decode example_address 90 = Some (map of_char ''bc'', data)"
  using bech32_decode_encode [of "map of_char ''bc''"] example_encoded
  by (auto simp: segwit_addr_encode_def Let_def bind_eq_Some_conv split: if_splits)

lemma example_character: "length example_address = 42 \<and> charset_value 113 \<noteq> charset_value (example_address ! 5)"
  by code_simp

theorem wrong_character_refused_witness:
  "bech32_decode example_address 90 \<noteq> None \<and> bech32_decode (example_address[5 := 113]) 90 = None"
proof -
  obtain data where d: "bech32_decode example_address 90 = Some (map of_char ''bc'', data)" using example_decoded by blast
  then show ?thesis using wrong_character_refused [OF d, of 5 113] example_character by simp
qed

end
