(* ===== verification/DxfToken.thy ===== *)
theory DxfToken
  imports Prelude
begin

text \<open>
  The token contract of the exchange, \<^verbatim>\<open>dexfintoken/DXFToken.sol\<close>, all of it. A call takes the sender
  (\<^verbatim>\<open>msg.sender\<close>) first and the state of the contract last; a failed \<^verbatim>\<open>require\<close> or \<^verbatim>\<open>assert\<close> reverts the
  call and is \<open>None\<close>. The compiler versions the source asks for do not check arithmetic, so \<^verbatim>\<open>uint256\<close> is a
  256-bit word and wraps around. A \<^verbatim>\<open>mapping\<close> is a total function, zero where nothing was stored.

  The contract that \<^verbatim>\<open>approveAndCall\<close> notifies is other people's code and an argument of the
  definition. It may call the token again before it returns, and \<open>calls\<close> lets it.
\<close>

section \<open>The state of the contract\<close>

type_synonym uint256 = "256 word"
type_synonym address = "160 word"

datatype event =
    Transfer address address uint256
  | Approval address address uint256
  | Burn address uint256

record token =
  tk_name :: string
  tk_symbol :: string
  decimals :: u8
  totalSupply :: uint256
  balanceOf :: "address \<Rightarrow> uint256"
  allowance :: "address \<Rightarrow> address \<Rightarrow> uint256"
  tk_log :: "event list"

definition emit :: "event \<Rightarrow> token \<Rightarrow> token" where
  "emit e t = t\<lparr>tk_log := tk_log t @ [e]\<rparr>"

definition set_balance :: "address \<Rightarrow> uint256 \<Rightarrow> token \<Rightarrow> token" where
  "set_balance a v t = t\<lparr>balanceOf := (balanceOf t)(a := v)\<rparr>"

definition set_allowance :: "address \<Rightarrow> address \<Rightarrow> uint256 \<Rightarrow> token \<Rightarrow> token" where
  "set_allowance a s v t = t\<lparr>allowance := (allowance t)(a := (allowance t a)(s := v))\<rparr>"

section \<open>The operations\<close>

definition construct :: "address \<Rightarrow> token" where
  "construct sender =
    (let t = \<lparr>tk_name = '''', tk_symbol = '''', decimals = 18, totalSupply = 0, balanceOf = (\<lambda>_. 0),
              allowance = (\<lambda>_ _. 0), tk_log = []\<rparr>;
         t = t\<lparr>totalSupply := 210000000 * 10 ^ unat (ucast (decimals t) :: uint256)\<rparr>;
         t = set_balance sender (totalSupply t) t
     in t\<lparr>tk_name := ''DEXFin'', tk_symbol := ''DXF''\<rparr>)"

definition internal_transfer :: "address \<Rightarrow> address \<Rightarrow> uint256 \<Rightarrow> token \<Rightarrow> token option" where
  "internal_transfer src dst v t =
    (if \<not> dst \<noteq> 0 then None
     else if \<not> balanceOf t src \<ge> v then None
     else if \<not> balanceOf t dst + v \<ge> balanceOf t dst then None
     else let previousBalances = balanceOf t src + balanceOf t dst;
              t = set_balance src (balanceOf t src - v) t;
              t = set_balance dst (balanceOf t dst + v) t;
              t = emit (Transfer src dst v) t
          in if balanceOf t src + balanceOf t dst = previousBalances then Some t else None)"

definition transfer :: "address \<Rightarrow> address \<Rightarrow> uint256 \<Rightarrow> token \<Rightarrow> (token \<times> bool) option" where
  "transfer sender dst v t =
    (case internal_transfer sender dst v t of None \<Rightarrow> None | Some t \<Rightarrow> Some (t, True))"

definition transferFrom :: "address \<Rightarrow> address \<Rightarrow> address \<Rightarrow> uint256 \<Rightarrow> token \<Rightarrow> (token \<times> bool) option" where
  "transferFrom sender src dst v t =
    (if \<not> v \<le> allowance t src sender then None
     else let t = set_allowance src sender (allowance t src sender - v) t
          in case internal_transfer src dst v t of None \<Rightarrow> None | Some t \<Rightarrow> Some (t, True))"

definition approve :: "address \<Rightarrow> address \<Rightarrow> uint256 \<Rightarrow> token \<Rightarrow> token \<times> bool" where
  "approve sender spender v t =
    (let t = set_allowance sender spender v t;
         t = emit (Approval sender spender v) t
     in (t, True))"

text \<open>
  \<open>receiveApproval spender\<close> is the function of that name of the contract at address \<open>spender\<close>. It takes and
  returns the state of the token, since it may call it; \<open>None\<close> is its revert, and the one that the call
  makes when there is no contract at the address.
\<close>

type_synonym receiver = "address \<Rightarrow> address \<Rightarrow> uint256 \<Rightarrow> address \<Rightarrow> bytes \<Rightarrow> token \<Rightarrow> token option"

definition approveAndCall ::
  "receiver \<Rightarrow> address \<Rightarrow> address \<Rightarrow> address \<Rightarrow> uint256 \<Rightarrow> bytes \<Rightarrow> token \<Rightarrow> (token \<times> bool) option" where
  "approveAndCall receiveApproval this sender spender v extraData t =
    (case approve sender spender v t of (t, ok) \<Rightarrow>
       if ok then
         (case receiveApproval spender sender v this extraData t of
            None \<Rightarrow> None
          | Some t \<Rightarrow> Some (t, True))
       else Some (t, False))"

definition burn :: "address \<Rightarrow> uint256 \<Rightarrow> token \<Rightarrow> (token \<times> bool) option" where
  "burn sender v t =
    (if \<not> balanceOf t sender \<ge> v then None
     else let t = set_balance sender (balanceOf t sender - v) t;
              t = t\<lparr>totalSupply := totalSupply t - v\<rparr>;
              t = emit (Burn sender v) t
          in Some (t, True))"

definition burnFrom :: "address \<Rightarrow> address \<Rightarrow> uint256 \<Rightarrow> token \<Rightarrow> (token \<times> bool) option" where
  "burnFrom sender src v t =
    (if \<not> balanceOf t src \<ge> v then None
     else if \<not> v \<le> allowance t src sender then None
     else let t = set_balance src (balanceOf t src - v) t;
              t = set_allowance src sender (allowance t src sender - v) t;
              t = t\<lparr>totalSupply := totalSupply t - v\<rparr>;
              t = emit (Burn src v) t
          in Some (t, True))"

section \<open>Sequences of calls\<close>

text \<open>
  \<open>calls A t t'\<close>: calls whose senders are among \<open>A\<close> lead from \<open>t\<close> to \<open>t'\<close>. A notified contract changes the
  token only by calling it, so what it does between the two halves of \<^verbatim>\<open>approveAndCall\<close> is again a sequence
  of calls. Reverted calls leave no trace.
\<close>

inductive calls :: "address set \<Rightarrow> token \<Rightarrow> token \<Rightarrow> bool" for A :: "address set" where
  none: "calls A t t"
| transfer: "\<lbrakk>calls A t u; s \<in> A; transfer s dst v u = Some (w, r)\<rbrakk> \<Longrightarrow> calls A t w"
| transferFrom: "\<lbrakk>calls A t u; s \<in> A; transferFrom s src dst v u = Some (w, r)\<rbrakk> \<Longrightarrow> calls A t w"
| approve: "\<lbrakk>calls A t u; s \<in> A; approve s p v u = (w, r)\<rbrakk> \<Longrightarrow> calls A t w"
| approveAndCall: "\<lbrakk>calls A t u; s \<in> A; approveAndCall receiveApproval this s p v d u = Some (w, r);
    calls A (fst (approve s p v u)) w\<rbrakk> \<Longrightarrow> calls A t w"
| burn: "\<lbrakk>calls A t u; s \<in> A; burn s v u = Some (w, r)\<rbrakk> \<Longrightarrow> calls A t w"
| burnFrom: "\<lbrakk>calls A t u; s \<in> A; burnFrom s src v u = Some (w, r)\<rbrakk> \<Longrightarrow> calls A t w"

section \<open>What the calls keep\<close>

text \<open>What the log says an account received and gave away, and how much was burnt.\<close>

fun received :: "address \<Rightarrow> event \<Rightarrow> nat" where
  "received a (Transfer f g v) = (if g = a then unat v else 0)"
| "received a _ = 0"

fun burnt :: "event \<Rightarrow> nat" where
  "burnt (Burn f v) = unat v"
| "burnt _ = 0"

fun given :: "address \<Rightarrow> event \<Rightarrow> nat" where
  "given a (Transfer f g v) = (if f = a then unat v else 0)"
| "given a (Burn f v) = (if f = a then unat v else 0)"
| "given a _ = 0"

definition held :: "token \<Rightarrow> nat" where
  "held t = (\<Sum>a\<in>UNIV. unat (balanceOf t a))"

definition spendable :: "token \<Rightarrow> address \<Rightarrow> nat" where
  "spendable t a = (\<Sum>s\<in>UNIV. unat (allowance t a s))"

lemma sum_fun_upd:
  fixes f :: "'a::finite \<Rightarrow> 'b::len word"
  shows "(\<Sum>b\<in>UNIV. unat ((f(a := x)) b)) + unat (f a) = (\<Sum>b\<in>UNIV. unat (f b)) + unat x"
proof -
  have "(\<Sum>b\<in>UNIV. unat ((f(a := x)) b)) = unat x + (\<Sum>b\<in>UNIV - {a}. unat ((f(a := x)) b))"
    by (subst sum.remove [of _ a]) simp_all
  also have "(\<Sum>b\<in>UNIV - {a}. unat ((f(a := x)) b)) = (\<Sum>b\<in>UNIV - {a}. unat (f b))"
    by (rule sum.cong) simp_all
  finally show ?thesis by (simp add: sum.remove [of UNIV a "\<lambda>b. unat (f b)"])
qed

lemma unat_add_le: "x \<le> x + v \<Longrightarrow> unat (x + v) = unat x + unat v" for v x :: "'a::len word"
  by (simp add: no_olen_add_nat unat_add_lem)

lemma balance_le_held: "unat (balanceOf t a) \<le> held t"
  unfolding held_def by (rule member_le_sum) simp_all

subsection \<open>The effect of a call\<close>

lemma internal_transfer_effect:
  assumes "internal_transfer src dst v t = Some w"
  shows "unat (balanceOf w a) + (if src = a then unat v else 0) = unat (balanceOf t a) + (if dst = a then unat v else 0)"
    and "totalSupply w = totalSupply t" and "allowance w = allowance t"
    and "tk_log w = tk_log t @ [Transfer src dst v]" and "dst \<noteq> 0"
proof -
  have g: "dst \<noteq> 0" "v \<le> balanceOf t src" "balanceOf t dst \<le> balanceOf t dst + v"
    and w: "w = emit (Transfer src dst v) (set_balance dst (((balanceOf t)(src := balanceOf t src - v)) dst + v)
      (set_balance src (balanceOf t src - v) t))"
    using assms by (auto simp: internal_transfer_def Let_def set_balance_def split: if_splits)
  have "unat v \<le> unat (balanceOf t src)" using g(2) by (simp add: word_le_nat_alt)
  then show "unat (balanceOf w a) + (if src = a then unat v else 0) = unat (balanceOf t a) + (if dst = a then unat v else 0)"
    using g unat_add_le [OF g(3)] by (auto simp: w emit_def set_balance_def unat_sub)
  show "totalSupply w = totalSupply t" "allowance w = allowance t" "tk_log w = tk_log t @ [Transfer src dst v]" "dst \<noteq> 0"
    using g(1) by (simp_all add: w emit_def set_balance_def)
qed

lemma internal_transfer_returns:
  assumes "dst \<noteq> 0" and "v \<le> balanceOf t src" and "balanceOf t dst \<le> balanceOf t dst + v"
  shows "internal_transfer src dst v t \<noteq> None"
  using assms by (auto simp: internal_transfer_def Let_def set_balance_def emit_def)

lemma burn_effect:
  assumes "v \<le> balanceOf t src" and "balanceOf w = (balanceOf t)(src := balanceOf t src - v)"
  shows "unat (balanceOf w a) + (if src = a then unat v else 0) = unat (balanceOf t a)"
  using assms by (auto simp: unat_sub word_le_nat_alt)

subsection \<open>Supply and accounts\<close>

text \<open>
  The balances add up to the supply, and every balance is what the log says: the first one, plus what was
  received, less what was given away or burnt.
\<close>

definition token_inv :: "address \<Rightarrow> token \<Rightarrow> bool" where
  "token_inv creator t \<longleftrightarrow>
     held t = unat (totalSupply t) \<and>
     unat (totalSupply t) + sum_list (map burnt (tk_log t)) = 210000000 * 10 ^ 18 \<and>
     (\<forall>a. unat (balanceOf t a) + sum_list (map (given a) (tk_log t)) =
          (if a = creator then 210000000 * 10 ^ 18 else 0) + sum_list (map (received a) (tk_log t)))"

lemma inv_account:
  assumes "token_inv creator t"
  shows "unat (balanceOf t a) + sum_list (map (given a) (tk_log t)) =
    (if a = creator then 210000000 * 10 ^ 18 else 0) + sum_list (map (received a) (tk_log t))"
  using assms unfolding token_inv_def by blast

lemma construct_inv: "token_inv creator (construct creator)"
proof -
  have "totalSupply (construct creator) = 210000000 * 10 ^ 18"
    and "balanceOf (construct creator) = (\<lambda>_. 0)(creator := 210000000 * 10 ^ 18)"
    and "tk_log (construct creator) = []"
    by (simp_all add: construct_def set_balance_def Let_def)
  moreover have "held (construct creator) = unat (210000000 * 10 ^ 18 :: uint256)"
    unfolding held_def calculation(2) using sum_fun_upd [of "\<lambda>_::address. 0::uint256" creator "210000000 * 10 ^ 18"] by simp
  ultimately show ?thesis by (simp add: token_inv_def)
qed

lemma inv_transfer:
  assumes "token_inv c t" and m: "internal_transfer src dst v t = Some w"
  shows "token_inv c w"
proof -
  note e = internal_transfer_effect [OF m]
  have "(\<Sum>a\<in>UNIV. unat (balanceOf w a) + (if src = a then unat v else 0)) =
      (\<Sum>a\<in>UNIV. unat (balanceOf t a) + (if dst = a then unat v else 0))"
    by (rule sum.cong [OF refl e(1)])
  then have "held w = held t" by (simp add: sum.distrib held_def)
  moreover have "unat (balanceOf w a) + (sum_list (map (given a) (tk_log t)) + (if src = a then unat v else 0)) =
      (if a = c then 210000000 * 10 ^ 18 else 0) + (sum_list (map (received a) (tk_log t)) + (if dst = a then unat v else 0))" for a
    using inv_account [OF assms(1), of a] e(1) [of a] by linarith
  ultimately show ?thesis using assms(1) by (simp add: token_inv_def e(2,4))
qed

lemma inv_burn:
  assumes "token_inv c t" and v: "v \<le> balanceOf t src"
    and b: "balanceOf w = (balanceOf t)(src := balanceOf t src - v)"
    and s: "totalSupply w = totalSupply t - v" and l: "tk_log w = tk_log t @ [Burn src v]"
  shows "token_inv c w"
proof -
  note e = burn_effect [OF v b]
  have "(\<Sum>a\<in>UNIV. unat (balanceOf w a) + (if src = a then unat v else 0)) = (\<Sum>a\<in>UNIV. unat (balanceOf t a))"
    by (rule sum.cong [OF refl e])
  then have h: "held w + unat v = held t" by (simp add: sum.distrib held_def)
  have "v \<le> totalSupply t"
    using v balance_le_held [of t src] assms(1) by (simp add: token_inv_def word_le_nat_alt)
  then have "unat (totalSupply w) + unat v = unat (totalSupply t)" by (simp add: s unat_sub word_le_nat_alt)
  moreover have "unat (balanceOf w a) + (sum_list (map (given a) (tk_log t)) + (if src = a then unat v else 0)) =
      (if a = c then 210000000 * 10 ^ 18 else 0) + sum_list (map (received a) (tk_log t))" for a
    using inv_account [OF assms(1), of a] e [of a] by linarith
  ultimately show ?thesis using assms(1) h by (simp add: token_inv_def l)
qed

lemma inv_approve: "token_inv c t \<Longrightarrow> token_inv c (fst (approve s p v t))"
  by (simp add: token_inv_def approve_def set_allowance_def emit_def held_def)

lemma inv_set_allowance [simp]: "token_inv c (set_allowance a s v t) = token_inv c t"
  by (simp add: token_inv_def set_allowance_def held_def)

lemma calls_inv: "calls A t w \<Longrightarrow> token_inv c t \<Longrightarrow> token_inv c w"
proof (induction rule: calls.induct)
  case (transfer t u s dst v w r)
  then show ?case by (auto simp: transfer_def intro: inv_transfer split: option.splits)
next
  case (transferFrom t u s src dst v w r)
  then show ?case by (auto simp: transferFrom_def Let_def intro: inv_transfer [rotated] split: if_splits option.splits)
next
  case (approve t u s p v w r)
  then show ?case using inv_approve [of c u s p v] by simp
next
  case (approveAndCall t u s receiveApproval this p v d w r)
  then show ?case by (simp add: inv_approve)
next
  case (burn t u s v w r)
  then show ?case
    by (auto simp: burn_def Let_def set_balance_def emit_def split: if_splits intro!: inv_burn [of c u v s])
next
  case (burnFrom t u s src v w r)
  then show ?case
    by (auto simp: burnFrom_def Let_def set_balance_def set_allowance_def emit_def split: if_splits
        intro!: inv_burn [of c u v src])
qed

subsection \<open>Other people's tokens\<close>

text \<open>
  What an account has together with what it still allows others to take: calls of others lower the first only by
  using up the second.
\<close>

definition protected :: "address \<Rightarrow> token \<Rightarrow> token \<Rightarrow> bool" where
  "protected a t w \<longleftrightarrow> unat (balanceOf t a) + spendable w a \<le> unat (balanceOf w a) + spendable t a"

lemma protected_trans: "protected a t u \<Longrightarrow> protected a u w \<Longrightarrow> protected a t w"
  by (simp add: protected_def)

lemma spendable_set_allowance:
  "spendable (set_allowance b s x t) a + (if b = a then unat (allowance t a s) else 0) =
   spendable t a + (if b = a then unat x else 0)"
  using sum_fun_upd [of "allowance t a" s x] by (simp add: spendable_def set_allowance_def)

lemma spendable_cong: "allowance t = allowance u \<Longrightarrow> spendable t = spendable u"
  by (rule ext) (simp add: spendable_def)

lemma calls_protect: "calls A t w \<Longrightarrow> a \<notin> A \<Longrightarrow> protected a t w"
proof (induction rule: calls.induct)
  case (none t)
  show ?case by (simp add: protected_def)
next
  case (transfer t u s dst v w r)
  then have m: "internal_transfer s dst v u = Some w" and "s \<noteq> a" by (auto simp: transfer_def split: option.splits)
  then have "protected a u w"
    using internal_transfer_effect(1) [OF m, of a] spendable_cong [OF internal_transfer_effect(3) [OF m]]
    by (simp add: protected_def)
  then show ?case using transfer protected_trans by blast
next
  case (transferFrom t u s src dst v w r)
  let ?u = "set_allowance src s (allowance u src s - v) u"
  from transferFrom have m: "internal_transfer src dst v ?u = Some w" and v: "v \<le> allowance u src s"
    by (auto simp: transferFrom_def Let_def split: if_splits option.splits)
  have "unat (allowance u src s - v) + unat v = unat (allowance u src s)" using v by (simp add: unat_sub word_le_nat_alt)
  then have "protected a u w"
    using internal_transfer_effect(1) [OF m, of a] spendable_cong [OF internal_transfer_effect(3) [OF m]]
      spendable_set_allowance [of src s "allowance u src s - v" u a]
    by (cases "src = a") (auto simp: protected_def set_allowance_def split: if_splits)
  then show ?case using transferFrom protected_trans by blast
next
  case (approve t u s p v w r)
  then have "protected a u w" by (auto simp: protected_def approve_def set_allowance_def emit_def spendable_def Let_def)
  then show ?case using approve protected_trans by blast
next
  case (approveAndCall t u s receiveApproval this p v d w r)
  then have "protected a u (fst (approve s p v u))"
    by (auto simp: protected_def approve_def set_allowance_def emit_def spendable_def Let_def)
  then show ?case using approveAndCall protected_trans by blast
next
  case (burn t u s v w r)
  then have "protected a u w"
    by (auto simp: protected_def burn_def set_balance_def emit_def spendable_def Let_def split: if_splits)
  then show ?case using burn protected_trans by blast
next
  case (burnFrom t u s src v w r)
  then have v: "v \<le> allowance u src s" "v \<le> balanceOf u src"
    and b: "balanceOf w = (balanceOf u)(src := balanceOf u src - v)"
    and l: "allowance w = allowance (set_allowance src s (allowance u src s - v) u)"
    by (auto simp: burnFrom_def Let_def set_balance_def set_allowance_def emit_def split: if_splits)
  have "unat (allowance u src s - v) + unat v = unat (allowance u src s)" using v(1) by (simp add: unat_sub word_le_nat_alt)
  then have "protected a u w"
    using burn_effect [OF v(2) b, of a] spendable_cong [OF l] spendable_set_allowance [of src s "allowance u src s - v" u a]
    by (cases "src = a") (auto simp: protected_def split: if_splits)
  then show ?case using burnFrom protected_trans by blast
qed

section \<open>The property\<close>

lemma transfer_succeeds:
  assumes "token_inv c t"
  shows "(\<exists>w. transfer s dst v t = Some (w, True)) \<longleftrightarrow> dst \<noteq> 0 \<and> v \<le> balanceOf t s"
proof
  assume "\<exists>w. transfer s dst v t = Some (w, True)"
  then show "dst \<noteq> 0 \<and> v \<le> balanceOf t s"
    by (auto simp: transfer_def internal_transfer_def split: option.splits if_splits)
next
  assume g: "dst \<noteq> 0 \<and> v \<le> balanceOf t s"
  have total: "held t \<le> 210000000 * 10 ^ 18" using assms by (simp add: token_inv_def)
  then have "unat (balanceOf t dst) + unat v < 2 ^ 256"
    using g balance_le_held [of t dst] balance_le_held [of t s] by (simp add: word_le_nat_alt)
  then have "balanceOf t dst \<le> balanceOf t dst + v" by (simp add: no_olen_add_nat)
  then show "\<exists>w. transfer s dst v t = Some (w, True)"
    using internal_transfer_returns [of dst v t s] g by (auto simp: transfer_def)
qed

text \<open>
  C13: Whatever calls are made to the token after its creation, by whomever, and also when a notified
  contract calls it back: the balances add up to the total supply, which is the first supply of 210 million
  tokens less what the log shows as burnt; every balance is what the log shows; the holder of an amount can transfer it to any
  address but 0, and neither the overflow check nor the assertion ever stops them; and further calls of others lower what an
  account has by no more than they use up of its allowances.
\<close>

theorem token_accounts:
  assumes "calls A (construct creator) t" and "calls B t t'" and "a \<notin> B"
  shows "(\<Sum>b\<in>UNIV. unat (balanceOf t b)) = unat (totalSupply t) \<and>
    unat (totalSupply t) + sum_list (map burnt (tk_log t)) = 210000000 * 10 ^ 18 \<and>
    unat (balanceOf t b) + sum_list (map (given b) (tk_log t)) =
      (if b = creator then 210000000 * 10 ^ 18 else 0) + sum_list (map (received b) (tk_log t)) \<and>
    ((\<exists>w. transfer s dst v t = Some (w, True)) \<longleftrightarrow> dst \<noteq> 0 \<and> v \<le> balanceOf t s) \<and>
    unat (balanceOf t a) + (\<Sum>s\<in>UNIV. unat (allowance t' a s)) \<le>
      unat (balanceOf t' a) + (\<Sum>s\<in>UNIV. unat (allowance t a s))"
proof -
  have inv: "token_inv creator t" using calls_inv [OF assms(1) construct_inv] .
  then show ?thesis
    using transfer_succeeds [OF inv] calls_protect [OF assms(2,3)]
    unfolding token_inv_def held_def protected_def spendable_def by blast
qed

text \<open>
  The creator 1 sends 50 to 2 and notifies the contract 3 of an allowance of 30, of which 3 takes 20 for 4
  while it is notified; then 3 takes 5 more.
\<close>

definition greedy :: receiver where
  "greedy p s v this d t = map_option fst (transferFrom p s 4 20 t)"

definition sample_sent :: token where
  "sample_sent = fst (the (transfer 1 2 50 (construct 1)))"

definition sample_notified :: token where
  "sample_notified = fst (the (approveAndCall greedy 9 1 3 30 [] sample_sent))"

definition sample_taken :: token where
  "sample_taken = fst (the (burnFrom 3 1 5 sample_notified))"

lemmas token_defs = construct_def transfer_def internal_transfer_def transferFrom_def approve_def approveAndCall_def
  burnFrom_def set_balance_def set_allowance_def emit_def Let_def

lemma sample_sent_eq:
  "transfer 1 2 50 (construct 1) = Some (sample_sent, True)"
  "balanceOf sample_sent = (\<lambda>_. 0)(1 := 209999999999999999999999950, 2 := 50)"
  by (simp_all add: sample_sent_def token_defs word_le_nat_alt fun_eq_iff)

lemma sample_notified_eq:
  "transferFrom 3 1 4 20 (fst (approve 1 3 30 sample_sent)) = Some (sample_notified, True)"
  "approveAndCall greedy 9 1 3 30 [] sample_sent = Some (sample_notified, True)"
  "balanceOf sample_notified = (\<lambda>_. 0)(1 := 209999999999999999999999930, 2 := 50, 4 := 20)"
  "allowance sample_notified 1 3 = 10"
  by (simp_all add: sample_notified_def greedy_def token_defs sample_sent_eq word_le_nat_alt fun_eq_iff)

lemma sample_taken_eq: "burnFrom 3 1 5 sample_notified = Some (sample_taken, True)"
  by (simp add: sample_taken_def burnFrom_def Let_def sample_notified_eq word_le_nat_alt)

lemma sample_first: "calls {1, 3} (construct 1) sample_notified"
proof -
  have "calls {1, 3} (fst (approve 1 3 30 sample_sent)) sample_notified"
    by (rule calls.transferFrom [OF calls.none _ sample_notified_eq(1)]) simp
  then show ?thesis
    by (intro calls.approveAndCall [OF calls.transfer [OF calls.none _ sample_sent_eq(1)] _ sample_notified_eq(2)]) simp_all
qed

lemma sample_second: "calls {3} sample_notified sample_taken"
  by (rule calls.burnFrom [OF calls.none _ sample_taken_eq]) simp

theorem token_accounts_witness:
  "(\<Sum>b\<in>UNIV. unat (balanceOf sample_notified b)) = unat (totalSupply sample_notified) \<and>
   balanceOf sample_notified 1 = 209999999999999999999999930 \<and>
   unat (balanceOf sample_notified 4) + sum_list (map (given 4) (tk_log sample_notified)) =
     sum_list (map (received 4) (tk_log sample_notified)) \<and>
   (\<exists>w. transfer 2 4 50 sample_notified = Some (w, True)) \<and>
   unat (balanceOf sample_notified 1) + (\<Sum>s\<in>UNIV. unat (allowance sample_taken 1 s)) \<le>
     unat (balanceOf sample_taken 1) + (\<Sum>s\<in>UNIV. unat (allowance sample_notified 1 s))"
proof -
  have "(50::uint256) \<le> balanceOf sample_notified 2" "(1::address) \<notin> {3}" "(4::address) \<noteq> 1" "(4::address) \<noteq> 0"
    and b: "balanceOf sample_notified 1 = 209999999999999999999999930"
    by (simp_all add: sample_notified_eq)
  then show ?thesis
    using token_accounts [OF sample_first sample_second, of 1 4 2 4 50] by presburger
qed

end
