(* ===== verification/Spec2Isabelle.thy ===== *)
theory Spec2Isabelle
  imports ChannelTxs ChannelRestore ChannelLimits Basepoints WireStructs GossipRange Intmap Features Bech32 DxfToken
begin

text \<open>
  A verification of the payment channels of the exchange, that is, of the core of the \<^verbatim>\<open>c-lightning\<close>
  node under \<^verbatim>\<open>src/lightning\<close>, and of the exchange's token contract, \<^verbatim>\<open>src/dexfintoken/DXFToken.sol\<close>.
  Paths below are relative to \<^verbatim>\<open>src/lightning\<close> unless they say otherwise.

  \<^bold>\<open>The program.\<close> Two nodes share a channel: a funding output on the block chain that both must sign to
  spend. Each holds a commitment transaction that divides it, with one output per pending payment
  (HTLC). \<^verbatim>\<open>channeld\<close> keeps the state of a channel (\<^verbatim>\<open>full_channel.c\<close>), moves HTLCs through the states of
  \<^verbatim>\<open>common/htlc_state.c\<close> as commitments are signed and old ones revoked, and builds the transactions
  (\<^verbatim>\<open>commit_tx.c\<close>, \<^verbatim>\<open>common/htlc_tx.c\<close>) from the scripts and keys of \<^verbatim>\<open>bitcoin\<close> and \<^verbatim>\<open>common\<close>, sorted into an
  order both nodes find (\<^verbatim>\<open>common/permute_tx.c\<close>). A revoked commitment is given away with its secret;
  the secrets form a hash chain (\<^verbatim>\<open>ccan/crypto/shachain\<close>). The daemons of a node talk in messages made of the
  primitives of \<^verbatim>\<open>wire\<close>, and \<^verbatim>\<open>gossipd\<close> tells other nodes which channels exist.

  \<^bold>\<open>Conventions.\<close> A C integer is a word of its width and wraps around, a struct is a record, an enum or
  a tagged union a datatype, a pointer that may be NULL an option, a hash table the list of its entries in
  any order. A failed assertion, an abort or an access out of range is \<open>None\<close>; an error the code
  returns is a value. Memory does not run out. Code that is not under \<^verbatim>\<open>src\<close> is an argument:
  libsecp256k1 is the record \<open>S\<close>, zlib a pair of functions, a contract the token notifies a function; what their
  documentation promises are the named predicates \<open>secp_der33\<close>, \<open>secp_parse_law\<close>, \<open>secp_tweak_laws\<close> and \<open>zlib_laws\<close>.

  \<^bold>\<open>The theories\<close>, from the bottom up.

  \<^item> \<open>Prelude\<close>: integer types, byte orders (\<^verbatim>\<open>ccan/endian\<close>), \<^verbatim>\<open>memcpy\<close>, \<^verbatim>\<open>memcmp\<close>, lemmas on lists and words.
  \<^item> \<open>BlockHash\<close>, \<open>Sha256\<close>, \<open>Ripemd160\<close>, \<open>Hkdf\<close>: \<^verbatim>\<open>ccan/crypto\<close> and \<^verbatim>\<open>bitcoin/shadouble.c\<close>. The locale
    \<open>compression\<close> has the buffering once for both hashes; feeding a message in pieces gives the hash of the whole.
  \<^item> \<open>Keys\<close>, \<open>Locktime\<close>, \<open>Script\<close>: \<^verbatim>\<open>bitcoin/pubkey.c\<close>, \<^verbatim>\<open>signature.c\<close>, \<^verbatim>\<open>locktime.c\<close>, \<^verbatim>\<open>script.c\<close>,
    \<^verbatim>\<open>common/key_derive.c\<close>, \<^verbatim>\<open>keyset.c\<close>. The two derivations of a revocation key match; the signature checker accepts exactly
    the strict encodings.
  \<^item> \<open>PullPush\<close>, \<open>BitcoinTx\<close>: \<^verbatim>\<open>bitcoin/varint.c\<close>, \<^verbatim>\<open>pullpush.c\<close>, \<^verbatim>\<open>tx.c\<close>. The locale \<open>push_sink\<close> makes one proof do
    for the array, the counter and the hash a transaction is pushed to; parsing inverts serialization, and the
    streamed signature hash is that of BIP 143.
  \<^item> \<open>PermuteTx\<close>: \<^verbatim>\<open>common/permute_tx.c\<close>, \<^verbatim>\<open>close_tx.c\<close>. The locale \<open>selection\<close> is the in-place selection sort of inputs
    and of outputs; its result is sorted and does not depend on the order before.
  \<^item> \<open>HtlcState\<close>, \<open>CommitTx\<close>, \<open>Channel\<close>: \<^verbatim>\<open>common/htlc_state.c\<close>, \<^verbatim>\<open>initial_commit_tx.c\<close>, \<^verbatim>\<open>htlc_tx.c\<close>,
    \<^verbatim>\<open>initial_channel.c\<close>, \<^verbatim>\<open>channeld/commit_tx.c\<close>, \<^verbatim>\<open>bitcoin/chainparams.c\<close>, and the commitment number in \<^verbatim>\<open>onchaind/onchaind.c\<close>.
    What the outputs of a commitment are, what they add up to, and that an HTLC on it is worth claiming.
  \<^item> \<open>FullChannel\<close>: \<^verbatim>\<open>channeld/full_channel.c\<close>, one definition per function. The locale \<open>commitment_step\<close> is
    what the four steps of the commitment protocol share; \<open>ChannelBalance\<close> extends it by \<open>solvent_step\<close>, \<open>commit_step\<close>
    and \<open>revoke_step\<close>.
  \<^item> \<open>ChannelProtocol\<close>: runs of a channel as a step relation. In every reachable state the balances and HTLCs add
    up to the funding, no assertion fails, HTLCs are well-formed, and two rounds settle everything.
  \<^item> \<open>ChannelPeers\<close>, \<open>ChannelTxs\<close>: the two ends of a channel stay mirror images and build the same
    transactions, and the HTLC transactions spend the outputs they should.
  \<^item> \<open>ChannelRestore\<close>, \<open>ChannelLimits\<close>: a restart from the database restores the channel; adding an HTLC
    is decided by an abstract verdict, and signing applies exactly the pending changes.
  \<^item> \<open>Shachain\<close>, \<open>Basepoints\<close>: \<^verbatim>\<open>ccan/crypto/shachain\<close>, \<^verbatim>\<open>common/derive_basepoints.c\<close>. Accepted secrets can be
    found again, an honest peer is never refused, and the derivations of single keys agree with that of all.
  \<^item> \<open>Wire\<close>, \<open>WireStructs\<close>: \<^verbatim>\<open>wire/fromwire.c\<close>, \<^verbatim>\<open>towire.c\<close>, \<^verbatim>\<open>common/htlc_wire.c\<close>, \<^verbatim>\<open>channel_config.c\<close>, \<^verbatim>\<open>utxo.c\<close>.
    The locale \<open>wire_codec\<close> is a writer with its reader: what is written is read back, and refused when cut short.
  \<^item> \<open>Bitmap\<close>, \<open>Intmap\<close>: \<^verbatim>\<open>ccan/bitmap\<close>, \<^verbatim>\<open>ccan/intmap\<close>, with the locales \<open>bit_array\<close> and \<open>ordered_map\<close> as
    their contracts. \<open>GossipRange\<close>: \<^verbatim>\<open>common/decode_short_channel_ids.c\<close> and the range queries of
    \<^verbatim>\<open>gossipd/gossipd.c\<close>; a query is answered in full. The lemma below connects it with the map.
  \<^item> \<open>Features\<close>, \<open>Bech32\<close>: \<^verbatim>\<open>common/features.c\<close>, \<^verbatim>\<open>common/bech32.c\<close>. Which peers are accepted; addresses survive
    encoding, and a wrong character is noticed.
  \<^item> \<open>DxfToken\<close>: the token contract, with contracts that call it back. The balances add up to the supply,
    the log accounts for each, and nobody loses more to others than they allowed.

  \<^bold>\<open>Bounds.\<close> No definition has fuel. Loops are structural recursion or functions with a termination proof, except
    \<open>read_scids\<close>, a partial function that \<open>decode_terminates\<close> shows to return for every input. The numbers that
  remain are the code's: commitments are numbered below \<open>2 ^ 48\<close>, a compressed list of channels unpacks to at most 1 MiB
  (131072 ids), block numbers of channels have 24 bits. Bitmap positions are below \<open>2 ^ 64 - 64\<close>, where aligning one
  does not wrap; a range query sees at most \<open>2 ^ 32\<close> blocks.

  \<^bold>\<open>Not modelled.\<close> The loops of the daemons, the database, JSON and the command line, which are input and output
  around these parts; the code generated for whole messages, so that a message is the record of its fields;
  the encrypted transport and the onions, which libsodium computes; the routing of payments; the resolution of outputs on the
  chain; gas and the virtual machine under the token; and the other programs kept under \<^verbatim>\<open>src\<close> (\<^verbatim>\<open>bitcoin\<close>, \<^verbatim>\<open>liquid\<close>,
  \<^verbatim>\<open>lnd\<close>, \<^verbatim>\<open>parity-ethereum\<close>, \<^verbatim>\<open>stellar-core\<close>, \<^verbatim>\<open>electrs\<close>, \<^verbatim>\<open>ChainBridge\<close>, \<^verbatim>\<open>rgb\<close>, \<^verbatim>\<open>swap.core\<close>, \<^verbatim>\<open>swap.react\<close>,
  \<^verbatim>\<open>connect\<close>, \<^verbatim>\<open>coming-soon-app\<close>), which are upstream projects or user interfaces that none of the modelled code calls.
\<close>

section \<open>The map of the channels\<close>

text \<open>
  \<open>GossipRange\<close> takes the map of the known channels as the ascending list of its keys; this is what the
  crit-bit tree gives it.
\<close>

lemma chanmap_after:
  assumes "uintmap_ok chanmap"
  shows "sorted_wrt (<) (map fst (listing chanmap))"
    and "uintmap_after (map fst (listing chanmap)) index = map_option fst (intmap_after chanmap index)"
proof -
  show "sorted_wrt (<) (map fst (listing chanmap))" using assms by (rule listing_sorted)
  have "find (\<lambda>k. index < k) (map fst xs) = map_option fst (find (\<lambda>e. index < fst e) xs)" for xs :: "(u64 \<times> 'a) list"
    by (induction xs) simp_all
  then show "uintmap_after (map fst (listing chanmap)) index = map_option fst (intmap_after chanmap index)"
    by (simp add: uintmap_after_def intmap_after_listing [OF assms])
qed

end
